(* ===== verification/Prelude.thy ===== *)
theory Prelude
  imports Main "HOL-Library.Word" "HOL-Library.Char_ord" "HOL-Library.List_Lexorder"
    "HOL-Library.AList" "HOL-Library.Sublist" "HOL-Library.Monad_Syntax"
begin

unbundle bit_operations_syntax

text \<open>
  What the components share: the machine integer types of the C++ sources, the byte view
  of strings and 32-bit words (the sources copy words with \<open>memcpy\<close> on little-endian
  targets), C++ exceptions as values, the \<open>std::map\<close> of the store as a list sorted by
  key, and the generic lemmas on lists, options and words that the component theories use.
\<close>

named_theorems json_simps \<open>laws of the JSON library\<close>
named_theorems node_simps \<open>field effects of the operations of a Raft node\<close>
named_theorems log_simps \<open>observers of the replicated log after each operation\<close>
named_theorems wal_simps \<open>records of the write-ahead log after each operation\<close>

section \<open>Machine integers\<close>

type_synonym u8 = "8 word"
type_synonym u16 = "16 word"
type_synonym u32 = "32 word"
type_synonym u64 = "64 word"

text \<open>An \<open>int64_t\<close> is a 64-bit word read with \<open>sint\<close>.\<close>

type_synonym i64 = "64 word"

text \<open>Clock readings (\<open>std::chrono\<close> time points) are counts of nanoseconds.\<close>

type_synonym time = int

lemma unat_of_nat64: "i < 2 ^ 64 \<Longrightarrow> unat (of_nat i :: u64) = i"
  by (simp add: unat_of_nat)

lemma of_nat_inj64: "i < 2 ^ 64 \<Longrightarrow> j < 2 ^ 64 \<Longrightarrow> (of_nat i :: u64) = of_nat j \<longleftrightarrow> i = j"
  using unat_of_nat64 by metis

text \<open>Arithmetic on \<open>int64_t\<close> that overflows wraps around on the targets of the build.\<close>

definition wrap64 :: "int \<Rightarrow> int" where
  "wrap64 x = sint (word_of_int x :: i64)"

lemma wrap64_id: "- (2 ^ 63) \<le> x \<Longrightarrow> x < 2 ^ 63 \<Longrightarrow> wrap64 x = x"
  unfolding wrap64_def by transfer (simp add: signed_take_bit_int_eq_self)

section \<open>C++ exceptions\<close>

datatype exn =
    JsonError          \<comment> \<open>\<open>nlohmann::json\<close> parse, type or encoding error\<close>
  | OutOfRange         \<comment> \<open>\<open>std::out_of_range\<close>\<close>
  | InvalidArgument    \<comment> \<open>\<open>std::invalid_argument\<close>\<close>
  | RuntimeError string \<comment> \<open>\<open>std::runtime_error\<close>\<close>
  | UndefinedBehaviour \<comment> \<open>an access outside an object's storage\<close>

fun bind_exn :: "exn + 'a \<Rightarrow> ('a \<Rightarrow> exn + 'b) \<Rightarrow> exn + 'b" where
  "bind_exn (Inl e) f = Inl e"
| "bind_exn (Inr x) f = f x"

lemma bind_exn_Inr: "bind_exn m f = Inr y \<longleftrightarrow> (\<exists>x. m = Inr x \<and> f x = Inr y)"
  by (cases m) auto

definition of_opt :: "exn \<Rightarrow> 'a option \<Rightarrow> exn + 'a" where
  "of_opt e x = (case x of None \<Rightarrow> Inl e | Some y \<Rightarrow> Inr y)"

lemma of_opt_simps [simp]: "of_opt e None = Inl e" "of_opt e (Some y) = Inr y"
  by (simp_all add: of_opt_def)

lemma of_opt_Inr [simp]: "of_opt e x = Inr y \<longleftrightarrow> x = Some y"
  by (cases x) auto

text \<open>A loop that converts the elements of a list and leaves at the first exception.\<close>

fun map_opt :: "('a \<Rightarrow> 'b option) \<Rightarrow> 'a list \<Rightarrow> 'b list option" where
  "map_opt f [] = Some []"
| "map_opt f (x # xs) = do { y \<leftarrow> f x; ys \<leftarrow> map_opt f xs; Some (y # ys) }"

lemma map_opt_Some: "(\<And>x. x \<in> set xs \<Longrightarrow> f x = Some (g x)) \<Longrightarrow> map_opt f xs = Some (map g xs)"
  by (induction xs) auto

lemma map_opt_map: "(\<And>x. x \<in> set xs \<Longrightarrow> f (g x) = Some x) \<Longrightarrow> map_opt f (map g xs) = Some xs"
  by (induction xs) auto

section \<open>Bytes\<close>

definition byte_of :: "char \<Rightarrow> u8" where
  "byte_of c = of_char c"

definition char_of_byte :: "u8 \<Rightarrow> char" where
  "char_of_byte b = char_of (unat b)"

definition bytes_of :: "string \<Rightarrow> u8 list" where
  "bytes_of s = map byte_of s"

definition string_of :: "u8 list \<Rightarrow> string" where
  "string_of bs = map char_of_byte bs"

lemma unat_of_char: "unat (of_char c :: u8) = of_char c"
proof -
  have "(of_char c :: u8) = of_nat (of_char c)" by (simp only: of_nat_of_char)
  then have "unat (of_char c :: u8) = of_char c mod 256" by (simp only: unat_of_nat) simp
  then show ?thesis by simp
qed

lemma char_of_byte_of [simp]: "char_of_byte (byte_of c) = c"
  by (simp add: char_of_byte_def byte_of_def unat_of_char)

lemma byte_of_char_of_byte [simp]: "byte_of (char_of_byte b) = b"
proof -
  have "unat b < 256" using unsigned_less [of b] by simp
  then have "(of_char (char_of (unat b)) :: nat) = unat b" by simp
  then show ?thesis
    by (metis byte_of_def char_of_byte_def unat_of_char word_unat_eq_iff)
qed

lemma string_of_bytes_of [simp]: "string_of (bytes_of s) = s"
  by (simp add: string_of_def bytes_of_def comp_def)

lemma bytes_of_string_of [simp]: "bytes_of (string_of bs) = bs"
  by (simp add: string_of_def bytes_of_def comp_def)

lemma length_bytes_of [simp]: "length (bytes_of s) = length s"
  by (simp add: bytes_of_def)

lemma length_string_of [simp]: "length (string_of bs) = length bs"
  by (simp add: string_of_def)

text \<open>The object representation of a \<open>uint32_t\<close>, low byte first.\<close>

definition le32 :: "u32 \<Rightarrow> u8 list" where
  "le32 w = [ucast w, ucast (drop_bit 8 w), ucast (drop_bit 16 w), ucast (drop_bit 24 w)]"

fun of_le32 :: "u8 list \<Rightarrow> u32" where
  "of_le32 (a # b # c # d # _) =
     of_nat (unat a + 256 * unat b + 65536 * unat c + 16777216 * unat d)"
| "of_le32 _ = 0"

lemma length_le32 [simp]: "length (le32 w) = 4"
  by (simp add: le32_def)

lemma unat_byte_of_u32: "unat (ucast (drop_bit k w) :: u8) = unat (w :: u32) div 2 ^ k mod 256"
proof -
  have "unat (ucast (drop_bit k w) :: u8) = unat (drop_bit k w) mod 256"
    by (simp add: unsigned_ucast_eq take_bit_eq_mod)
  also have "unat (drop_bit k w) = unat w div 2 ^ k"
    by (metis unat_drop_bit_eq drop_bit_eq_div)
  finally show ?thesis .
qed

lemma nat_bytes4:
  assumes "n < (4294967296 :: nat)"
  shows "n mod 256 + 256 * (n div 256 mod 256) + 65536 * (n div 65536 mod 256)
           + 16777216 * (n div 16777216 mod 256) = n"
proof -
  have d: "n div 65536 = n div 256 div 256" "n div 16777216 = n div 256 div 256 div 256"
    by (simp_all flip: div_mult2_eq)
  have "n div 256 div 256 div 256 < 256" using assms by (simp flip: div_mult2_eq add: less_mult_imp_div_less)
  then have "n div 16777216 mod 256 = n div 256 div 256 div 256" by (simp add: d)
  then show ?thesis
    using mult_div_mod_eq [of 256 n] mult_div_mod_eq [of 256 "n div 256"]
      mult_div_mod_eq [of 256 "n div 256 div 256"]
    unfolding d by linarith
qed

lemma of_le32_le32 [simp]: "of_le32 (le32 w @ bs) = w"
proof -
  have lt: "unat w < 4294967296" using unsigned_less [of w] by simp
  have b: "unat (ucast w :: u8) = unat w mod 256" "unat (ucast (drop_bit 8 w) :: u8) = unat w div 256 mod 256"
    "unat (ucast (drop_bit 16 w) :: u8) = unat w div 65536 mod 256"
    "unat (ucast (drop_bit 24 w) :: u8) = unat w div 16777216 mod 256"
    using unat_byte_of_u32 [of 0 w] unat_byte_of_u32 [of 8 w]
      unat_byte_of_u32 [of 16 w] unat_byte_of_u32 [of 24 w] by simp_all
  show ?thesis
    unfolding le32_def append.simps of_le32.simps b nat_bytes4 [OF lt] by (simp only: of_nat_unat ucast_id)
qed

lemmas of_le32_le32_Nil [simp] = of_le32_le32 [of _ "[]", simplified]

lemma of_le32_take: "of_le32 (take 4 bs) = of_le32 bs"
  by (cases bs rule: of_le32.cases) simp_all

end
