(* ===== verification/CxxStd.thy ===== *)
theory CxxStd
  imports Prelude
begin

text \<open>
  The parts of the C++ standard library the sources use: \<open>std::string\<close> searches and
  substrings, decimal conversion (\<open>std::to_string\<close>, \<open>std::stoull\<close>), \<open>std::map\<close> with
  string keys as a list of pairs in strictly increasing key order (its iteration order),
  and \<open>std::unordered_map\<close> as an association list (its iteration order is unspecified,
  so no property may depend on it).
\<close>

section \<open>Strings\<close>

text \<open>\<open>s.find(c)\<close>: the first position of a character, \<open>npos\<close> as \<open>None\<close>.\<close>

fun find_char :: "char \<Rightarrow> string \<Rightarrow> nat option" where
  "find_char c [] = None"
| "find_char c (x # xs) = (if x = c then Some 0 else map_option Suc (find_char c xs))"

text \<open>\<open>s.substr(pos, n)\<close> for \<open>pos \<le> s.size()\<close>.\<close>

definition substr :: "string \<Rightarrow> nat \<Rightarrow> nat \<Rightarrow> string" where
  "substr s pos n = take n (drop pos s)"

text \<open>\<open>s.substr(0, p.size()) == p\<close>, the prefix test written out at every use.\<close>

definition has_prefix :: "string \<Rightarrow> string \<Rightarrow> bool" where
  "has_prefix p s \<longleftrightarrow> substr s 0 (length p) = p"

lemma has_prefix_iff: "has_prefix p s \<longleftrightarrow> prefix p s"
proof
  assume "has_prefix p s"
  then have "take (length p) s = p" by (simp add: has_prefix_def substr_def)
  then show "prefix p s" by (metis take_is_prefix)
qed (auto simp: has_prefix_def substr_def prefix_def)

lemma find_char_None: "find_char c s = None \<longleftrightarrow> c \<notin> set s"
  by (induction s) auto

lemma find_char_Some:
  "find_char c s = Some n \<longleftrightarrow> n < length s \<and> s ! n = c \<and> c \<notin> set (take n s)"
proof (induction s arbitrary: n)
  case (Cons x xs)
  then show ?case by (cases n) auto
qed simp

lemma find_char_append: "c \<notin> set xs \<Longrightarrow> find_char c (xs @ c # ys) = Some (length xs)"
  by (induction xs) auto

section \<open>Decimal numbers\<close>

definition is_digit :: "char \<Rightarrow> bool" where
  "is_digit c \<longleftrightarrow> 48 \<le> (of_char c :: nat) \<and> (of_char c :: nat) \<le> 57"

definition digit_value :: "char \<Rightarrow> nat" where
  "digit_value c = of_char c - 48"

definition digit_char :: "nat \<Rightarrow> char" where
  "digit_char d = char_of (d + 48)"

lemma digit_char_digit [simp]:
  assumes "d < 10" shows "is_digit (digit_char d)" "digit_value (digit_char d) = d"
  using assms by (simp_all add: is_digit_def digit_char_def digit_value_def)

text \<open>\<open>std::to_string\<close> of an unsigned value.\<close>

fun to_string :: "nat \<Rightarrow> string" where
  "to_string n = (if n < 10 then [digit_char n] else to_string (n div 10) @ [digit_char (n mod 10)])"

declare to_string.simps [simp del]

definition digits_value :: "string \<Rightarrow> nat" where
  "digits_value s = foldl (\<lambda>v c. 10 * v + digit_value c) 0 s"

lemma digits_value_snoc [simp]: "digits_value (s @ [c]) = 10 * digits_value s + digit_value c"
  by (simp add: digits_value_def)

lemma to_string_digits: "list_all is_digit (to_string n) \<and> to_string n \<noteq> [] \<and> digits_value (to_string n) = n"
proof (induction n rule: to_string.induct)
  case (1 n)
  show ?case
  proof (cases "n < 10")
    case True
    then show ?thesis by (simp add: to_string.simps [of n] digits_value_def)
  next
    case False
    with "1.IH" show ?thesis by (simp add: to_string.simps [of n])
  qed
qed

text \<open>
  \<open>std::stoull(s)\<close>: white space, an optional sign, then a non-empty run of digits;
  the rest is ignored. No digits is \<open>std::invalid_argument\<close>, a magnitude beyond 64 bits
  is \<open>std::out_of_range\<close>. A minus sign negates the 64-bit value.
\<close>

definition is_space :: "char \<Rightarrow> bool" where
  "is_space c \<longleftrightarrow> (of_char c :: nat) \<in> {9, 10, 11, 12, 13, 32}"

definition strip_sign :: "string \<Rightarrow> bool \<times> string" where
  "strip_sign s = (case s of
       c # cs \<Rightarrow> if c = CHR ''-'' then (True, cs) else if c = CHR ''+'' then (False, cs) else (False, s)
     | [] \<Rightarrow> (False, []))"

definition stoull :: "string \<Rightarrow> exn + u64" where
  "stoull s =
     (let (neg, body) = strip_sign (dropWhile is_space s);
          ds = takeWhile is_digit body;
          v = digits_value ds
      in if ds = [] then Inl InvalidArgument
         else if 2 ^ 64 \<le> v then Inl OutOfRange
         else Inr (if neg then - of_nat v else of_nat v))"

text \<open>\<open>std::stoll(s)\<close>: the same with the range of \<open>int64_t\<close>.\<close>

definition stoll :: "string \<Rightarrow> exn + i64" where
  "stoll s =
     (let (neg, body) = strip_sign (dropWhile is_space s);
          ds = takeWhile is_digit body;
          v = (if neg then - int (digits_value ds) else int (digits_value ds))
      in if ds = [] then Inl InvalidArgument
         else if v < - (2 ^ 63) \<or> 2 ^ 63 \<le> v then Inl OutOfRange
         else Inr (word_of_int v))"

lemma digit_not_space: "is_digit c \<Longrightarrow> \<not> is_space c"
  by (auto simp: is_digit_def is_space_def)

lemma digit_not_sign: "is_digit c \<Longrightarrow> c \<noteq> CHR ''-'' \<and> c \<noteq> CHR ''+''"
  by (auto simp: is_digit_def)

lemma strip_sign_digit: "is_digit c \<Longrightarrow> strip_sign (c # cs) = (False, c # cs)"
  using digit_not_sign by (auto simp: strip_sign_def)

lemma stoull_digits:
  assumes "list_all is_digit ds" "ds \<noteq> []" "digits_value ds < 2 ^ 64"
    and "rest = [] \<or> \<not> is_digit (hd rest)"
  shows "stoull (ds @ rest) = Inr (of_nat (digits_value ds))"
proof -
  obtain c cs where ds: "ds = c # cs" using assms(2) by (cases ds) auto
  with assms(1) have c: "is_digit c" by simp
  have "takeWhile is_digit (ds @ rest) = ds"
    using assms(1,4) by (cases rest) (auto simp: list_all_iff takeWhile_append)
  then show ?thesis
    using assms(2,3) c by (simp add: stoull_def ds strip_sign_digit digit_not_space Let_def)
qed

section \<open>\<open>std::map\<close> with string keys\<close>

type_synonym 'v omap = "(string \<times> 'v) list"

definition om_wf :: "'v omap \<Rightarrow> bool" where
  "om_wf m \<longleftrightarrow> sorted_wrt (<) (map fst m)"

definition om_find :: "'v omap \<Rightarrow> string \<Rightarrow> 'v option" where
  "om_find m k = map_of m k"

fun om_set :: "string \<Rightarrow> 'v \<Rightarrow> 'v omap \<Rightarrow> 'v omap" where
  "om_set k v [] = [(k, v)]"
| "om_set k v ((k', v') # m) =
     (if k < k' then (k, v) # (k', v') # m
      else if k = k' then (k, v) # m
      else (k', v') # om_set k v m)"

fun om_erase :: "string \<Rightarrow> 'v omap \<Rightarrow> 'v omap" where
  "om_erase k [] = []"
| "om_erase k ((k', v') # m) = (if k = k' then m else (k', v') # om_erase k m)"

text \<open>\<open>lower_bound(k)\<close>: the rest of the iteration from the first key not less than \<open>k\<close>.\<close>

definition om_lower_bound :: "string \<Rightarrow> 'v omap \<Rightarrow> 'v omap" where
  "om_lower_bound k m = dropWhile (\<lambda>(k', _). k' < k) m"

lemma om_wf_Nil [simp]: "om_wf []"
  by (simp add: om_wf_def)

lemma om_wf_Cons [simp]: "om_wf ((k, v) # m) \<longleftrightarrow> (\<forall>k' \<in> fst ` set m. k < k') \<and> om_wf m"
  by (auto simp: om_wf_def)

lemma om_wf_distinct: "om_wf m \<Longrightarrow> distinct (map fst m)"
  by (induction m) (auto simp: om_wf_def)

lemma fst_om_set: "fst ` set (om_set k v m) = insert k (fst ` set m)"
  by (induction k v m rule: om_set.induct) auto

lemma fst_om_erase: "fst ` set (om_erase k m) \<subseteq> fst ` set m"
  by (induction k m rule: om_erase.induct) auto

lemma om_wf_set: "om_wf m \<Longrightarrow> om_wf (om_set k v m)"
  by (induction k v m rule: om_set.induct) (auto simp: fst_om_set)

lemma om_wf_erase: "om_wf m \<Longrightarrow> om_wf (om_erase k m)"
  using fst_om_erase by (induction k m rule: om_erase.induct) fastforce+

lemma om_find_notin: "k \<notin> fst ` set m \<Longrightarrow> om_find m k = None"
  by (simp add: om_find_def map_of_eq_None_iff)

lemma om_find_set: "om_find (om_set k v m) = (om_find m)(k := Some v)"
  by (induction k v m rule: om_set.induct) (auto simp: om_find_def)

lemma om_find_erase: "om_wf m \<Longrightarrow> om_find (om_erase k m) = (om_find m)(k := None)"
proof (induction k m rule: om_erase.induct)
  case (2 k k' v' m)
  show ?case
  proof (cases "k = k'")
    case True
    with "2.prems" have "k \<notin> fst ` set m" by auto
    with True show ?thesis by (auto simp: fun_eq_iff om_find_def map_of_eq_None_iff)
  next
    case False
    with 2 show ?thesis by (auto simp: fun_eq_iff om_find_def)
  qed
qed (simp add: om_find_def fun_eq_iff)

lemma om_wf_filter: "om_wf m \<Longrightarrow> om_wf (filter P m)"
  by (induction m) (auto simp: om_wf_def)

lemma om_find_filter: "om_wf m \<Longrightarrow>
  om_find (filter (\<lambda>(k, v). P k v) m) k =
    (case om_find m k of None \<Rightarrow> None | Some v \<Rightarrow> if P k v then Some v else None)"
proof (induction m)
  case (Cons kv m)
  obtain k' v' where kv: "kv = (k', v')" by (cases kv)
  with Cons.prems have "k' \<notin> fst ` set m" by auto
  then have "om_find m k' = None" by (rule om_find_notin)
  with Cons kv show ?case by (auto simp: om_find_def split: option.splits)
qed (simp add: om_find_def)

lemma om_find_in: "om_wf m \<Longrightarrow> om_find m k = Some v \<longleftrightarrow> (k, v) \<in> set m"
  by (simp add: om_find_def map_of_eq_Some_iff om_wf_distinct)

text \<open>Two sorted maps with the same lookups are the same list.\<close>

lemma om_wf_ext:
  assumes "om_wf m" "om_wf m'" "om_find m = om_find m'"
  shows "m = m'"
proof -
  have "set m = set m'"
    using om_find_in [OF assms(1)] om_find_in [OF assms(2)] assms(3) by auto
  then have "map fst m = map fst m'"
    using assms(1,2) unfolding om_wf_def
    by (intro sorted_distinct_set_unique)
      (auto simp: strict_sorted_iff dest: om_wf_distinct [unfolded om_wf_def])
  moreover have "inj_on fst (set m \<union> set m')"
    using om_wf_distinct [OF assms(1)] \<open>set m = set m'\<close> by (simp add: distinct_map)
  ultimately show ?thesis by (simp add: inj_on_map_eq_map)
qed

section \<open>The ordered-map interface\<close>

text \<open>
  What the store relies on of \<open>std::map\<close>: lookups after an assignment and an erase,
  and that both keep the container sorted.
\<close>

locale ordered_map =
  fixes wf :: "'m \<Rightarrow> bool"
    and find :: "'m \<Rightarrow> string \<Rightarrow> 'v option"
    and assign :: "string \<Rightarrow> 'v \<Rightarrow> 'm \<Rightarrow> 'm"
    and erase :: "string \<Rightarrow> 'm \<Rightarrow> 'm"
  assumes wf_assign: "wf m \<Longrightarrow> wf (assign k v m)"
    and wf_erase: "wf m \<Longrightarrow> wf (erase k m)"
    and find_assign: "find (assign k v m) = (find m)(k := Some v)"
    and find_erase: "wf m \<Longrightarrow> find (erase k m) = (find m)(k := None)"
begin

lemma find_assign_other: "k' \<noteq> k \<Longrightarrow> find (assign k v m) k' = find m k'"
  by (simp add: find_assign)

lemma find_assign_same: "find (assign k v m) k = Some v"
  by (simp add: find_assign)

lemma find_erase_other: "wf m \<Longrightarrow> k' \<noteq> k \<Longrightarrow> find (erase k m) k' = find m k'"
  by (simp add: find_erase)

lemma assign_erase_find: "wf m \<Longrightarrow> find (erase k (assign k v m)) = (find m)(k := None)"
  by (simp add: find_erase wf_assign find_assign)

end

interpretation om: ordered_map om_wf om_find om_set om_erase
  by unfold_locales (simp_all add: om_wf_set om_wf_erase om_find_set om_find_erase)

end
