(* ===== verification/Json.thy ===== *)
theory Json
  imports CxxStd
begin

text \<open>
  The interface of the JSON library (\<open>nlohmann::json\<close>, a third-party dependency): its
  operations are the fields of a record that every definition using JSON takes as an
  argument, over an abstract type of JSON values, and the behaviour the sources rely on is
  the locale \<open>json_lib\<close>. A thrown \<open>json::exception\<close> is \<open>None\<close>.
\<close>

section \<open>UTF-8\<close>

text \<open>Well-formed UTF-8 (RFC 3629), which the library requires of every string it prints.\<close>

definition utf8_cont :: "nat \<Rightarrow> nat \<Rightarrow> char \<Rightarrow> bool" where
  "utf8_cont lo hi c \<longleftrightarrow> lo \<le> (of_char c :: nat) \<and> (of_char c :: nat) \<le> hi"

fun utf8_valid :: "string \<Rightarrow> bool" where
  "utf8_valid [] = True"
| "utf8_valid (a # r) =
     (let n = (of_char a :: nat) in
      if n < 128 then utf8_valid r
      else if n < 194 then False
      else if n < 224 then
        (case r of b # r' \<Rightarrow> utf8_cont 128 191 b \<and> utf8_valid r' | _ \<Rightarrow> False)
      else if n < 240 then
        (case r of b # c # r' \<Rightarrow>
           utf8_cont (if n = 224 then 160 else 128) (if n = 237 then 159 else 191) b \<and>
           utf8_cont 128 191 c \<and> utf8_valid r' | _ \<Rightarrow> False)
      else if n < 245 then
        (case r of b # c # d # r' \<Rightarrow>
           utf8_cont (if n = 240 then 144 else 128) (if n = 244 then 143 else 191) b \<and>
           utf8_cont 128 191 c \<and> utf8_cont 128 191 d \<and> utf8_valid r' | _ \<Rightarrow> False)
      else False)"

lemma utf8_valid_ascii: "(\<forall>c \<in> set s. (of_char c :: nat) < 128) \<Longrightarrow> utf8_valid s"
  by (induction s) (auto simp: Let_def)

lemma utf8_valid_append: "utf8_valid s \<Longrightarrow> utf8_valid t \<Longrightarrow> utf8_valid (s @ t)"
  by (induction s rule: utf8_valid.induct) (auto simp: Let_def split: if_splits list.splits)

lemma utf8_valid_digits: "list_all is_digit s \<Longrightarrow> utf8_valid s"
  by (rule utf8_valid_ascii) (auto simp: list_all_iff is_digit_def)

section \<open>The operations\<close>

record 'j json_ops =
  j_parse :: "string \<Rightarrow> 'j option"
  j_dump :: "'j \<Rightarrow> string option"
  j_str :: "string \<Rightarrow> 'j"
  j_u64 :: "u64 \<Rightarrow> 'j"
  j_i64 :: "i64 \<Rightarrow> 'j"
  j_bool :: "bool \<Rightarrow> 'j"
  j_arr :: "'j list \<Rightarrow> 'j"
  j_obj :: "(string \<times> 'j) list \<Rightarrow> 'j"
  j_field :: "'j \<Rightarrow> string \<Rightarrow> 'j option"
  j_elems :: "'j \<Rightarrow> 'j list"
  j_is_object :: "'j \<Rightarrow> bool"
  j_is_array :: "'j \<Rightarrow> bool"
  j_is_null :: "'j \<Rightarrow> bool"
  j_get_str :: "'j \<Rightarrow> string option"
  j_get_u64 :: "'j \<Rightarrow> u64 option"
  j_get_i64 :: "'j \<Rightarrow> i64 option"
  j_get_int :: "'j \<Rightarrow> 32 word option"
  j_get_bool :: "'j \<Rightarrow> bool option"

text \<open>
  \<open>j["k"].get<T>()\<close>: a missing key gives a null value, whose conversion throws, as does
  a value of another type. \<open>j.value("k", d)\<close>: the default for a missing key, an exception
  for a value of another type or when \<open>j\<close> is not an object.
\<close>

definition jget :: "'j json_ops \<Rightarrow> ('j \<Rightarrow> 'a option) \<Rightarrow> 'j \<Rightarrow> string \<Rightarrow> 'a option" where
  "jget J get j k = Option.bind (j_field J j k) get"

definition jvalue :: "'j json_ops \<Rightarrow> ('j \<Rightarrow> 'a option) \<Rightarrow> 'j \<Rightarrow> string \<Rightarrow> 'a \<Rightarrow> 'a option" where
  "jvalue J get j k d =
     (if j_is_object J j then (case j_field J j k of None \<Rightarrow> Some d | Some v \<Rightarrow> get v) else None)"

text \<open>
  The values a program builds from strings, integers, booleans, arrays and objects,
  with well-formed strings and distinct keys.
\<close>

inductive built :: "'j json_ops \<Rightarrow> 'j \<Rightarrow> bool" for J where
  built_str: "utf8_valid s \<Longrightarrow> built J (j_str J s)"
| built_u64: "built J (j_u64 J n)"
| built_i64: "built J (j_i64 J i)"
| built_bool: "built J (j_bool J b)"
| built_arr: "(\<And>x. x \<in> set xs \<Longrightarrow> built J x) \<Longrightarrow> built J (j_arr J xs)"
| built_obj: "distinct (map fst kvs) \<Longrightarrow>
    (\<And>k v. (k, v) \<in> set kvs \<Longrightarrow> utf8_valid k \<and> built J v) \<Longrightarrow> built J (j_obj J kvs)"

text \<open>
  The behaviour relied on: printing a built value succeeds, gives UTF-8 text and parses
  back to the value; the accessors invert the constructors; printing a string that is not
  UTF-8 throws (\<open>type_error.316\<close>).
\<close>

locale json_lib =
  fixes J :: "'j json_ops"
  assumes dump_parse: "built J j \<Longrightarrow> \<exists>s. j_dump J j = Some s \<and> utf8_valid s \<and> j_parse J s = Some j"
    and dump_invalid: "distinct (map fst kvs) \<Longrightarrow> (k, j_str J s) \<in> set kvs \<Longrightarrow> \<not> utf8_valid s \<Longrightarrow>
      j_dump J (j_obj J kvs) = None"
    and field_obj [json_simps]: "distinct (map fst kvs) \<Longrightarrow> j_field J (j_obj J kvs) k = map_of kvs k"
    and object_obj [json_simps]: "j_is_object J (j_obj J kvs)"
    and array_arr [json_simps]: "j_is_array J (j_arr J xs)"
    and elems_arr [json_simps]: "j_elems J (j_arr J xs) = xs"
    and get_str [json_simps]: "j_get_str J (j_str J s) = Some s"
    and get_u64 [json_simps]: "j_get_u64 J (j_u64 J n) = Some n"
    and get_i64 [json_simps]: "j_get_i64 J (j_i64 J i) = Some i"
    and get_int [json_simps]: "j_get_int J (j_i64 J i) = Some (ucast i)"
    and get_bool [json_simps]: "j_get_bool J (j_bool J b) = Some b"
begin

lemma jget_obj [json_simps]:
  "distinct (map fst kvs) \<Longrightarrow> jget J get (j_obj J kvs) k = Option.bind (map_of kvs k) get"
  by (simp add: jget_def json_simps)

lemma jvalue_obj [json_simps]:
  "distinct (map fst kvs) \<Longrightarrow> jvalue J get (j_obj J kvs) k d =
     (case map_of kvs k of None \<Rightarrow> Some d | Some v \<Rightarrow> get v)"
  by (simp add: jvalue_def json_simps)

lemma dumpE:
  assumes "built J j"
  obtains s where "j_dump J j = Some s" "utf8_valid s" "j_parse J s = Some j"
  using dump_parse [OF assms] by blast

lemma dump_roundtrip: "built J j \<Longrightarrow> Option.bind (j_dump J j) (j_parse J) = Some j"
  by (auto elim: dumpE)

end

lemmas built_intros = built.intros

section \<open>The size of printed values\<close>

text \<open>
  The compact printer adds no white space: a character of a string takes at most six
  bytes, a number at most twenty, and a container its members, brackets, commas and colons.
\<close>

definition dsize :: "'j json_ops \<Rightarrow> 'j \<Rightarrow> nat" where
  "dsize J v = (case j_dump J v of Some d \<Rightarrow> length d | None \<Rightarrow> 0)"

locale json_sized = json_lib +
  assumes dsize_str: "dsize J (j_str J s) \<le> 6 * length s + 2"
    and dsize_u64: "dsize J (j_u64 J n) \<le> 20"
    and dsize_i64: "dsize J (j_i64 J i) \<le> 20"
    and dsize_bool: "dsize J (j_bool J b) \<le> 5"
    and dsize_arr: "dsize J (j_arr J xs) \<le> 2 + sum_list (map (\<lambda>x. 1 + dsize J x) xs)"
    and dsize_obj: "distinct (map fst kvs) \<Longrightarrow>
      dsize J (j_obj J kvs) \<le> 2 + sum_list (map (\<lambda>(k, v). 6 * length k + 4 + dsize J v) kvs)"
begin

lemma dump_length: "j_dump J v = Some d \<Longrightarrow> length d = dsize J v"
  by (simp add: dsize_def)

end

end
