(* ===== verification/JsonText.thy ===== *)
theory JsonText
  imports Json
begin

text \<open>
  An instance of the JSON interface: values as a datatype with objects kept in key order
  (the library's default object type is \<open>std::map\<close>), a compact printer with the library's
  string escapes, and a recursive-descent reader of what the printer writes, white space
  included. The round trip of this text format discharges the interface's laws.
\<close>

section \<open>Values and printer\<close>

datatype jval =
    JNull
  | JBool bool
  | JNum int
  | JStr string
  | JArr "jval list"
  | JObj "(string \<times> jval) list"

definition hex_char :: "nat \<Rightarrow> char" where
  "hex_char d = (if d < 10 then char_of (d + 48) else char_of (d + 87))"

definition hex_digit :: "char \<Rightarrow> nat option" where
  "hex_digit c = (let n = (of_char c :: nat) in
     if 48 \<le> n \<and> n \<le> 57 then Some (n - 48)
     else if 97 \<le> n \<and> n \<le> 102 then Some (n - 87)
     else if 65 \<le> n \<and> n \<le> 70 then Some (n - 55)
     else None)"

definition esc_table :: "(char \<times> char) list" where
  "esc_table = [(CHR 0x22, CHR 0x22), (CHR 0x5C, CHR 0x5C), (CHR 0x08, CHR ''b''),
     (CHR 0x0C, CHR ''f''), (CHR 0x0A, CHR ''n''), (CHR 0x0D, CHR ''r''), (CHR 0x09, CHR ''t'')]"

definition unesc_table :: "(char \<times> char) list" where
  "unesc_table = (CHR ''/'', CHR ''/'') # map (\<lambda>(c, e). (e, c)) esc_table"

definition esc :: "char \<Rightarrow> string" where
  "esc c = (case map_of esc_table c of
       Some e \<Rightarrow> [CHR 0x5C, e]
     | None \<Rightarrow> let n = (of_char c :: nat) in
         if n < 32 then CHR 0x5C # CHR ''u'' # CHR ''0'' # CHR ''0'' # [hex_char (n div 16), hex_char (n mod 16)]
         else [c])"

definition quote :: "string \<Rightarrow> string" where
  "quote s = CHR 0x22 # concat (map esc s) @ [CHR 0x22]"

fun commas :: "string list \<Rightarrow> string" where
  "commas [] = []"
| "commas [x] = x"
| "commas (x # y # r) = x @ CHR '','' # commas (y # r)"

definition print_int :: "int \<Rightarrow> string" where
  "print_int i = (if i < 0 then CHR ''-'' # to_string (nat (- i)) else to_string (nat i))"

fun print_json :: "jval \<Rightarrow> string" where
  "print_json JNull = ''null''"
| "print_json (JBool b) = (if b then ''true'' else ''false'')"
| "print_json (JNum i) = print_int i"
| "print_json (JStr s) = quote s"
| "print_json (JArr xs) = CHR ''['' # commas (map print_json xs) @ '']''"
| "print_json (JObj kvs) =
     CHR ''{'' # commas (map (\<lambda>(k, v). quote k @ CHR '':'' # print_json v) kvs) @ ''}''"

section \<open>Reader\<close>

definition skip_ws :: "string \<Rightarrow> string" where
  "skip_ws s = dropWhile (\<lambda>c. c \<in> {CHR 0x20, CHR 0x09, CHR 0x0A, CHR 0x0D}) s"

fun read_str :: "string \<Rightarrow> (string \<times> string) option" where
  "read_str [] = None"
| "read_str (c # r) =
     (if c = CHR 0x22 then Some ([], r)
      else if c = CHR 0x5C then
        (case r of
           e # r' \<Rightarrow>
             if e = CHR ''u'' then
               (case r' of
                  a # b # x # y # r'' \<Rightarrow>
                    (case (hex_digit a, hex_digit b, hex_digit x, hex_digit y) of
                       (Some 0, Some 0, Some m, Some n) \<Rightarrow>
                         if m < 8 then map_option (\<lambda>(s, t). (char_of (16 * m + n) # s, t)) (read_str r'')
                         else None
                     | _ \<Rightarrow> None)
                | _ \<Rightarrow> None)
             else (case map_of unesc_table e of
                     Some d \<Rightarrow> map_option (\<lambda>(s, t). (d # s, t)) (read_str r')
                   | None \<Rightarrow> None)
         | [] \<Rightarrow> None)
      else if (of_char c :: nat) < 32 then None
      else map_option (\<lambda>(s, t). (c # s, t)) (read_str r))"

definition read_lit :: "string \<Rightarrow> 'a \<Rightarrow> string \<Rightarrow> ('a \<times> string) option" where
  "read_lit w v s = (if prefix w s then Some (v, drop (length w) s) else None)"

definition read_num :: "string \<Rightarrow> (int \<times> string) option" where
  "read_num s =
     (let (neg, body) = (case s of c # r \<Rightarrow> if c = CHR ''-'' then (True, r) else (False, s) | [] \<Rightarrow> (False, s));
          ds = takeWhile is_digit body
      in if ds = [] then None
         else Some (if neg then - int (digits_value ds) else int (digits_value ds), drop (length ds) body))"

definition insert_members :: "(string \<times> jval) list \<Rightarrow> (string \<times> jval) list" where
  "insert_members kvs = foldr (\<lambda>(k, v) m. om_set k v m) kvs []"

fun read_val :: "nat \<Rightarrow> string \<Rightarrow> (jval \<times> string) option"
  and read_elems :: "nat \<Rightarrow> string \<Rightarrow> (jval list \<times> string) option"
  and read_members :: "nat \<Rightarrow> string \<Rightarrow> ((string \<times> jval) list \<times> string) option" where
  "read_val 0 s = None"
| "read_val (Suc f) s =
     (case skip_ws s of
        [] \<Rightarrow> None
      | c # r \<Rightarrow>
          if c = CHR 0x22 then map_option (\<lambda>(t, r'). (JStr t, r')) (read_str r)
          else if c = CHR ''['' then
            (case skip_ws r of
               d # r' \<Rightarrow> if d = CHR '']'' then Some (JArr [], r')
                         else map_option (\<lambda>(xs, r''). (JArr xs, r'')) (read_elems f r)
             | [] \<Rightarrow> None)
          else if c = CHR ''{'' then
            (case skip_ws r of
               d # r' \<Rightarrow> if d = CHR ''}'' then Some (JObj [], r')
                         else map_option (\<lambda>(kvs, r''). (JObj (insert_members kvs), r'')) (read_members f r)
             | [] \<Rightarrow> None)
          else if c = CHR ''n'' then read_lit ''null'' JNull (c # r)
          else if c = CHR ''t'' then read_lit ''true'' (JBool True) (c # r)
          else if c = CHR ''f'' then read_lit ''false'' (JBool False) (c # r)
          else map_option (\<lambda>(i, r'). (JNum i, r')) (read_num (c # r)))"
| "read_elems 0 s = None"
| "read_elems (Suc f) s =
     (case read_val f s of
        None \<Rightarrow> None
      | Some (v, r) \<Rightarrow>
          (case skip_ws r of
             d # r' \<Rightarrow> if d = CHR '','' then map_option (\<lambda>(vs, r''). (v # vs, r'')) (read_elems f r')
                       else if d = CHR '']'' then Some ([v], r') else None
           | [] \<Rightarrow> None))"
| "read_members 0 s = None"
| "read_members (Suc f) s =
     (case skip_ws s of
        c # r \<Rightarrow>
          if c = CHR 0x22 then
            (case read_str r of
               None \<Rightarrow> None
             | Some (k, r1) \<Rightarrow>
                 (case skip_ws r1 of
                    d # r2 \<Rightarrow>
                      if d = CHR '':'' then
                        (case read_val f r2 of
                           None \<Rightarrow> None
                         | Some (v, r3) \<Rightarrow>
                             (case skip_ws r3 of
                                e # r4 \<Rightarrow>
                                  if e = CHR '','' then
                                    map_option (\<lambda>(kvs, r5). ((k, v) # kvs, r5)) (read_members f r4)
                                  else if e = CHR ''}'' then Some ([(k, v)], r4) else None
                              | [] \<Rightarrow> None))
                      else None
                  | [] \<Rightarrow> None))
          else None
      | [] \<Rightarrow> None)"

definition read_json :: "string \<Rightarrow> jval option" where
  "read_json s =
     (if utf8_valid s then
        (case read_val (2 * length s) s of
           Some (v, r) \<Rightarrow> if skip_ws r = [] then Some v else None
         | None \<Rightarrow> None)
      else None)"

section \<open>Round trip of the text\<close>

lemma hex_digit_hex_char: "d < 16 \<Longrightarrow> hex_digit (hex_char d) = Some d"
  by (auto simp: hex_digit_def hex_char_def Let_def)

lemma esc_cases:
  obtains (table) e where "map_of esc_table c = Some e" "esc c = [CHR 0x5C, e]"
      "e \<noteq> CHR ''u''" "map_of unesc_table e = Some c"
  | (control) "esc c = CHR 0x5C # CHR ''u'' # CHR ''0'' # CHR ''0'' #
      [hex_char (of_char c div 16), hex_char (of_char c mod 16)]" "(of_char c :: nat) < 32"
  | (plain) "esc c = [c]" "c \<noteq> CHR 0x22" "c \<noteq> CHR 0x5C" "\<not> (of_char c :: nat) < 32"
proof (cases "map_of esc_table c")
  case None
  then show ?thesis
    using control plain by (cases "(of_char c :: nat) < 32") (auto simp: esc_def Let_def esc_table_def split: if_splits)
next
  case (Some e)
  then show ?thesis using table [of e]
    by (auto simp: esc_def esc_table_def unesc_table_def split: if_splits)
qed

lemma read_str_esc: "read_str (esc c @ t) = map_option (\<lambda>(s, r). (c # s, r)) (read_str t)"
proof (cases c rule: esc_cases)
  case (table e)
  then show ?thesis by simp
next
  case control
  have "16 * (of_char c div 16) + of_char c mod 16 = (of_char c :: nat)" by simp
  moreover have "(of_char c div 16 :: nat) < 8" "(of_char c mod 16 :: nat) < 16" using control by simp_all
  moreover have "hex_digit (CHR ''0'') = Some 0" by (simp add: hex_digit_def)
  ultimately show ?thesis using control
    by (simp add: hex_digit_hex_char del: mult_div_mod_eq)
next
  case plain
  then show ?thesis by simp
qed

lemma read_str_escs: "read_str (concat (map esc s) @ CHR 0x22 # r) = Some (s, r)"
  by (induction s) (simp_all add: read_str_esc)

lemma skip_ws_Cons [simp]:
  "c \<notin> {CHR 0x20, CHR 0x09, CHR 0x0A, CHR 0x0D} \<Longrightarrow> skip_ws (c # r) = c # r"
  by (simp add: skip_ws_def)

lemma takeWhile_digits:
  "list_all is_digit ds \<Longrightarrow> r = [] \<or> \<not> is_digit (hd r) \<Longrightarrow> takeWhile is_digit (ds @ r) = ds"
  by (cases r) (auto simp: list_all_iff takeWhile_append)

lemma to_string_cases:
  obtains c cs where "to_string n = c # cs" "is_digit c"
  using to_string_digits [of n] by (cases "to_string n") auto

lemma read_num_print_int:
  assumes "r = [] \<or> \<not> is_digit (hd r)"
  shows "read_num (print_int i @ r) = Some (i, r)"
proof -
  obtain c cs where n: "to_string (nat \<bar>i\<bar>) = c # cs" "is_digit c" by (rule to_string_cases)
  have "c \<noteq> CHR ''-''" using n(2) digit_not_sign by blast
  then show ?thesis
    using assms n to_string_digits [of "nat \<bar>i\<bar>"] takeWhile_digits [of "to_string (nat \<bar>i\<bar>)" r]
    by (auto simp: print_int_def read_num_def Let_def abs_if split: if_splits)
qed

lemma print_int_first:
  obtains c cs where "print_int i = c # cs" "is_digit c \<or> c = CHR ''-''"
proof (cases "i < 0")
  case True
  then show ?thesis using that by (simp add: print_int_def)
next
  case False
  obtain c cs where "to_string (nat i) = c # cs" "is_digit c" by (rule to_string_cases)
  then show ?thesis using False that by (simp add: print_int_def)
qed

lemma digit_first_char:
  assumes "is_digit c \<or> c = CHR ''-''"
  shows "c \<notin> {CHR 0x20, CHR 0x09, CHR 0x0A, CHR 0x0D}" "c \<noteq> CHR 0x22" "c \<noteq> CHR ''[''"
    "c \<noteq> CHR ''{''" "c \<noteq> CHR ''n''" "c \<noteq> CHR ''t''" "c \<noteq> CHR ''f''" "c \<noteq> CHR '']''" "c \<noteq> CHR ''}''"
  using assms by (auto simp: is_digit_def)

text \<open>Every printed value starts with a character that is neither white space nor a closing bracket.\<close>

lemma print_json_first:
  obtains c cs where "print_json v = c # cs" "c \<notin> {CHR 0x20, CHR 0x09, CHR 0x0A, CHR 0x0D}" "c \<noteq> CHR '']''"
proof (cases v)
  case (JNum i)
  obtain c cs where c: "print_int i = c # cs" "is_digit c \<or> c = CHR ''-''" by (rule print_int_first)
  show ?thesis by (rule that [of c cs]) (use JNum c digit_first_char [OF c(2)] in auto)
next
  case (JBool b)
  then show ?thesis using that by (cases b) auto
qed (use that in \<open>auto simp: quote_def\<close>)

fun json_wf :: "jval \<Rightarrow> bool" where
  "json_wf (JArr xs) = list_all json_wf xs"
| "json_wf (JObj kvs) = (om_wf kvs \<and> list_all (\<lambda>(k, v). json_wf v) kvs)"
| "json_wf _ = True"

lemma om_set_head: "\<forall>k' \<in> fst ` set m. k < k' \<Longrightarrow> om_set k v m = (k, v) # m"
  by (cases m) auto

lemma insert_members_wf: "om_wf kvs \<Longrightarrow> insert_members kvs = kvs"
  by (induction kvs) (auto simp: insert_members_def om_set_head)

lemma commas_Cons: "xs \<noteq> [] \<Longrightarrow> commas (x # xs) = x @ CHR '','' # commas xs"
  by (cases xs) auto

lemma read_elems_print:
  assumes "xs \<noteq> []" "2 * length (commas (map print_json xs)) + 1 \<le> f"
    and "\<And>x f r. x \<in> set xs \<Longrightarrow> 2 * length (print_json x) \<le> f \<Longrightarrow> r \<noteq> [] \<Longrightarrow> \<not> is_digit (hd r) \<Longrightarrow>
      read_val f (print_json x @ r) = Some (x, r)"
  shows "read_elems f (commas (map print_json xs) @ CHR '']'' # r) = Some (xs, r)"
  using assms
proof (induction xs arbitrary: f)
  case (Cons x xs)
  obtain g where f: "f = Suc g" using Cons.prems(2) by (cases f) auto
  note val = Cons.prems(3) [of x g]
  show ?case
  proof (cases "xs = []")
    case True
    have "read_val g (print_json x @ CHR '']'' # r) = Some (x, CHR '']'' # r)"
      using Cons.prems(2) True f by (intro val) (auto simp: is_digit_def)
    with True f show ?thesis by simp
  next
    case False
    let ?t = "commas (map print_json xs) @ CHR '']'' # r"
    have "read_val g (print_json x @ CHR '','' # ?t) = Some (x, CHR '','' # ?t)"
      using Cons.prems(2) False f by (intro val) (auto simp: is_digit_def commas_Cons)
    moreover have "read_elems g ?t = Some (xs, r)"
      using Cons.prems False f by (intro Cons.IH) (auto simp: commas_Cons)
    ultimately show ?thesis using False f by (simp add: commas_Cons)
  qed
qed simp

definition print_member :: "string \<times> jval \<Rightarrow> string" where
  "print_member kv = (case kv of (k, v) \<Rightarrow> quote k @ CHR '':'' # print_json v)"

lemma read_members_print:
  assumes "kvs \<noteq> []" "2 * length (commas (map print_member kvs)) + 1 \<le> f"
    and "\<And>k v f r. (k, v) \<in> set kvs \<Longrightarrow> 2 * length (print_json v) \<le> f \<Longrightarrow> r \<noteq> [] \<Longrightarrow> \<not> is_digit (hd r) \<Longrightarrow>
      read_val f (print_json v @ r) = Some (v, r)"
  shows "read_members f (commas (map print_member kvs) @ CHR ''}'' # r) = Some (kvs, r)"
  using assms
proof (induction kvs arbitrary: f)
  case (Cons kv kvs)
  obtain k v where kv: "kv = (k, v)" by (cases kv)
  obtain g where f: "f = Suc g" using Cons.prems(2) by (cases f) auto
  note val = Cons.prems(3) [of k v g]
  show ?case
  proof (cases "kvs = []")
    case True
    have "read_val g (print_json v @ CHR ''}'' # r) = Some (v, CHR ''}'' # r)"
      using Cons.prems(2) True f kv by (intro val) (auto simp: is_digit_def print_member_def)
    with True f kv show ?thesis by (simp add: print_member_def quote_def read_str_escs)
  next
    case False
    let ?t = "commas (map print_member kvs) @ CHR ''}'' # r"
    have "read_val g (print_json v @ CHR '','' # ?t) = Some (v, CHR '','' # ?t)"
      using Cons.prems(2) False f kv by (intro val) (auto simp: is_digit_def commas_Cons print_member_def)
    moreover have "read_members g ?t = Some (kvs, r)"
      using Cons.prems False f by (intro Cons.IH) (auto simp: commas_Cons)
    ultimately show ?thesis using False f kv
      by (simp add: commas_Cons print_member_def [of "(k, v)"] quote_def read_str_escs)
  qed
qed simp


lemma commas_first: "xs \<noteq> [] \<Longrightarrow> hd xs \<noteq> [] \<Longrightarrow> \<exists>cs. commas xs = hd (hd xs) # cs"
  by (cases xs rule: commas.cases) (auto simp: neq_Nil_conv)

lemma read_val_print:
  assumes "json_wf v" "2 * length (print_json v) \<le> f" "r = [] \<or> \<not> is_digit (hd r)"
  shows "read_val f (print_json v @ r) = Some (v, r)"
  using assms
proof (induction v arbitrary: f r)
  case JNull
  then show ?case by (cases f) (simp_all add: read_lit_def)
next
  case (JBool b)
  then show ?case by (cases f; cases b) (simp_all add: read_lit_def)
next
  case (JNum i)
  obtain c cs where c: "print_int i = c # cs" "is_digit c \<or> c = CHR ''-''" by (rule print_int_first)
  then obtain g where "f = Suc g" using JNum.prems(2) by (cases f) auto
  then show ?case
    using read_num_print_int [OF JNum.prems(3), of i] c digit_first_char [OF c(2)] by simp
next
  case (JStr s)
  then show ?case by (cases f) (simp_all add: quote_def read_str_escs)
next
  case (JArr xs)
  then obtain g where f: "f = Suc g" by (cases f) auto
  show ?case
  proof (cases xs)
    case Nil
    then show ?thesis using f by simp
  next
    case (Cons x xs')
    have "read_elems g (commas (map print_json xs) @ CHR '']'' # r) = Some (xs, r)"
      using JArr f Cons by (intro read_elems_print JArr.IH) (auto simp: list_all_iff)
    moreover obtain c cs where "print_json x = c # cs"
        "c \<notin> {CHR 0x20, CHR 0x09, CHR 0x0A, CHR 0x0D}" "c \<noteq> CHR '']''"
      by (rule print_json_first)
    moreover have "\<exists>cs. commas (map print_json xs) = hd (print_json x) # cs"
      using Cons calculation(2) commas_first [of "map print_json xs"] by simp
    ultimately show ?thesis using f by auto
  qed
next
  case (JObj kvs)
  then obtain g where f: "f = Suc g" by (cases f) auto
  have pm: "(\<lambda>(k, v). quote k @ CHR '':'' # print_json v) = print_member"
    by (simp add: print_member_def fun_eq_iff)
  show ?case
  proof (cases kvs)
    case Nil
    then show ?thesis using f by simp
  next
    case (Cons kv kvs')
    have "read_members g (commas (map print_member kvs) @ CHR ''}'' # r) = Some (kvs, r)"
      using JObj f Cons pm by (intro read_members_print) (auto simp: list_all_iff intro: JObj.IH)
    moreover have "\<exists>cs. commas (map print_member kvs) = CHR 0x22 # cs"
      using Cons commas_first [of "map print_member kvs"]
      by (cases kv) (auto simp: print_member_def quote_def)
    ultimately show ?thesis using f pm JObj.prems(1) by (auto simp: insert_members_wf)
  qed
qed

section \<open>The instance\<close>

fun all_utf8 :: "jval \<Rightarrow> bool" where
  "all_utf8 (JStr s) = utf8_valid s"
| "all_utf8 (JArr xs) = list_all all_utf8 xs"
| "all_utf8 (JObj kvs) = list_all (\<lambda>(k, v). utf8_valid k \<and> all_utf8 v) kvs"
| "all_utf8 _ = True"

definition json_text :: "jval json_ops" where
  "json_text = \<lparr>
     j_parse = read_json,
     j_dump = (\<lambda>v. if all_utf8 v then Some (print_json v) else None),
     j_str = JStr,
     j_u64 = (\<lambda>n. JNum (uint n)),
     j_i64 = (\<lambda>i. JNum (sint i)),
     j_bool = JBool,
     j_arr = JArr,
     j_obj = (\<lambda>kvs. JObj (insert_members kvs)),
     j_field = (\<lambda>v k. case v of JObj kvs \<Rightarrow> map_of kvs k | _ \<Rightarrow> None),
     j_elems = (\<lambda>v. case v of JArr xs \<Rightarrow> xs | JObj kvs \<Rightarrow> map snd kvs | _ \<Rightarrow> []),
     j_is_object = (\<lambda>v. case v of JObj _ \<Rightarrow> True | _ \<Rightarrow> False),
     j_is_array = (\<lambda>v. case v of JArr _ \<Rightarrow> True | _ \<Rightarrow> False),
     j_is_null = (\<lambda>v. v = JNull),
     j_get_str = (\<lambda>v. case v of JStr s \<Rightarrow> Some s | _ \<Rightarrow> None),
     j_get_u64 = (\<lambda>v. case v of JNum i \<Rightarrow> Some (word_of_int i) | _ \<Rightarrow> None),
     j_get_i64 = (\<lambda>v. case v of JNum i \<Rightarrow> Some (word_of_int i) | _ \<Rightarrow> None),
     j_get_int = (\<lambda>v. case v of JNum i \<Rightarrow> Some (word_of_int i) | JBool b \<Rightarrow> Some (of_bool b) | _ \<Rightarrow> None),
     j_get_bool = (\<lambda>v. case v of JBool b \<Rightarrow> Some b | _ \<Rightarrow> None)\<rparr>"

lemma insert_members_find: "om_find (insert_members kvs) = map_of kvs"
proof (induction kvs)
  case (Cons kv kvs)
  then show ?case by (cases kv) (simp add: insert_members_def om_find_set)
qed (simp add: insert_members_def om_find_def)

lemma insert_members_om_wf: "om_wf (insert_members kvs)"
  by (induction kvs) (auto simp: insert_members_def om_wf_set)

lemma set_insert_members: "distinct (map fst kvs) \<Longrightarrow> set (insert_members kvs) = set kvs"
proof -
  assume d: "distinct (map fst kvs)"
  have "kv \<in> set (insert_members kvs) \<longleftrightarrow> kv \<in> set kvs" for kv
    using om_find_in [OF insert_members_om_wf, of kvs "fst kv" "snd kv"] d
    by (simp add: insert_members_find map_of_eq_Some_iff)
  then show ?thesis by blast
qed

lemma set_insert_members_sub: "set (insert_members kvs) \<subseteq> set kvs"
proof
  fix kv assume "kv \<in> set (insert_members kvs)"
  then show "kv \<in> set kvs"
    using om_find_in [OF insert_members_om_wf, of kvs "fst kv" "snd kv"]
    by (auto simp: insert_members_find dest: map_of_SomeD)
qed

lemma built_json_text: "built json_text v \<Longrightarrow> json_wf v \<and> all_utf8 v"
proof (induction rule: built.induct)
  case (built_obj kvs)
  then show ?case using set_insert_members_sub [of kvs] insert_members_om_wf [of kvs]
    by (fastforce simp: json_text_def list_all_iff)
qed (auto simp: json_text_def list_all_iff)

lemma hex_char_ascii: "d < 16 \<Longrightarrow> (of_char (hex_char d) :: nat) < 128"
  by (simp add: hex_char_def)

lemma utf8_valid_esc_ascii:
  assumes "(of_char c :: nat) < 128" shows "utf8_valid (esc c)"
proof (cases c rule: esc_cases)
  case (table e)
  then have "(of_char e :: nat) < 128" by (auto simp: esc_table_def split: if_splits)
  with table show ?thesis by simp
next
  case control
  then show ?thesis using hex_char_ascii [of "of_char c div 16"] hex_char_ascii [of "of_char c mod 16"] by simp
next
  case plain
  with assms show ?thesis by simp
qed

lemma esc_high: "\<not> (of_char c :: nat) < 128 \<Longrightarrow> esc c = [c]"
proof -
  assume h: "\<not> (of_char c :: nat) < 128"
  then have "c \<notin> fst ` set esc_table" by (auto simp: esc_table_def)
  then have "map_of esc_table c = None" by (simp add: map_of_eq_None_iff)
  with h show ?thesis by (simp add: esc_def Let_def)
qed

lemma esc_cont: "utf8_cont lo hi c \<Longrightarrow> 128 \<le> lo \<Longrightarrow> esc c = [c]"
  by (rule esc_high) (simp add: utf8_cont_def)

lemma utf8_valid_esc: "utf8_valid s \<Longrightarrow> utf8_valid (concat (map esc s))"
proof (induction s rule: utf8_valid.induct)
  case (2 a r)
  show ?case
  proof (cases "(of_char a :: nat) < 128")
    case True
    then show ?thesis using 2 by (simp add: utf8_valid_append utf8_valid_esc_ascii)
  next
    case False
    then show ?thesis using 2
      by (auto simp: Let_def esc_high esc_cont split: if_splits list.splits)
  qed
qed simp

lemma utf8_valid_Cons_ascii: "(of_char c :: nat) < 128 \<Longrightarrow> utf8_valid (c # s) = utf8_valid s"
  by simp

lemma utf8_valid_quote: "utf8_valid s \<Longrightarrow> utf8_valid (quote s)"
  by (simp add: quote_def utf8_valid_append utf8_valid_esc)

lemma utf8_valid_commas: "list_all utf8_valid xs \<Longrightarrow> utf8_valid (commas xs)"
  by (induction xs rule: commas.induct) (simp_all add: utf8_valid_append)

lemma utf8_valid_print_int: "utf8_valid (print_int i)"
  using to_string_digits by (simp add: print_int_def utf8_valid_digits)

lemma utf8_valid_print: "all_utf8 v \<Longrightarrow> utf8_valid (print_json v)"
proof (induction v)
  case (JArr xs)
  then have "utf8_valid (commas (map print_json xs))"
    by (intro utf8_valid_commas) (auto simp: list_all_iff)
  then show ?case by (simp add: utf8_valid_append)
next
  case (JObj kvs)
  then have "utf8_valid (commas (map (\<lambda>(k, v). quote k @ CHR '':'' # print_json v) kvs))"
    by (intro utf8_valid_commas)
      (fastforce simp: list_all_iff utf8_valid_quote intro!: utf8_valid_append)
  then show ?case by (simp add: utf8_valid_append)
qed (simp_all add: utf8_valid_quote utf8_valid_print_int)

lemma scast_down: "(scast (i :: i64) :: 32 word) = ucast i"
  by (rule bit_word_eqI) (simp add: bit_simps)

interpretation jt: json_lib json_text
proof
  fix v assume b: "built json_text v"
  then have "json_wf v" "all_utf8 v" using built_json_text by auto
  then show "\<exists>s. j_dump json_text v = Some s \<and> utf8_valid s \<and> j_parse json_text s = Some v"
    using read_val_print [of v "2 * length (print_json v)" "[]"]
    by (simp add: json_text_def read_json_def utf8_valid_print skip_ws_def)
next
  fix kvs :: "(string \<times> jval) list" and k s
  assume d: "distinct (map fst kvs)" and k: "(k, j_str json_text s) \<in> set kvs" and s: "\<not> utf8_valid s"
  from k have "(k, JStr s) \<in> set (insert_members kvs)"
    by (simp add: set_insert_members [OF d] json_text_def)
  with s have "\<not> all_utf8 (JObj (insert_members kvs))"
    unfolding all_utf8.simps list_all_iff by (auto intro!: bexI [of _ "(k, JStr s)"])
  then show "j_dump json_text (j_obj json_text kvs) = None"
    by (simp add: json_text_def)
qed (simp_all add: json_text_def insert_members_find [unfolded om_find_def] scast_down)

section \<open>Sizes\<close>

lemma length_esc: "length (esc c) \<le> 6"
  by (simp add: esc_def Let_def split: option.splits)

lemma length_quote: "length (quote s) \<le> 6 * length s + 2"
proof -
  have "length (concat (map esc s)) \<le> 6 * length s"
    by (induction s) (use length_esc in \<open>auto intro: add_mono\<close>)
  then show ?thesis by (simp add: quote_def)
qed

lemma length_commas: "length (commas xs) \<le> sum_list (map (\<lambda>x. 1 + length x) xs)"
  by (induction xs rule: commas.induct) auto

lemma length_to_string: "n < 10 ^ Suc k \<Longrightarrow> length (to_string n) \<le> Suc k"
proof (induction k arbitrary: n)
  case 0
  then show ?case by (simp add: to_string.simps)
next
  case (Suc k)
  then have "n div 10 < 10 ^ Suc k" by simp
  with Suc show ?case by (simp add: to_string.simps [of n])
qed

lemma dsize_json_text: "dsize json_text v = (if all_utf8 v then length (print_json v) else 0)"
  by (simp add: dsize_def json_text_def)

lemma sum_insert_members:
  fixes f :: "string \<times> jval \<Rightarrow> nat"
  assumes "distinct (map fst kvs)"
  shows "sum_list (map f (insert_members kvs)) = sum_list (map f kvs)"
proof -
  have "distinct kvs" "distinct (insert_members kvs)"
    using assms om_wf_distinct [OF insert_members_om_wf] by (auto simp: distinct_map)
  then show ?thesis using set_insert_members [OF assms] by (simp add: sum_list_distinct_conv_sum_set)
qed

lemma print_int_sizes: "length (print_int (uint (n :: u64))) \<le> 20" "length (print_int (sint (i :: i64))) \<le> 20"
proof -
  have "unat n < 2 ^ 64" using unsigned_less [of n] by simp
  then have "nat (uint n) < 10 ^ Suc 19" by simp
  then have "length (to_string (nat (uint n))) \<le> Suc 19" by (rule length_to_string)
  then show "length (print_int (uint n)) \<le> 20" by (simp add: print_int_def)
  have "- (2 ^ 63) \<le> sint i" "sint i < 2 ^ 63" using sint_ge [of i] sint_lt [of i] by simp_all
  then have "nat (- sint i) < 10 ^ Suc 18" "nat (sint i) < 10 ^ Suc 18" by simp_all
  then have "length (to_string (nat (- sint i))) \<le> Suc 18" "length (to_string (nat (sint i))) \<le> Suc 18"
    by (simp_all only: length_to_string)
  then show "length (print_int (sint i)) \<le> 20" by (simp add: print_int_def)
qed

lemma json_text_build:
  "j_str json_text s = JStr s" "j_u64 json_text n = JNum (uint n)" "j_i64 json_text i = JNum (sint i)"
  "j_bool json_text b = JBool b" "j_arr json_text xs = JArr xs" "j_obj json_text kvs = JObj (insert_members kvs)"
  by (simp_all add: json_text_def)

interpretation jt: json_sized json_text
proof
  fix xs
  have "length (commas (map print_json xs)) \<le> sum_list (map (\<lambda>x. 1 + length (print_json x)) xs)"
    using length_commas [of "map print_json xs"] by (simp add: comp_def)
  moreover have "map (\<lambda>x. 1 + length (print_json x)) xs = map (\<lambda>x. 1 + dsize json_text x) xs" if "list_all all_utf8 xs"
    using that by (auto simp: dsize_json_text list_all_iff)
  ultimately show "dsize json_text (j_arr json_text xs) \<le> 2 + sum_list (map (\<lambda>x. 1 + dsize json_text x) xs)"
    by (auto simp: json_text_build dsize_json_text [of "JArr xs"] simp del: map_eq_conv)
next
  fix kvs :: "(string \<times> jval) list"
  assume d: "distinct (map fst kvs)"
  let ?f = "\<lambda>(k, v). 6 * length k + 4 + dsize json_text v"
  let ?ms = "insert_members kvs"
  show "dsize json_text (j_obj json_text kvs) \<le> 2 + sum_list (map ?f kvs)"
  proof (cases "all_utf8 (JObj ?ms)")
    case True
    have "length (commas (map print_member ?ms)) \<le> sum_list (map (\<lambda>x. 1 + length (print_member x)) ?ms)"
      using length_commas [of "map print_member ?ms"] by (simp add: comp_def)
    also have "\<dots> \<le> sum_list (map ?f ?ms)"
    proof (rule sum_list_mono)
      fix kv assume "kv \<in> set ?ms"
      then have "all_utf8 (snd kv)" using True by (auto simp: list_all_iff)
      then show "1 + length (print_member kv) \<le> ?f kv"
        using length_quote [of "fst kv"] by (cases kv) (auto simp: print_member_def dsize_json_text)
    qed
    also have "\<dots> = sum_list (map ?f kvs)" using d by (rule sum_insert_members)
    finally show ?thesis
      using True by (simp add: dsize_json_text [of "JObj ?ms"] json_text_build print_member_def [abs_def])
  next
    case False
    then show ?thesis by (simp add: dsize_json_text [of "JObj ?ms"] json_text_build)
  qed
qed (use print_int_sizes length_quote in \<open>auto simp: dsize_json_text json_text_build\<close>)

end
