(* ===== verification/RaftRPC.thy ===== *)
theory RaftRPC
  imports Json JsonText
begin

text \<open>
  \<open>raft/RaftRPC.{hpp,cpp}\<close>: log entries and the four Raft messages with their JSON
  serialisation, and the binary frame \<open>[type 1][seq 4][length 4][payload]\<close> that carries
  them over TCP. Each \<open>Serialize\<close> and \<open>Deserialize\<close> takes the JSON library as its first
  argument; \<open>None\<close> is a thrown \<open>json::exception\<close>.
\<close>

section \<open>Data\<close>

text \<open>
  The enumerations have a fixed underlying type, so a cast from an integer may hold a
  value that is none of the enumerators.
\<close>

datatype OpType = OpPut | OpDelete | OpNoOp | OpOther u8

fun OpType_value :: "OpType \<Rightarrow> u8" where
  "OpType_value OpPut = 1"
| "OpType_value OpDelete = 2"
| "OpType_value OpNoOp = 3"
| "OpType_value (OpOther b) = b"

definition OpType_of :: "u8 \<Rightarrow> OpType" where
  "OpType_of b = (if b = 1 then OpPut else if b = 2 then OpDelete else if b = 3 then OpNoOp else OpOther b)"

record LogEntry =
  le_term :: u64
  le_index :: u64
  le_opType :: OpType
  le_key :: string
  le_value :: string
  le_ttl_ms :: i64
  le_command :: string

definition LogEntry_default :: LogEntry where
  "LogEntry_default = \<lparr>le_term = 0, le_index = 0, le_opType = OpNoOp, le_key = [], le_value = [],
     le_ttl_ms = - 1, le_command = []\<rparr>"

record AppendEntriesRequest =
  ae_term :: u64
  ae_leaderId :: string
  ae_prevLogIndex :: u64
  ae_prevLogTerm :: u64
  ae_entries :: "LogEntry list"
  ae_leaderCommit :: u64

record AppendEntriesResponse =
  ar_term :: u64
  ar_success :: bool
  ar_conflictIndex :: u64
  ar_conflictTerm :: u64

record RequestVoteRequest =
  rv_term :: u64
  rv_candidateId :: string
  rv_lastLogIndex :: u64
  rv_lastLogTerm :: u64

record RequestVoteResponse =
  vr_term :: u64
  vr_voteGranted :: bool

datatype RpcType = AppendEntriesReq | AppendEntriesResp | RequestVoteReq | RequestVoteResp | RpcOther u8

fun RpcType_value :: "RpcType \<Rightarrow> u8" where
  "RpcType_value AppendEntriesReq = 1"
| "RpcType_value AppendEntriesResp = 2"
| "RpcType_value RequestVoteReq = 3"
| "RpcType_value RequestVoteResp = 4"
| "RpcType_value (RpcOther b) = b"

definition RpcType_of :: "u8 \<Rightarrow> RpcType" where
  "RpcType_of b =
     (if b = 1 then AppendEntriesReq else if b = 2 then AppendEntriesResp
      else if b = 3 then RequestVoteReq else if b = 4 then RequestVoteResp else RpcOther b)"

record RpcFrame =
  fr_type :: RpcType
  fr_seq :: u32
  fr_payload :: string

section \<open>JSON serialisation\<close>

definition LogEntry_NoOp :: "'j json_ops \<Rightarrow> u64 \<Rightarrow> u64 \<Rightarrow> LogEntry option" where
  "LogEntry_NoOp J t i =
     do { c \<leftarrow> j_dump J (j_obj J [(''op'', j_str J ''noop'')]);
          Some (LogEntry_default\<lparr>le_term := t, le_index := i, le_opType := OpNoOp, le_command := c\<rparr>) }"

definition LogEntry_json :: "'j json_ops \<Rightarrow> LogEntry \<Rightarrow> 'j" where
  "LogEntry_json J e = j_obj J
     [(''term'', j_u64 J (le_term e)), (''index'', j_u64 J (le_index e)),
      (''op'', j_i64 J (ucast (OpType_value (le_opType e)))),
      (''key'', j_str J (le_key e)), (''value'', j_str J (le_value e)),
      (''ttl_ms'', j_i64 J (le_ttl_ms e)), (''command'', j_str J (le_command e))]"

definition LogEntry_Serialize :: "'j json_ops \<Rightarrow> LogEntry \<Rightarrow> string option" where
  "LogEntry_Serialize J e = j_dump J (LogEntry_json J e)"

definition LogEntry_Deserialize :: "'j json_ops \<Rightarrow> string \<Rightarrow> LogEntry option" where
  "LogEntry_Deserialize J s =
     do { j \<leftarrow> j_parse J s;
          t \<leftarrow> jget J (j_get_u64 J) j ''term'';
          i \<leftarrow> jget J (j_get_u64 J) j ''index'';
          opv \<leftarrow> jget J (j_get_int J) j ''op'';
          k \<leftarrow> jvalue J (j_get_str J) j ''key'' [];
          v \<leftarrow> jvalue J (j_get_str J) j ''value'' [];
          ttl \<leftarrow> jvalue J (j_get_i64 J) j ''ttl_ms'' (- 1);
          c \<leftarrow> jvalue J (j_get_str J) j ''command'' [];
          Some \<lparr>le_term = t, le_index = i, le_opType = OpType_of (ucast opv), le_key = k, le_value = v,
            le_ttl_ms = ttl, le_command = c\<rparr> }"

definition AppendEntriesRequest_Serialize :: "'j json_ops \<Rightarrow> AppendEntriesRequest \<Rightarrow> string option" where
  "AppendEntriesRequest_Serialize J r =
     do { es \<leftarrow> map_opt (\<lambda>e. do { s \<leftarrow> LogEntry_Serialize J e; j_parse J s }) (ae_entries r);
          j_dump J (j_obj J
            [(''term'', j_u64 J (ae_term r)), (''leader_id'', j_str J (ae_leaderId r)),
             (''prev_log_index'', j_u64 J (ae_prevLogIndex r)),
             (''prev_log_term'', j_u64 J (ae_prevLogTerm r)),
             (''entries'', j_arr J es), (''leader_commit'', j_u64 J (ae_leaderCommit r))]) }"

definition AppendEntriesRequest_Deserialize :: "'j json_ops \<Rightarrow> string \<Rightarrow> AppendEntriesRequest option" where
  "AppendEntriesRequest_Deserialize J s =
     do { j \<leftarrow> j_parse J s;
          t \<leftarrow> jget J (j_get_u64 J) j ''term'';
          l \<leftarrow> jget J (j_get_str J) j ''leader_id'';
          pi \<leftarrow> jget J (j_get_u64 J) j ''prev_log_index'';
          pt \<leftarrow> jget J (j_get_u64 J) j ''prev_log_term'';
          c \<leftarrow> jget J (j_get_u64 J) j ''leader_commit'';
          es \<leftarrow> map_opt (\<lambda>x. do { d \<leftarrow> j_dump J x; LogEntry_Deserialize J d })
                 (case j_field J j ''entries'' of Some a \<Rightarrow> j_elems J a | None \<Rightarrow> []);
          Some \<lparr>ae_term = t, ae_leaderId = l, ae_prevLogIndex = pi, ae_prevLogTerm = pt, ae_entries = es,
            ae_leaderCommit = c\<rparr> }"

definition AppendEntriesResponse_Serialize :: "'j json_ops \<Rightarrow> AppendEntriesResponse \<Rightarrow> string option" where
  "AppendEntriesResponse_Serialize J r = j_dump J (j_obj J
     [(''term'', j_u64 J (ar_term r)), (''success'', j_bool J (ar_success r)),
      (''conflict_index'', j_u64 J (ar_conflictIndex r)), (''conflict_term'', j_u64 J (ar_conflictTerm r))])"

definition AppendEntriesResponse_Deserialize :: "'j json_ops \<Rightarrow> string \<Rightarrow> AppendEntriesResponse option" where
  "AppendEntriesResponse_Deserialize J s =
     do { j \<leftarrow> j_parse J s;
          t \<leftarrow> jget J (j_get_u64 J) j ''term'';
          ok \<leftarrow> jget J (j_get_bool J) j ''success'';
          ci \<leftarrow> jvalue J (j_get_u64 J) j ''conflict_index'' 0;
          ct \<leftarrow> jvalue J (j_get_u64 J) j ''conflict_term'' 0;
          Some \<lparr>ar_term = t, ar_success = ok, ar_conflictIndex = ci, ar_conflictTerm = ct\<rparr> }"

definition RequestVoteRequest_Serialize :: "'j json_ops \<Rightarrow> RequestVoteRequest \<Rightarrow> string option" where
  "RequestVoteRequest_Serialize J r = j_dump J (j_obj J
     [(''term'', j_u64 J (rv_term r)), (''candidate_id'', j_str J (rv_candidateId r)),
      (''last_log_index'', j_u64 J (rv_lastLogIndex r)), (''last_log_term'', j_u64 J (rv_lastLogTerm r))])"

definition RequestVoteRequest_Deserialize :: "'j json_ops \<Rightarrow> string \<Rightarrow> RequestVoteRequest option" where
  "RequestVoteRequest_Deserialize J s =
     do { j \<leftarrow> j_parse J s;
          t \<leftarrow> jget J (j_get_u64 J) j ''term'';
          c \<leftarrow> jget J (j_get_str J) j ''candidate_id'';
          li \<leftarrow> jget J (j_get_u64 J) j ''last_log_index'';
          lt \<leftarrow> jget J (j_get_u64 J) j ''last_log_term'';
          Some \<lparr>rv_term = t, rv_candidateId = c, rv_lastLogIndex = li, rv_lastLogTerm = lt\<rparr> }"

definition RequestVoteResponse_Serialize :: "'j json_ops \<Rightarrow> RequestVoteResponse \<Rightarrow> string option" where
  "RequestVoteResponse_Serialize J r = j_dump J (j_obj J
     [(''term'', j_u64 J (vr_term r)), (''vote_granted'', j_bool J (vr_voteGranted r))])"

definition RequestVoteResponse_Deserialize :: "'j json_ops \<Rightarrow> string \<Rightarrow> RequestVoteResponse option" where
  "RequestVoteResponse_Deserialize J s =
     do { j \<leftarrow> j_parse J s;
          t \<leftarrow> jget J (j_get_u64 J) j ''term'';
          g \<leftarrow> jget J (j_get_bool J) j ''vote_granted'';
          Some \<lparr>vr_term = t, vr_voteGranted = g\<rparr> }"

section \<open>Binary frames\<close>

text \<open>
  \<open>9 + payloadLen\<close> is computed in 32-bit arithmetic in both directions. \<open>Encode\<close> sizes
  its buffer with it and then copies \<open>payloadLen\<close> bytes; \<open>Decode\<close> compares it with the
  number of bytes received and then reads \<open>payloadLen\<close> bytes. Where the sum wraps, the
  copy leaves the buffer.
\<close>

definition RpcFrame_Encode :: "RpcFrame \<Rightarrow> exn + u8 list" where
  "RpcFrame_Encode f =
     (let payloadLen = (of_nat (length (fr_payload f)) :: u32) in
      if unat (9 + payloadLen) < 9 + unat payloadLen then Inl UndefinedBehaviour
      else Inr (RpcType_value (fr_type f) # le32 (fr_seq f) @ le32 payloadLen @
                take (unat payloadLen) (bytes_of (fr_payload f))))"

definition RpcFrame_Decode :: "u8 list \<Rightarrow> exn + (RpcFrame \<times> nat) option" where
  "RpcFrame_Decode data =
     (if length data < 9 then Inr None
      else let payloadLen = of_le32 (drop 5 data) in
        if length data < unat (9 + payloadLen) then Inr None
        else if length data < 9 + unat payloadLen then Inl UndefinedBehaviour
        else Inr (Some (\<lparr>fr_type = RpcType_of (hd data), fr_seq = of_le32 (drop 1 data),
                         fr_payload = string_of (take (unat payloadLen) (drop 9 data))\<rparr>,
                        unat (9 + payloadLen))))"

section \<open>Round trips of the messages\<close>

definition OpType_wf :: "OpType \<Rightarrow> bool" where
  "OpType_wf opt \<longleftrightarrow> (case opt of OpOther b \<Rightarrow> b \<notin> {1, 2, 3} | _ \<Rightarrow> True)"

definition entry_ok :: "LogEntry \<Rightarrow> bool" where
  "entry_ok e \<longleftrightarrow> utf8_valid (le_key e) \<and> utf8_valid (le_value e) \<and> utf8_valid (le_command e) \<and>
     OpType_wf (le_opType e)"

lemma OpType_of_value [simp]: "OpType_wf opt \<Longrightarrow> OpType_of (OpType_value opt) = opt"
  by (cases opt) (auto simp: OpType_of_def OpType_wf_def)

lemma OpType_cast [simp]: "(ucast (ucast (ucast (b :: u8) :: i64) :: 32 word) :: u8) = b"
  by (rule bit_word_eqI) (simp add: bit_simps)

context json_lib
begin

lemma LogEntry_json_built: "entry_ok e \<Longrightarrow> built J (LogEntry_json J e)"
  unfolding LogEntry_json_def by (rule built_obj) (auto simp: entry_ok_def intro: built_intros)

lemma LogEntry_roundtrip:
  assumes "entry_ok e"
  obtains s where "LogEntry_Serialize J e = Some s" "utf8_valid s" "j_parse J s = Some (LogEntry_json J e)"
    "LogEntry_Deserialize J s = Some e"
proof -
  obtain s where s: "j_dump J (LogEntry_json J e) = Some s" "utf8_valid s"
      "j_parse J s = Some (LogEntry_json J e)"
    using dumpE [OF LogEntry_json_built [OF assms]] by blast
  have "LogEntry_Deserialize J s = Some e"
    using assms s(3) by (simp add: LogEntry_Deserialize_def LogEntry_json_def json_simps entry_ok_def)
  then show ?thesis using s that by (simp add: LogEntry_Serialize_def)
qed

lemma LogEntry_text:
  assumes "entry_ok e"
  shows "LogEntry_Serialize J e \<bind> j_parse J = Some (LogEntry_json J e)"
    "j_dump J (LogEntry_json J e) \<bind> LogEntry_Deserialize J = Some e"
proof -
  obtain s where "LogEntry_Serialize J e = Some s" "j_parse J s = Some (LogEntry_json J e)"
      "LogEntry_Deserialize J s = Some e"
    using LogEntry_roundtrip [OF assms] by blast
  then show "LogEntry_Serialize J e \<bind> j_parse J = Some (LogEntry_json J e)"
    "j_dump J (LogEntry_json J e) \<bind> LogEntry_Deserialize J = Some e"
    by (simp_all add: LogEntry_Serialize_def)
qed

lemma LogEntry_NoOp_Some:
  obtains c where "LogEntry_NoOp J t i = Some (LogEntry_default\<lparr>le_term := t, le_index := i, le_opType := OpNoOp, le_command := c\<rparr>)"
    "utf8_valid c"
proof -
  have "built J (j_obj J [(''op'', j_str J ''noop'')])"
    by (rule built_obj) (auto intro: built_intros)
  then obtain c where "j_dump J (j_obj J [(''op'', j_str J ''noop'')]) = Some c" "utf8_valid c"
    by (rule dumpE)
  then show ?thesis using that by (simp add: LogEntry_NoOp_def)
qed

lemma AppendEntriesRequest_roundtrip:
  assumes "utf8_valid (ae_leaderId r)" "\<forall>e \<in> set (ae_entries r). entry_ok e"
  shows "\<exists>s. AppendEntriesRequest_Serialize J r = Some s \<and> utf8_valid s \<and>
    AppendEntriesRequest_Deserialize J s = Some r"
proof -
  let ?es = "map (LogEntry_json J) (ae_entries r)"
  let ?kvs = "[(''term'', j_u64 J (ae_term r)), (''leader_id'', j_str J (ae_leaderId r)),
     (''prev_log_index'', j_u64 J (ae_prevLogIndex r)), (''prev_log_term'', j_u64 J (ae_prevLogTerm r)),
     (''entries'', j_arr J ?es), (''leader_commit'', j_u64 J (ae_leaderCommit r))]"
  have es: "map_opt (\<lambda>e. do { s \<leftarrow> LogEntry_Serialize J e; j_parse J s }) (ae_entries r) = Some ?es"
    using assms(2) by (intro map_opt_Some) (simp add: LogEntry_text)
  have dec: "map_opt (\<lambda>x. do { d \<leftarrow> j_dump J x; LogEntry_Deserialize J d }) ?es = Some (ae_entries r)"
    using assms(2) by (intro map_opt_map) (simp add: LogEntry_text)
  have "built J (j_obj J ?kvs)"
    using assms LogEntry_json_built by (intro built_obj) (auto intro!: built_intros)
  then obtain s where s: "j_dump J (j_obj J ?kvs) = Some s" "utf8_valid s" "j_parse J s = Some (j_obj J ?kvs)"
    by (rule dumpE)
  then show ?thesis using es dec
    by (simp add: AppendEntriesRequest_Serialize_def AppendEntriesRequest_Deserialize_def json_simps)
qed

lemma AppendEntriesResponse_roundtrip:
  "\<exists>s. AppendEntriesResponse_Serialize J r = Some s \<and> utf8_valid s \<and> AppendEntriesResponse_Deserialize J s = Some r"
proof -
  let ?v = "j_obj J [(''term'', j_u64 J (ar_term r)), (''success'', j_bool J (ar_success r)),
      (''conflict_index'', j_u64 J (ar_conflictIndex r)), (''conflict_term'', j_u64 J (ar_conflictTerm r))]"
  have "built J ?v" by (rule built_obj) (auto intro: built_intros)
  then obtain s where "j_dump J ?v = Some s" "utf8_valid s" "j_parse J s = Some ?v" by (rule dumpE)
  then show ?thesis
    by (simp add: AppendEntriesResponse_Serialize_def AppendEntriesResponse_Deserialize_def json_simps)
qed

lemma RequestVoteRequest_roundtrip:
  assumes "utf8_valid (rv_candidateId r)"
  shows "\<exists>s. RequestVoteRequest_Serialize J r = Some s \<and> utf8_valid s \<and> RequestVoteRequest_Deserialize J s = Some r"
proof -
  let ?v = "j_obj J [(''term'', j_u64 J (rv_term r)), (''candidate_id'', j_str J (rv_candidateId r)),
      (''last_log_index'', j_u64 J (rv_lastLogIndex r)), (''last_log_term'', j_u64 J (rv_lastLogTerm r))]"
  have "built J ?v" using assms by (intro built_obj) (auto intro: built_intros)
  then obtain s where "j_dump J ?v = Some s" "utf8_valid s" "j_parse J s = Some ?v" by (rule dumpE)
  then show ?thesis
    by (simp add: RequestVoteRequest_Serialize_def RequestVoteRequest_Deserialize_def json_simps)
qed

lemma RequestVoteResponse_roundtrip:
  "\<exists>s. RequestVoteResponse_Serialize J r = Some s \<and> utf8_valid s \<and> RequestVoteResponse_Deserialize J s = Some r"
proof -
  let ?v = "j_obj J [(''term'', j_u64 J (vr_term r)), (''vote_granted'', j_bool J (vr_voteGranted r))]"
  have "built J ?v" by (rule built_obj) (auto intro: built_intros)
  then obtain s where "j_dump J ?v = Some s" "utf8_valid s" "j_parse J s = Some ?v" by (rule dumpE)
  then show ?thesis
    by (simp add: RequestVoteResponse_Serialize_def RequestVoteResponse_Deserialize_def json_simps)
qed

end


section \<open>Frames\<close>

definition RpcType_wf :: "RpcType \<Rightarrow> bool" where
  "RpcType_wf t \<longleftrightarrow> (case t of RpcOther b \<Rightarrow> b \<notin> {1, 2, 3, 4} | _ \<Rightarrow> True)"

lemma RpcType_of_value [simp]: "RpcType_wf t \<Longrightarrow> RpcType_of (RpcType_value t) = t"
  by (cases t) (auto simp: RpcType_of_def RpcType_wf_def)

lemma unat_9_plus: "unat (9 + w :: u32) = (if unat w < 4294967287 then 9 + unat w else unat w - 4294967287)"
proof -
  have "unat w < 4294967296" using unsigned_less [of w] by simp
  moreover have "unat (9 + w) = (9 + unat w) mod 4294967296"
    by (simp add: unat_word_ariths)
  ultimately show ?thesis by (auto simp: mod_if)
qed

text \<open>A frame whose payload fits is its nine-byte header followed by the payload.\<close>

definition frame_bytes :: "RpcFrame \<Rightarrow> u8 list" where
  "frame_bytes f = RpcType_value (fr_type f) # le32 (fr_seq f) @ le32 (of_nat (length (fr_payload f))) @
     bytes_of (fr_payload f)"

definition frame_ok :: "RpcFrame \<Rightarrow> bool" where
  "frame_ok f \<longleftrightarrow> length (fr_payload f) < 4294967287 \<and> RpcType_wf (fr_type f)"

lemma frame_len: "frame_ok f \<Longrightarrow> unat (of_nat (length (fr_payload f)) :: u32) = length (fr_payload f)"
  by (simp add: frame_ok_def unat_of_nat)

lemma Encode_frame_bytes: "frame_ok f \<Longrightarrow> RpcFrame_Encode f = Inr (frame_bytes f)"
  using frame_len [of f] by (simp add: RpcFrame_Encode_def frame_bytes_def Let_def unat_9_plus frame_ok_def)

lemma length_frame_bytes: "length (frame_bytes f) = 9 + length (fr_payload f)"
  by (simp add: frame_bytes_def)

lemma frame_header:
  "hd (t # le32 s @ le32 l @ r) = t" "of_le32 (drop 1 (t # le32 s @ le32 l @ r)) = s"
  "of_le32 (drop 5 (t # le32 s @ le32 l @ r)) = l" "drop 9 (t # le32 s @ le32 l @ r) = r"
  "length (t # le32 s @ le32 l @ r) = 9 + length r"
  by simp_all

lemma Decode_header:
  "RpcFrame_Decode (t # le32 s @ le32 l @ r) =
     (if length r + 9 < unat (9 + l) then Inr None
      else if length r < unat l then Inl UndefinedBehaviour
      else Inr (Some (\<lparr>fr_type = RpcType_of t, fr_seq = s, fr_payload = string_of (take (unat l) r)\<rparr>,
                      unat (9 + l))))"
  unfolding RpcFrame_Decode_def frame_header Let_def by simp

lemma Decode_frame_bytes:
  assumes "frame_ok f"
  shows "RpcFrame_Decode (frame_bytes f @ r) = Inr (Some (f, length (frame_bytes f)))"
proof -
  have "frame_bytes f @ r = RpcType_value (fr_type f) # le32 (fr_seq f) @
      le32 (of_nat (length (fr_payload f))) @ bytes_of (fr_payload f) @ r"
    by (simp add: frame_bytes_def)
  then show ?thesis
    using assms frame_len [OF assms]
    by (simp only: Decode_header) (simp add: unat_9_plus frame_ok_def length_frame_bytes)
qed

lemma Decode_partial:
  assumes "frame_ok f" "n < length (frame_bytes f)"
  shows "RpcFrame_Decode (take n (frame_bytes f)) = Inr None"
proof (cases "n < 9")
  case True
  then show ?thesis by (simp add: RpcFrame_Decode_def)
next
  case False
  then obtain m where n: "n = m + 9" by (metis add.commute le_Suc_ex not_less)
  then have m: "m < length (fr_payload f)" using assms(2) by (simp add: length_frame_bytes)
  have "take n (frame_bytes f) = RpcType_value (fr_type f) # le32 (fr_seq f) @
      le32 (of_nat (length (fr_payload f))) @ take m (bytes_of (fr_payload f))"
    by (simp add: frame_bytes_def n take_Cons')
  then show ?thesis
    using assms(1) m frame_len [OF assms(1)]
    by (simp only: Decode_header) (simp add: unat_9_plus frame_ok_def)
qed

text \<open>Where the 32-bit sum in \<open>Decode\<close> wraps, and only there, the payload copy leaves the buffer.\<close>

lemma Decode_UB_iff:
  "RpcFrame_Decode data = Inl UndefinedBehaviour \<longleftrightarrow>
     9 \<le> length data \<and> 4294967287 \<le> unat (of_le32 (drop 5 data)) \<and>
     length data < 9 + unat (of_le32 (drop 5 data))"
proof -
  have "unat (of_le32 (drop 5 data)) < 4294967296" using unsigned_less [of "of_le32 (drop 5 data)"] by simp
  then show ?thesis by (auto simp: RpcFrame_Decode_def Let_def unat_9_plus split: if_splits)
qed

section \<open>Properties\<close>

text \<open>
  An \<open>AppendEntries\<close> request serialised, put into a frame and sent arrives as it was,
  whatever bytes follow it in the receive buffer, and no proper prefix of the frame is
  taken for a frame.
\<close>

theorem AppendEntries_wire:
  assumes "json_lib J" "utf8_valid (ae_leaderId r)" "\<forall>e \<in> set (ae_entries r). entry_ok e"
  shows "\<exists>p. AppendEntriesRequest_Serialize J r = Some p \<and> AppendEntriesRequest_Deserialize J p = Some r \<and>
    (length p < 4294967287 \<longrightarrow>
      (let f = \<lparr>fr_type = AppendEntriesReq, fr_seq = q, fr_payload = p\<rparr>
       in \<exists>bs. RpcFrame_Encode f = Inr bs \<and> RpcFrame_Decode (bs @ rest) = Inr (Some (f, length bs)) \<and>
            (\<forall>n < length bs. RpcFrame_Decode (take n bs) = Inr None)))"
proof -
  obtain p where p: "AppendEntriesRequest_Serialize J r = Some p" "AppendEntriesRequest_Deserialize J p = Some r"
    using json_lib.AppendEntriesRequest_roundtrip [OF assms] by blast
  have "frame_ok \<lparr>fr_type = AppendEntriesReq, fr_seq = q, fr_payload = p\<rparr>" if "length p < 4294967287"
    using that by (simp add: frame_ok_def RpcType_wf_def)
  then show ?thesis
    using p Encode_frame_bytes Decode_frame_bytes Decode_partial by (auto simp: Let_def)
qed

definition sample_request :: AppendEntriesRequest where
  "sample_request = \<lparr>ae_term = 3, ae_leaderId = ''n1'', ae_prevLogIndex = 7, ae_prevLogTerm = 2,
     ae_entries = [LogEntry_default\<lparr>le_term := 3, le_index := 8, le_opType := OpPut, le_key := ''k'', le_value := ''v''\<rparr>],
     ae_leaderCommit = 6\<rparr>"

theorem AppendEntries_wire_witness:
  "\<exists>p. AppendEntriesRequest_Serialize json_text sample_request = Some p \<and>
     AppendEntriesRequest_Deserialize json_text p = Some sample_request"
proof -
  have "utf8_valid (ae_leaderId sample_request)" "\<forall>e \<in> set (ae_entries sample_request). entry_ok e"
    by (simp_all add: sample_request_def entry_ok_def LogEntry_default_def OpType_wf_def)
  from AppendEntries_wire [OF jt.json_lib_axioms this, of 1 "[]"] show ?thesis by blast
qed

text \<open>
  C40: \<open>RpcFrame::Decode\<close> reads outside its buffer exactly when the announced payload length
  makes the 32-bit sum \<open>9 + length\<close> wrap while the buffer holds fewer bytes.
\<close>

theorem Decode_overrun:
  "RpcFrame_Decode buf = Inl UndefinedBehaviour \<longleftrightarrow>
     9 \<le> length buf \<and> 4294967287 \<le> unat (of_le32 (drop 5 buf)) \<and>
     length buf < 9 + unat (of_le32 (drop 5 buf))"
  by (rule Decode_UB_iff)

end
