(* ===== verification/WriteAheadLog.thy ===== *)
theory WriteAheadLog
  imports RaftRPC
begin

unbundle bit_operations_syntax

text \<open>
  \<open>storage/WriteAheadLog.{hpp,cpp}\<close> down to the bytes of the segment files: the CRC-32
  routine, the record frame \<open>[crc 4][length 4][type 1][payload]\<close>, segment naming and
  rotation, the three kinds of record and their JSON payloads, and recovery. The directory
  is an association list from file names to contents (the order of the list, like that of
  \<open>fs::directory_iterator\<close>, means nothing). \<open>open\<close> and \<open>write\<close> are taken to succeed;
  what a write cut short by a crash leaves behind is the subject of the torn-write lemmas.
\<close>

section \<open>CRC-32\<close>

definition crc_step :: "u32 \<Rightarrow> u32" where
  "crc_step crc = (if crc AND 1 \<noteq> 0 then 0xEDB88320 XOR drop_bit 1 crc else drop_bit 1 crc)"

definition BuildCrc32Table :: "u32 list" where
  "BuildCrc32Table = map (\<lambda>i. (crc_step ^^ 8) (of_nat i)) [0..<256]"

definition crc_byte :: "u32 \<Rightarrow> u8 \<Rightarrow> u32" where
  "crc_byte crc b = BuildCrc32Table ! unat ((crc XOR ucast b) AND 0xFF) XOR drop_bit 8 crc"

definition Crc32 :: "u8 list \<Rightarrow> u32" where
  "Crc32 bs = foldl crc_byte 0xFFFFFFFF bs XOR 0xFFFFFFFF"

section \<open>State\<close>

datatype RecordType = RecLogEntry | RecHardState | RecSnapshot

fun RecordType_value :: "RecordType \<Rightarrow> u8" where
  "RecordType_value RecLogEntry = 1"
| "RecordType_value RecHardState = 2"
| "RecordType_value RecSnapshot = 3"

record HardState =
  hs_term :: u64
  hs_votedFor :: string

record RawLogEntry =
  raw_term :: u64
  raw_index :: u64
  raw_command :: string

record RecoveryResult =
  rr_entries :: "RawLogEntry list"
  rr_hardState :: HardState
  rr_latestSnapshot :: "string option"
  rr_snapshotIndex :: u64
  rr_snapshotTerm :: u64

definition RecoveryResult_default :: RecoveryResult where
  "RecoveryResult_default = \<lparr>rr_entries = [], rr_hardState = \<lparr>hs_term = 0, hs_votedFor = []\<rparr>,
     rr_latestSnapshot = None, rr_snapshotIndex = 0, rr_snapshotTerm = 0\<rparr>"

record wal =
  w_dir :: "(string \<times> u8 list) list"
  w_maxSegmentBytes :: nat
  w_currentSegment :: u64
  w_currentOffset :: nat

section \<open>Segments\<close>

text \<open>\<open>"wal-%016llu.log"\<close>\<close>

definition SegmentPath :: "u64 \<Rightarrow> string" where
  "SegmentPath seg =
     (let ds = to_string (unat seg) in ''wal-'' @ replicate (16 - length ds) (CHR ''0'') @ ds @ ''.log'')"

definition is_segment_name :: "string \<Rightarrow> bool" where
  "is_segment_name name \<longleftrightarrow> prefix ''wal-'' name \<and> suffix ''.log'' name"

definition segment_number :: "string \<Rightarrow> exn + u64" where
  "segment_number name = stoull (substr name 4 (length name - 8))"

fun segment_numbers :: "(string \<times> u8 list) list \<Rightarrow> exn + u64 list" where
  "segment_numbers [] = Inr []"
| "segment_numbers ((name, _) # fs) =
     (if is_segment_name name
      then bind_exn (segment_number name) (\<lambda>s. bind_exn (segment_numbers fs) (\<lambda>ss. Inr (s # ss)))
      else segment_numbers fs)"

definition file_bytes :: "(string \<times> u8 list) list \<Rightarrow> u64 \<Rightarrow> u8 list" where
  "file_bytes dir seg = (case map_of dir (SegmentPath seg) of Some bs \<Rightarrow> bs | None \<Rightarrow> [])"

definition OpenOrCreateSegment :: "u64 \<Rightarrow> wal \<Rightarrow> wal" where
  "OpenOrCreateSegment seg w =
     (let dir = (case map_of (w_dir w) (SegmentPath seg) of
                   Some _ \<Rightarrow> w_dir w
                 | None \<Rightarrow> w_dir w @ [(SegmentPath seg, [])])
      in w\<lparr>w_dir := dir, w_currentOffset := length (file_bytes dir seg), w_currentSegment := seg\<rparr>)"

definition WriteAheadLog_new :: "(string \<times> u8 list) list \<Rightarrow> nat \<Rightarrow> exn + wal" where
  "WriteAheadLog_new dir maxSegmentBytes =
     bind_exn (segment_numbers dir) (\<lambda>segs.
       let highest = foldl max 0 segs in
       Inr (OpenOrCreateSegment highest
              \<lparr>w_dir = dir, w_maxSegmentBytes = maxSegmentBytes, w_currentSegment = highest, w_currentOffset = 0\<rparr>))"

definition MaybeRotate :: "wal \<Rightarrow> wal" where
  "MaybeRotate w =
     (if w_maxSegmentBytes w \<le> w_currentOffset w then OpenOrCreateSegment (w_currentSegment w + 1) w else w)"

section \<open>Writing\<close>

definition record_bytes :: "u8 \<Rightarrow> string \<Rightarrow> u8 list" where
  "record_bytes typeByte payload =
     le32 (Crc32 (typeByte # bytes_of payload)) @ le32 (of_nat (length payload)) @
     typeByte # bytes_of payload"

definition WriteRecord :: "RecordType \<Rightarrow> string \<Rightarrow> wal \<Rightarrow> wal" where
  "WriteRecord ty payload w =
     (let record = record_bytes (RecordType_value ty) payload;
          path = SegmentPath (w_currentSegment w)
      in w\<lparr>w_dir := AList.update path (file_bytes (w_dir w) (w_currentSegment w) @ record) (w_dir w),
           w_currentOffset := w_currentOffset w + length record\<rparr>)"

definition RawLogEntry_json :: "'j json_ops \<Rightarrow> RawLogEntry \<Rightarrow> 'j" where
  "RawLogEntry_json J e = j_obj J
     [(''term'', j_u64 J (raw_term e)), (''index'', j_u64 J (raw_index e)), (''cmd'', j_str J (raw_command e))]"

definition AppendLogEntry :: "'j json_ops \<Rightarrow> RawLogEntry \<Rightarrow> wal \<Rightarrow> wal option" where
  "AppendLogEntry J e w =
     do { p \<leftarrow> j_dump J (RawLogEntry_json J e); Some (MaybeRotate (WriteRecord RecLogEntry p w)) }"

definition HardState_json :: "'j json_ops \<Rightarrow> HardState \<Rightarrow> 'j" where
  "HardState_json J hs = j_obj J [(''term'', j_u64 J (hs_term hs)), (''voted_for'', j_str J (hs_votedFor hs))]"

definition WriteHardState :: "'j json_ops \<Rightarrow> HardState \<Rightarrow> wal \<Rightarrow> wal option" where
  "WriteHardState J hs w =
     do { p \<leftarrow> j_dump J (HardState_json J hs); Some (WriteRecord RecHardState p w) }"

definition Snapshot_json :: "'j json_ops \<Rightarrow> u64 \<Rightarrow> u64 \<Rightarrow> string \<Rightarrow> 'j" where
  "Snapshot_json J i t d = j_obj J [(''index'', j_u64 J i), (''term'', j_u64 J t), (''data'', j_str J d)]"

definition WriteSnapshot :: "'j json_ops \<Rightarrow> u64 \<Rightarrow> u64 \<Rightarrow> string \<Rightarrow> wal \<Rightarrow> wal option" where
  "WriteSnapshot J i t d w =
     do { p \<leftarrow> j_dump J (Snapshot_json J i t d);
          let w' = WriteRecord RecSnapshot p w;
          Some (OpenOrCreateSegment (w_currentSegment w' + 1) w') }"

text \<open>\<open>Truncate\<close> has an empty body: nothing is ever removed from the segments.\<close>

definition Truncate :: "u64 \<Rightarrow> wal \<Rightarrow> wal" where
  "Truncate afterIndex w = w"

section \<open>Recovery\<close>

text \<open>\<open>while (!entries.empty() && entries.back().index >= e.index) entries.pop_back();\<close>\<close>

definition pop_from :: "u64 \<Rightarrow> RawLogEntry list \<Rightarrow> RawLogEntry list" where
  "pop_from i es = rev (dropWhile (\<lambda>x. i \<le> raw_index x) (rev es))"

definition recover_record :: "'j json_ops \<Rightarrow> RecoveryResult \<Rightarrow> u8 \<Rightarrow> string \<Rightarrow> RecoveryResult option" where
  "recover_record J r typeByte payload =
     do { j \<leftarrow> j_parse J payload;
          if typeByte = 1 then
            do { t \<leftarrow> jget J (j_get_u64 J) j ''term'';
                 i \<leftarrow> jget J (j_get_u64 J) j ''index'';
                 c \<leftarrow> jget J (j_get_str J) j ''cmd'';
                 Some (r\<lparr>rr_entries := pop_from i (rr_entries r) @ [\<lparr>raw_term = t, raw_index = i, raw_command = c\<rparr>]\<rparr>) }
          else if typeByte = 2 then
            do { t \<leftarrow> jget J (j_get_u64 J) j ''term'';
                 v \<leftarrow> jget J (j_get_str J) j ''voted_for'';
                 Some (r\<lparr>rr_hardState := \<lparr>hs_term = t, hs_votedFor = v\<rparr>\<rparr>) }
          else if typeByte = 3 then
            do { i \<leftarrow> jget J (j_get_u64 J) j ''index'';
                 t \<leftarrow> jget J (j_get_u64 J) j ''term'';
                 d \<leftarrow> jget J (j_get_str J) j ''data'';
                 Some (r\<lparr>rr_snapshotIndex := i, rr_snapshotTerm := t, rr_latestSnapshot := Some d, rr_entries := []\<rparr>) }
          else Some r }"

text \<open>
  The reading loop over one segment. A short header or payload and a CRC mismatch end the
  segment; a payload that is not the expected JSON throws. \<open>1 + length\<close> sizes the buffer
  for the CRC in 32-bit arithmetic.
\<close>

function recover_segment :: "'j json_ops \<Rightarrow> RecoveryResult \<Rightarrow> u8 list \<Rightarrow> exn + RecoveryResult" where
  "recover_segment J r bs =
     (if length bs < 9 then Inr r
      else let crc = of_le32 bs; len = of_le32 (drop 4 bs); typeByte = bs ! 8;
               payload = take (unat len) (drop 9 bs); rest = drop (9 + unat len) bs in
        if length bs < 9 + unat len then Inr r
        else if 1 + len = 0 then Inl UndefinedBehaviour
        else if Crc32 (typeByte # payload) \<noteq> crc then Inr r
        else (case recover_record J r typeByte (string_of payload) of
                None \<Rightarrow> Inl JsonError
              | Some r' \<Rightarrow> recover_segment J r' rest))"
  by pat_completeness auto
termination
  by (relation "measure (\<lambda>(J, r, bs). length bs)") auto

declare recover_segment.simps [simp del]

fun recover_segments :: "'j json_ops \<Rightarrow> (string \<times> u8 list) list \<Rightarrow> RecoveryResult \<Rightarrow> u64 list \<Rightarrow> exn + RecoveryResult" where
  "recover_segments J dir r [] = Inr r"
| "recover_segments J dir r (s # ss) =
     bind_exn (recover_segment J r (file_bytes dir s)) (\<lambda>r'. recover_segments J dir r' ss)"

definition Recover :: "'j json_ops \<Rightarrow> wal \<Rightarrow> exn + RecoveryResult" where
  "Recover J w =
     bind_exn (segment_numbers (w_dir w)) (\<lambda>segs. recover_segments J (w_dir w) RecoveryResult_default (sort segs))"


section \<open>The table-driven CRC is the bitwise CRC\<close>

text \<open>The reference: shift the polynomial division through the eight bits of each byte.\<close>

definition crc_byte_bitwise :: "u32 \<Rightarrow> u8 \<Rightarrow> u32" where
  "crc_byte_bitwise crc b = (crc_step ^^ 8) (crc XOR ucast b)"

definition Crc32_bitwise :: "u8 list \<Rightarrow> u32" where
  "Crc32_bitwise bs = foldl crc_byte_bitwise 0xFFFFFFFF bs XOR 0xFFFFFFFF"

lemma and_one_bit: "(w :: u32) AND 1 \<noteq> 0 \<longleftrightarrow> bit w 0"
  by (simp add: and_one_eq bit_0 odd_iff_mod_2_eq_one even_iff_mod_2_eq_zero)

lemma crc_step_eq: "crc_step w = (if bit w 0 then 0xEDB88320 XOR drop_bit 1 w else drop_bit 1 w)"
  by (simp only: crc_step_def and_one_bit)

lemma drop_bit_xor32: "drop_bit n ((a :: u32) XOR b) = drop_bit n a XOR drop_bit n b"
  by (rule bit_word_eqI) (simp add: bit_simps)

lemma crc_step_xor: "crc_step (a XOR b) = crc_step a XOR crc_step b"
  by (simp only: crc_step_eq drop_bit_xor32 bit_xor_iff)
    (simp add: xor.assoc xor.left_commute xor.commute)

lemma crc_steps_xor: "(crc_step ^^ n) (a XOR b) = (crc_step ^^ n) a XOR (crc_step ^^ n) b"
  by (induction n) (simp_all add: crc_step_xor)

lemma crc_steps_shift:
  assumes "\<And>i. i < n \<Longrightarrow> \<not> bit z i"
  shows "(crc_step ^^ n) z = drop_bit n z"
  using assms
proof (induction n)
  case (Suc n)
  then have "(crc_step ^^ n) z = drop_bit n z" by simp
  moreover have "\<not> bit (drop_bit n z) 0" using Suc.prems [of n] by (simp add: bit_drop_bit_eq)
  moreover have "drop_bit 1 (drop_bit n z) = drop_bit (Suc n) z" by (simp only: drop_bit_drop_bit) simp
  ultimately show ?case by (simp only: funpow.simps o_apply crc_step_eq [of "drop_bit n z"] if_False)
qed simp

lemma byte_mask: "(0xFF :: u32) = mask 8"
  by (simp add: mask_eq_exp_minus_1)

lemma low_high: "(w :: u32) = (w AND 0xFF) XOR push_bit 8 (drop_bit 8 w)"
  unfolding byte_mask by (rule bit_word_eqI) (auto simp: bit_simps)

lemma not_bit_push: "i < 8 \<Longrightarrow> \<not> bit (push_bit 8 (v :: u32)) i"
  by (simp add: bit_push_bit_iff)

lemma drop_push: "drop_bit 8 (push_bit 8 (drop_bit 8 (w :: u32))) = drop_bit 8 w"
  by (rule bit_word_eqI) (auto simp: bit_simps dest: bit_imp_le_length)

lemma table_entry:
  assumes "i < 256" shows "BuildCrc32Table ! i = (crc_step ^^ 8) (of_nat i)"
  using assms unfolding BuildCrc32Table_def by (simp del: funpow.simps)

lemma crc8_table: "(crc_step ^^ 8) w = BuildCrc32Table ! unat (w AND 0xFF) XOR drop_bit 8 w"
proof -
  have "unat (w AND 0xFF) \<le> unat (0xFF :: u32)"
    by (rule word_and_le1 [THEN word_le_nat_alt [THEN iffD1]])
  then have lt: "unat (w AND 0xFF) < 256" by simp
  have "(crc_step ^^ 8) w = (crc_step ^^ 8) (w AND 0xFF) XOR (crc_step ^^ 8) (push_bit 8 (drop_bit 8 w))"
    by (subst low_high [of w]) (rule crc_steps_xor)
  also have "(crc_step ^^ 8) (push_bit 8 (drop_bit 8 w)) = drop_bit 8 (push_bit 8 (drop_bit 8 w))"
    by (rule crc_steps_shift) (rule not_bit_push)
  also have "\<dots> = drop_bit 8 w" by (rule drop_push)
  also have "(crc_step ^^ 8) (w AND 0xFF) = BuildCrc32Table ! unat (w AND 0xFF)"
    using table_entry [OF lt] by (simp only: of_nat_unat ucast_id)
  finally show ?thesis .
qed

lemma crc_byte_eq: "crc_byte crc b = crc_byte_bitwise crc b"
proof -
  have "drop_bit 8 (ucast b :: u32) = 0"
    by (rule bit_word_eqI) (auto simp: bit_simps dest: bit_imp_le_length)
  then show ?thesis
    unfolding crc_byte_def crc_byte_bitwise_def crc8_table drop_bit_xor32 by simp
qed

lemma Crc32_eq_bitwise: "Crc32 bs = Crc32_bitwise bs"
  by (simp add: Crc32_def Crc32_bitwise_def crc_byte_eq [abs_def])


section \<open>Error detection\<close>

text \<open>One division step loses nothing: the low bit shifted out is the top bit of the result.\<close>

lemma crc_step_top: "bit (crc_step w) 31 \<longleftrightarrow> bit w 0"
proof -
  have "bit (0xEDB88320 :: u32) 31" by simp
  then show ?thesis
    by (auto simp: crc_step_eq bit_xor_iff bit_drop_bit_eq dest: bit_imp_le_length)
qed

lemma xor_cancel: "(a :: u32) XOR b = a XOR c \<longleftrightarrow> b = c"
  by (metis xor.assoc xor_self_eq xor.left_neutral)

lemma crc_step_inj: "crc_step a = crc_step b \<Longrightarrow> a = b"
proof -
  assume eq: "crc_step a = crc_step b"
  then have b0: "bit a 0 \<longleftrightarrow> bit b 0" using crc_step_top by metis
  with eq have d: "drop_bit 1 a = drop_bit 1 b"
    by (simp only: crc_step_eq xor_cancel split: if_splits) auto
  show "a = b"
  proof (rule bit_word_eqI)
    fix n assume "n < LENGTH(32)"
    show "bit a n \<longleftrightarrow> bit b n"
    proof (cases n)
      case (Suc m)
      then show ?thesis using arg_cong [OF d, of "\<lambda>w. bit w m"] by (simp only: bit_drop_bit_eq) simp
    qed (use b0 in simp)
  qed
qed

lemma crc_steps_inj: "(crc_step ^^ n) a = (crc_step ^^ n) b \<Longrightarrow> a = b"
  by (induction n) (auto dest: crc_step_inj)

lemma crc_byte_inj_state: "crc_byte_bitwise c b = crc_byte_bitwise c' b \<Longrightarrow> c = c'"
  unfolding crc_byte_bitwise_def by (drule crc_steps_inj) (simp only: xor.commute [of _ "ucast b"] xor_cancel)

lemma crc_bytes_inj_state: "foldl crc_byte_bitwise c bs = foldl crc_byte_bitwise c' bs \<Longrightarrow> c = c'"
  by (induction bs arbitrary: c c') (auto dest: crc_byte_inj_state)

text \<open>Four bytes fed one by one act like one 32-bit word fed at once.\<close>

lemma push_byte_drop: "drop_bit 8 (push_bit 8 (w :: u32)) = w" if "\<And>i. 24 \<le> i \<Longrightarrow> \<not> bit w i"
proof (rule bit_word_eqI)
  fix n assume "n < LENGTH(32)"
  then show "bit (drop_bit 8 (push_bit 8 w)) n \<longleftrightarrow> bit w n"
    using that [of n] by (cases "24 \<le> n") (auto simp: bit_simps)
qed

lemma crc8_push:
  assumes "\<And>i. 24 \<le> i \<Longrightarrow> \<not> bit (v :: u32) i"
  shows "(crc_step ^^ 8) x XOR v = (crc_step ^^ 8) (x XOR push_bit 8 v)"
proof -
  have "(crc_step ^^ 8) (push_bit 8 v) = drop_bit 8 (push_bit 8 v)"
    by (rule crc_steps_shift) (rule not_bit_push)
  also have "\<dots> = v" by (rule push_byte_drop [OF assms])
  finally show ?thesis by (simp only: crc_steps_xor)
qed

fun le_word :: "u8 list \<Rightarrow> u32" where
  "le_word [] = 0"
| "le_word (b # bs) = ucast b XOR push_bit 8 (le_word bs)"

lemma bit_le_word: "bit (le_word bs) i \<Longrightarrow> i < 8 * length bs"
proof (induction bs arbitrary: i)
  case (Cons b bs)
  then show ?case
    using Cons.IH [of "i - 8"]
    by (fastforce simp: bit_xor_iff bit_push_bit_iff bit_unsigned_iff dest: bit_imp_le_length)
qed simp

lemma crc_word:
  "length bs \<le> 4 \<Longrightarrow> foldl crc_byte_bitwise c bs = (crc_step ^^ (8 * length bs)) (c XOR le_word bs)"
proof (induction bs arbitrary: c)
  case (Cons b bs)
  have hi: "\<And>i. 24 \<le> i \<Longrightarrow> \<not> bit (le_word bs) i"
    using Cons.prems bit_le_word [of bs] by fastforce
  have "foldl crc_byte_bitwise c (b # bs) = (crc_step ^^ (8 * length bs)) (crc_byte_bitwise c b XOR le_word bs)"
    using Cons by simp
  also have "crc_byte_bitwise c b XOR le_word bs = (crc_step ^^ 8) (c XOR le_word (b # bs))"
    using crc8_push [OF hi, of "c XOR ucast b"] by (simp only: crc_byte_bitwise_def le_word.simps xor.assoc)
  finally show ?case by (simp only: funpow_add [THEN fun_cong, symmetric, unfolded o_apply] length_Cons)
      (simp add: add.commute)
qed simp

lemma le_word_inj: "length bs = length bs' \<Longrightarrow> length bs \<le> 4 \<Longrightarrow> le_word bs = le_word bs' \<Longrightarrow> bs = bs'"
proof (induction bs bs' rule: list_induct2)
  case (Cons b bs b' bs')
  have hi: "\<not> bit (le_word bs) i" "\<not> bit (le_word bs') i" if "24 \<le> i" for i
    using that Cons.prems(1) Cons.hyps bit_le_word [of bs i] bit_le_word [of bs' i] by auto
  have eq: "bit (le_word (b # bs)) i = bit (le_word (b' # bs')) i" for i
    using Cons.prems(2) by simp
  have "b = b'"
  proof (rule bit_word_eqI)
    fix n assume "n < LENGTH(8)"
    then show "bit b n \<longleftrightarrow> bit b' n"
      using eq [of n] by (simp add: bit_xor_iff bit_push_bit_iff bit_unsigned_iff)
  qed
  moreover have "le_word bs = le_word bs'"
  proof -
    have "push_bit 8 (le_word bs) = push_bit 8 (le_word bs')"
      using Cons.prems(2) \<open>b = b'\<close> by (simp only: le_word.simps xor_cancel)
    then show ?thesis using push_byte_drop [OF hi(1)] push_byte_drop [OF hi(2)] by metis
  qed
  ultimately show ?case using Cons by simp
qed simp

text \<open>No change confined to four consecutive bytes keeps the checksum.\<close>

lemma Crc32_burst:
  assumes "length bs = length bs'" "length bs \<le> 4" "Crc32 (xs @ bs @ ys) = Crc32 (xs @ bs' @ ys)"
  shows "bs = bs'"
proof -
  let ?c = "foldl crc_byte_bitwise 0xFFFFFFFF xs"
  have "foldl crc_byte_bitwise (foldl crc_byte_bitwise ?c bs) ys XOR 0xFFFFFFFF =
      foldl crc_byte_bitwise (foldl crc_byte_bitwise ?c bs') ys XOR (0xFFFFFFFF :: u32)"
    using assms(3) by (simp add: Crc32_eq_bitwise Crc32_bitwise_def)
  then have "foldl crc_byte_bitwise (foldl crc_byte_bitwise ?c bs) ys =
      foldl crc_byte_bitwise (foldl crc_byte_bitwise ?c bs') ys"
    by (simp only: xor.commute [of _ "0xFFFFFFFF"] xor_cancel)
  then have "foldl crc_byte_bitwise ?c bs = foldl crc_byte_bitwise ?c bs'"
    by (rule crc_bytes_inj_state)
  then have "?c XOR le_word bs = ?c XOR le_word bs'"
    using assms(1,2) by (simp only: crc_word) (rule crc_steps_inj)
  then have "le_word bs = le_word bs'"
    by (simp only: xor_cancel)
  then show ?thesis using assms(1,2) by (intro le_word_inj)
qed

lemma crc_steps_8: "(crc_step ^^ 8) w = crc_step (crc_step (crc_step (crc_step (crc_step (crc_step (crc_step (crc_step w)))))))"
  by (simp add: eval_nat_numeral)

lemma crc_step_numeral:
  "crc_step (numeral n) = (if even (numeral n :: u32) then drop_bit 1 (numeral n) else 0xEDB88320 XOR drop_bit 1 (numeral n))"
  by (simp only: crc_step_eq bit_0) simp

lemma Crc32_check_value: "Crc32 (bytes_of ''123456789'') = 0xCBF43926"
  by (simp add: Crc32_eq_bitwise Crc32_bitwise_def crc_byte_bitwise_def bytes_of_def byte_of_def crc_steps_8 crc_step_numeral)

section \<open>Records and their replay\<close>

text \<open>What a record says, and what recovery does with it.\<close>

datatype WalRecord = WEntry RawLogEntry | WHard HardState | WSnap u64 u64 string

fun wal_type :: "WalRecord \<Rightarrow> RecordType" where
  "wal_type (WEntry _) = RecLogEntry"
| "wal_type (WHard _) = RecHardState"
| "wal_type (WSnap _ _ _) = RecSnapshot"

fun wal_json :: "'j json_ops \<Rightarrow> WalRecord \<Rightarrow> 'j" where
  "wal_json J (WEntry e) = RawLogEntry_json J e"
| "wal_json J (WHard hs) = HardState_json J hs"
| "wal_json J (WSnap i t d) = Snapshot_json J i t d"

fun wal_utf8 :: "WalRecord \<Rightarrow> bool" where
  "wal_utf8 (WEntry e) = utf8_valid (raw_command e)"
| "wal_utf8 (WHard hs) = utf8_valid (hs_votedFor hs)"
| "wal_utf8 (WSnap i t d) = utf8_valid d"

fun wal_write :: "'j json_ops \<Rightarrow> WalRecord \<Rightarrow> wal \<Rightarrow> wal option" where
  "wal_write J (WEntry e) w = AppendLogEntry J e w"
| "wal_write J (WHard hs) w = WriteHardState J hs w"
| "wal_write J (WSnap i t d) w = WriteSnapshot J i t d w"

fun replay :: "RecoveryResult \<Rightarrow> WalRecord \<Rightarrow> RecoveryResult" where
  "replay r (WEntry e) = r\<lparr>rr_entries := pop_from (raw_index e) (rr_entries r) @ [e]\<rparr>"
| "replay r (WHard hs) = r\<lparr>rr_hardState := hs\<rparr>"
| "replay r (WSnap i t d) =
     r\<lparr>rr_snapshotIndex := i, rr_snapshotTerm := t, rr_latestSnapshot := Some d, rr_entries := []\<rparr>"

definition replay_all :: "WalRecord list \<Rightarrow> RecoveryResult" where
  "replay_all rs = foldl replay RecoveryResult_default rs"

definition payload_of :: "'j json_ops \<Rightarrow> WalRecord \<Rightarrow> string" where
  "payload_of J r = (case j_dump J (wal_json J r) of Some p \<Rightarrow> p | None \<Rightarrow> [])"

text \<open>A record recovery can read back: UTF-8 strings and a payload whose length fits its field.\<close>

definition rec_ok :: "'j json_ops \<Rightarrow> WalRecord \<Rightarrow> bool" where
  "rec_ok J r \<longleftrightarrow> wal_utf8 r \<and> length (payload_of J r) < 4294967295"

definition rec_bytes :: "'j json_ops \<Rightarrow> WalRecord \<Rightarrow> u8 list" where
  "rec_bytes J r = record_bytes (RecordType_value (wal_type r)) (payload_of J r)"

lemma length_record_bytes [simp]: "length (record_bytes t p) = 9 + length p"
  by (simp add: record_bytes_def)

lemma record_header:
  "of_le32 (le32 c @ le32 l @ t # r) = c" "of_le32 (drop 4 (le32 c @ le32 l @ t # r)) = l"
  "(le32 c @ le32 l @ t # r) ! 8 = t" "drop (9 + n) (le32 c @ le32 l @ t # r) = drop n r"
  "drop 9 (le32 c @ le32 l @ t # r) = r" "length (le32 c @ le32 l @ t # r) = 9 + length r"
  by (simp_all add: nth_append)

lemma recover_segment_header:
  "recover_segment J rr (le32 c @ le32 l @ t # r) =
     (if length r < unat l then Inr rr
      else if 1 + l = 0 then Inl UndefinedBehaviour
      else if Crc32 (t # take (unat l) r) \<noteq> c then Inr rr
      else (case recover_record J rr t (string_of (take (unat l) r)) of
              None \<Rightarrow> Inl JsonError
            | Some rr' \<Rightarrow> recover_segment J rr' (drop (unat l) r)))"
  by (subst recover_segment.simps) (simp only: record_header Let_def, simp)

lemma payload_len_word:
  assumes "n < 4294967295"
  shows "unat (of_nat n :: u32) = n" "1 + (of_nat n :: u32) \<noteq> 0"
proof -
  show n: "unat (of_nat n :: u32) = n" using assms by (simp add: unat_of_nat)
  have "unat (1 + of_nat n :: u32) = 1 + n"
    using assms n by (simp add: unat_word_ariths)
  then show "1 + (of_nat n :: u32) \<noteq> 0" by (metis add_eq_0_iff_both_eq_0 unat_0 zero_neq_one)
qed

lemma recover_segment_record:
  assumes "length p < 4294967295" "recover_record J rr t p = Some rr'"
  shows "recover_segment J rr (record_bytes t p @ bs) = recover_segment J rr' bs"
  using assms payload_len_word [OF assms(1)]
  by (simp add: record_bytes_def recover_segment_header [simplified])

text \<open>A record cut short at the end of a segment, wherever the cut is, is dropped.\<close>

lemma recover_segment_torn:
  assumes "length p < 4294967295" "n < length (record_bytes t p)"
  shows "recover_segment J rr (take n (record_bytes t p)) = Inr rr"
proof (cases "n < 9")
  case True
  then show ?thesis by (subst recover_segment.simps) simp
next
  case False
  then obtain m where n: "n = m + 9" by (metis add.commute le_Suc_ex not_less)
  have "take n (record_bytes t p) = le32 (Crc32 (t # bytes_of p)) @ le32 (of_nat (length p)) @ t # take m (bytes_of p)"
    by (simp add: record_bytes_def n take_Cons')
  then show ?thesis
    using assms n payload_len_word [OF assms(1)] by (simp only: recover_segment_header) simp
qed

text \<open>A record in which up to four consecutive bytes of type and payload changed ends the segment.\<close>

lemma recover_segment_corrupt:
  assumes "length p < 4294967295" "t # bytes_of p = xs @ bs @ ys" "t' # p' = xs @ bs' @ ys"
    "length bs = length bs'" "length bs \<le> 4" "bs \<noteq> bs'"
  shows "recover_segment J rr (take 8 (record_bytes t p) @ t' # p' @ rest) = Inr rr"
proof -
  have "length (t' # p') = length (t # bytes_of p)" using assms(2-4) by simp
  then have len: "length p' = length p" by simp
  have "Crc32 (t # bytes_of p) \<noteq> Crc32 (t' # p')"
    unfolding assms(2,3) using Crc32_burst [of bs bs' xs ys] assms(4-6) by blast
  moreover have "take 8 (record_bytes t p) = le32 (Crc32 (t # bytes_of p)) @ le32 (of_nat (length p))"
    by (simp add: record_bytes_def)
  ultimately show ?thesis
    using len payload_len_word [OF assms(1)] by (simp add: recover_segment_header [simplified])
qed

context json_lib
begin

lemma wal_json_built: "wal_utf8 r \<Longrightarrow> built J (wal_json J r)"
  by (cases r) (auto simp: RawLogEntry_json_def HardState_json_def Snapshot_json_def intro!: built_intros)

lemma payload_dump:
  assumes "wal_utf8 r"
  shows "j_dump J (wal_json J r) = Some (payload_of J r)" "j_parse J (payload_of J r) = Some (wal_json J r)"
  using dump_parse [OF wal_json_built [OF assms]] by (auto simp: payload_of_def)

lemma recover_record_replay:
  assumes "wal_utf8 r"
  shows "recover_record J rr (RecordType_value (wal_type r)) (payload_of J r) = Some (replay rr r)"
proof -
  note p = payload_dump(2) [OF assms]
  show ?thesis
  proof (cases r)
    case (WEntry e)
    then show ?thesis using p by (simp add: recover_record_def RawLogEntry_json_def json_simps)
  next
    case (WHard hs)
    then show ?thesis using p by (simp add: recover_record_def HardState_json_def json_simps)
  next
    case (WSnap i t d)
    then show ?thesis using p by (simp add: recover_record_def Snapshot_json_def json_simps)
  qed
qed

lemma recover_segment_rec_bytes:
  "rec_ok J r \<Longrightarrow> recover_segment J rr (rec_bytes J r @ bs) = recover_segment J (replay rr r) bs"
  unfolding rec_bytes_def rec_ok_def by (intro recover_segment_record recover_record_replay) auto

lemma recover_segment_records:
  "list_all (rec_ok J) rs \<Longrightarrow>
     recover_segment J rr (concat (map (rec_bytes J) rs) @ bs) = recover_segment J (foldl replay rr rs) bs"
  by (induction rs arbitrary: rr) (simp_all add: recover_segment_rec_bytes)

end

lemma recover_segment_Nil [simp]: "recover_segment J rr [] = Inr rr"
  by (subst recover_segment.simps) simp

section \<open>Segment files\<close>

lemma digits_value_Cons: "digits_value (CHR ''0'' # s) = digits_value s"
  by (simp add: digits_value_def digit_value_def)

lemma digits_value_zeros: "digits_value (replicate n (CHR ''0'') @ s) = digits_value s"
  by (induction n) (simp_all add: digits_value_Cons)

lemma segment_number_path: "segment_number (SegmentPath s) = Inr s"
proof -
  let ?ds = "to_string (unat s)"
  let ?ns = "replicate (16 - length ?ds) (CHR ''0'') @ ?ds"
  have sub: "substr (SegmentPath s) 4 (length (SegmentPath s) - 8) = ?ns"
    by (simp add: SegmentPath_def Let_def substr_def)
  have d: "list_all is_digit ?ns" "?ns \<noteq> []" "digits_value ?ns = unat s"
    using to_string_digits [of "unat s"] by (auto simp: digits_value_zeros list_all_iff is_digit_def)
  have "unat s < 2 ^ 64" using unsigned_less [of s] by simp
  with d stoull_digits [of ?ns "[]"] show ?thesis by (simp add: segment_number_def sub)
qed

lemma is_segment_name_path: "is_segment_name (SegmentPath s)"
  by (simp add: is_segment_name_def SegmentPath_def Let_def suffix_def)

lemma SegmentPath_inj: "SegmentPath s = SegmentPath t \<longleftrightarrow> s = t"
  using segment_number_path by (metis sum.inject(2))

lemma segment_numbers_paths:
  "segment_numbers dir = Inr ss \<longleftrightarrow> map fst dir = map SegmentPath ss" if "\<forall>n \<in> fst ` set dir. n \<in> range SegmentPath"
  using that
proof (induction dir arbitrary: ss)
  case (Cons f dir)
  obtain name bs where f: "f = (name, bs)" by (cases f)
  with Cons.prems obtain s where s: "name = SegmentPath s" by auto
  show ?case
    using Cons f s by (auto simp: is_segment_name_path segment_number_path bind_exn_Inr Cons_eq_map_conv SegmentPath_inj)
qed auto

text \<open>
  The segments \<open>0, \<dots>, n\<close> exist, the last one is open, and segment \<open>i\<close> holds the records
  \<open>segs ! i\<close>; every segment but the first was opened after a record was written.
\<close>

definition wal_repr :: "'j json_ops \<Rightarrow> wal \<Rightarrow> WalRecord list list \<Rightarrow> bool" where
  "wal_repr J w segs \<longleftrightarrow>
     segs \<noteq> [] \<and> length segs \<le> 2 ^ 64 \<and> length segs \<le> length (concat segs) + 1 \<and>
     w_currentSegment w = of_nat (length segs - 1) \<and>
     distinct (map fst (w_dir w)) \<and> fst ` set (w_dir w) = SegmentPath ` of_nat ` {0..<length segs} \<and>
     (\<forall>i < length segs. file_bytes (w_dir w) (of_nat i) = concat (map (rec_bytes J) (segs ! i))) \<and>
     list_all (rec_ok J) (concat segs) \<and>
     w_currentOffset w = length (file_bytes (w_dir w) (w_currentSegment w))"

definition wal_holds :: "'j json_ops \<Rightarrow> wal \<Rightarrow> WalRecord list \<Rightarrow> bool" where
  "wal_holds J w rs \<longleftrightarrow> (\<exists>segs. wal_repr J w segs \<and> concat segs = rs)"

lemma sort_segments:
  assumes "distinct ss" "set ss = of_nat ` {0..<n}" "n \<le> 2 ^ 64"
  shows "sort ss = map (of_nat :: nat \<Rightarrow> u64) [0..<n]"
proof (rule sorted_distinct_set_unique)
  have "sorted_wrt (\<lambda>i j. (of_nat i :: u64) \<le> of_nat j) [0..<n]"
    using assms(3) by (intro sorted_wrt_mono_rel [OF _ sorted_wrt_upt])
      (auto simp: word_le_nat_alt unat_of_nat64)
  then show "sorted (map (of_nat :: nat \<Rightarrow> u64) [0..<n])" by (simp add: sorted_wrt_map)
  show "distinct (map (of_nat :: nat \<Rightarrow> u64) [0..<n])"
    using assms(3) of_nat_inj64 by (auto simp: distinct_map inj_on_def)
qed (use assms in auto)

lemma wal_repr_segments:
  assumes "wal_repr J w segs"
  obtains ss where "segment_numbers (w_dir w) = Inr ss" "sort ss = map of_nat [0..<length segs]"
    "set ss = of_nat ` {0..<length segs}"
proof -
  have paths: "\<forall>n \<in> fst ` set (w_dir w). n \<in> range SegmentPath"
    using assms by (auto simp: wal_repr_def)
  then have "set (map fst (w_dir w)) \<subseteq> range SegmentPath" by auto
  then obtain ss where ss: "map fst (w_dir w) = map SegmentPath ss"
    by (metis ex_map_conv image_iff list.set_map subset_iff)
  have d: "distinct ss" using assms ss by (metis distinct_map wal_repr_def)
  have "SegmentPath ` set ss = SegmentPath ` of_nat ` {0..<length segs}"
    using assms ss by (metis list.set_map wal_repr_def)
  then have "set ss = of_nat ` {0..<length segs}"
    by (subst (asm) inj_image_eq_iff) (auto simp: inj_def SegmentPath_inj)
  with d ss show ?thesis
    using that [of ss] assms segment_numbers_paths [OF paths] sort_segments by (auto simp: wal_repr_def)
qed

context json_lib
begin

lemma recover_segments_records:
  assumes "\<forall>s \<in> set ss. file_bytes dir s = concat (map (rec_bytes J) (f s)) \<and> list_all (rec_ok J) (f s)"
  shows "recover_segments J dir rr ss = Inr (foldl replay rr (concat (map f ss)))"
  using assms
proof (induction ss arbitrary: rr)
  case (Cons s ss)
  then show ?case using recover_segment_records [of "f s" rr "[]"] by simp
qed simp

lemma Recover_repr:
  assumes "wal_repr J w segs"
  shows "Recover J w = Inr (replay_all (concat segs))"
proof -
  obtain ss where ss: "segment_numbers (w_dir w) = Inr ss" "sort ss = map of_nat [0..<length segs]"
    using assms by (rule wal_repr_segments)
  have len: "length segs \<le> 2 ^ 64" using assms by (simp add: wal_repr_def)
  let ?f = "\<lambda>s :: u64. segs ! unat s"
  have "map ?f (map of_nat [0..<length segs]) = segs"
    using len by (intro nth_equalityI) (auto simp: unat_of_nat64)
  moreover have "\<forall>s \<in> set (sort ss). file_bytes (w_dir w) s = concat (map (rec_bytes J) (?f s)) \<and> list_all (rec_ok J) (?f s)"
    using assms len unfolding ss(2) by (auto simp: wal_repr_def unat_of_nat64 list_all_iff)
  ultimately show ?thesis
    using recover_segments_records [of "sort ss" "w_dir w" ?f] ss
    by (simp add: Recover_def replay_all_def)
qed

end


section \<open>Writing extends what the log holds\<close>

lemma file_bytes_update:
  "file_bytes (AList.update (SegmentPath c) bs dir) s = (if s = c then bs else file_bytes dir s)"
  by (simp add: file_bytes_def update_conv SegmentPath_inj)

lemma file_bytes_snoc:
  "SegmentPath c \<notin> fst ` set dir \<Longrightarrow> file_bytes (dir @ [(SegmentPath c, [])]) s = file_bytes dir s"
  by (cases "map_of dir (SegmentPath s)")
    (auto simp: file_bytes_def map_add_def SegmentPath_inj dest: map_of_SomeD intro: rev_image_eqI split: option.splits)

lemma concat_update_last: "segs \<noteq> [] \<Longrightarrow> concat (segs[length segs - 1 := last segs @ [r]]) = concat segs @ [r]"
  by (cases segs rule: rev_cases) auto

lemma WriteRecord_repr:
  assumes "wal_repr J w segs" "rec_ok J r"
  shows "wal_repr J (WriteRecord (wal_type r) (payload_of J r) w) (segs[length segs - 1 := last segs @ [r]])"
    (is "wal_repr J ?w ?segs")
proof -
  let ?n = "length segs - 1"
  have segs: "segs \<noteq> []" "length segs \<le> 2 ^ 64" "w_currentSegment w = of_nat ?n"
    using assms(1) by (auto simp: wal_repr_def)
  then have n: "?n < length segs" by simp
  note concat = concat_update_last [OF segs(1), of r]
  have key: "SegmentPath (of_nat ?n) \<in> set (map fst (w_dir w))"
    using assms(1) n by (auto simp: wal_repr_def)
  have ofn: "(of_nat i :: u64) = of_nat ?n \<longleftrightarrow> i = ?n" if "i < length segs" for i
    using that n segs(2) by (intro of_nat_inj64) auto
  have files: "file_bytes (w_dir ?w) (of_nat i) = concat (map (rec_bytes J) (?segs ! i))"
    if "i < length segs" for i
    using assms(1) that ofn [OF that] n segs
    by (auto simp: WriteRecord_def Let_def file_bytes_update wal_repr_def rec_bytes_def last_conv_nth)
  show ?thesis
    unfolding wal_repr_def
  proof (intro conjI allI impI)
    show "length ?segs \<le> length (concat ?segs) + 1"
      unfolding concat using assms(1) by (simp add: wal_repr_def)
    show "distinct (map fst (w_dir ?w))" "fst ` set (w_dir ?w) = SegmentPath ` of_nat ` {0..<length ?segs}"
      using assms(1) key segs(3) update_keys [of "SegmentPath (of_nat ?n)" _ "w_dir w"]
      by (auto simp: WriteRecord_def Let_def wal_repr_def simp flip: set_map)
    show "list_all (rec_ok J) (concat ?segs)"
      unfolding concat using assms by (simp add: wal_repr_def)
    show "w_currentOffset ?w = length (file_bytes (w_dir ?w) (w_currentSegment ?w))"
      using assms(1) by (simp add: WriteRecord_def Let_def file_bytes_update wal_repr_def)
  qed (use segs files in \<open>simp_all add: WriteRecord_def Let_def\<close>)
qed

lemma Open_next_repr:
  assumes "wal_repr J w segs" "length segs < 2 ^ 64" "length segs \<le> length (concat segs)"
  shows "wal_repr J (OpenOrCreateSegment (w_currentSegment w + 1) w) (segs @ [[]])"
proof -
  let ?n = "length segs"
  have segs: "segs \<noteq> []" "w_currentSegment w = of_nat (?n - 1)" "fst ` set (w_dir w) = SegmentPath ` of_nat ` {0..<?n}"
    using assms(1) by (auto simp: wal_repr_def)
  have next_seg: "w_currentSegment w + 1 = of_nat ?n"
    using segs(1,2) by (cases segs) auto
  have new: "SegmentPath (of_nat ?n) \<notin> fst ` set (w_dir w)"
    using assms(2) of_nat_inj64 unfolding segs(3) by (auto simp: SegmentPath_inj)
  then have dir: "map_of (w_dir w) (SegmentPath (of_nat ?n)) = None" by (simp add: map_of_eq_None_iff)
  have files: "file_bytes (w_dir w @ [(SegmentPath (of_nat ?n), [])]) s = file_bytes (w_dir w) s" for s
    by (rule file_bytes_snoc [OF new])
  have empty: "file_bytes (w_dir w) (of_nat ?n) = []" by (simp add: file_bytes_def dir)
  show ?thesis
    using assms segs(1,3) new unfolding next_seg
    by (auto simp: wal_repr_def OpenOrCreateSegment_def Let_def dir files empty nth_append less_Suc_eq
        atLeast0_lessThan_Suc)
qed


lemma wal_holds_WriteRecord:
  assumes "wal_repr J w segs" "rec_ok J r"
  obtains segs' where "wal_repr J (WriteRecord (wal_type r) (payload_of J r) w) segs'"
    "concat segs' = concat segs @ [r]" "length segs' = length segs" "length segs' \<le> length (concat segs')"
proof
  have ne: "segs \<noteq> []" "length segs \<le> length (concat segs) + 1" using assms(1) by (auto simp: wal_repr_def)
  show "wal_repr J (WriteRecord (wal_type r) (payload_of J r) w) (segs[length segs - 1 := last segs @ [r]])"
    using assms by (rule WriteRecord_repr)
  show "concat (segs[length segs - 1 := last segs @ [r]]) = concat segs @ [r]"
    by (rule concat_update_last [OF ne(1)])
  then show "length (segs[length segs - 1 := last segs @ [r]]) \<le> length (concat (segs[length segs - 1 := last segs @ [r]]))"
    using ne(2) by simp
qed simp

text \<open>Room for a number of further records: even with one segment each the segment number does not wrap.\<close>

definition wal_room :: "nat \<Rightarrow> wal \<Rightarrow> bool" where
  "wal_room n w \<longleftrightarrow> unat (w_currentSegment w) + n < 2 ^ 64"

lemma wal_room_length:
  assumes "wal_holds J w rs" "length rs + n < 2 ^ 64" shows "wal_room n w"
proof -
  obtain segs where segs: "wal_repr J w segs" "concat segs = rs" using assms(1) by (auto simp: wal_holds_def)
  then have "length segs - 1 \<le> length rs" "w_currentSegment w = of_nat (length segs - 1)"
    by (auto simp: wal_repr_def)
  then show ?thesis using assms(2) by (simp add: wal_room_def unat_of_nat64)
qed

lemma wal_room_mono: "wal_room n w \<Longrightarrow> m \<le> n \<Longrightarrow> wal_room m w"
  by (simp add: wal_room_def)

context json_lib
begin

lemma wal_write_holds:
  assumes "wal_holds J w rs" "rec_ok J r" "wal_room (Suc n) w"
  shows "\<exists>w'. wal_write J r w = Some w' \<and> wal_holds J w' (rs @ [r]) \<and> wal_room n w'"
proof -
  obtain segs where segs: "wal_repr J w segs" "concat segs = rs" using assms(1) by (auto simp: wal_holds_def)
  let ?w = "WriteRecord (wal_type r) (payload_of J r) w"
  let ?v = "OpenOrCreateSegment (w_currentSegment ?w + 1) ?w"
  from segs(1) assms(2) obtain segs' where w': "wal_repr J ?w segs'" "concat segs' = concat segs @ [r]"
      "length segs' = length segs" "length segs' \<le> length (concat segs')"
    by (rule wal_holds_WriteRecord)
  have cur: "w_currentSegment ?w = w_currentSegment w" by (simp add: WriteRecord_def Let_def)
  have segs_len: "segs \<noteq> []" "w_currentSegment w = of_nat (length segs - 1)" "length segs \<le> 2 ^ 64"
    using segs(1) by (auto simp: wal_repr_def)
  then have u: "unat (w_currentSegment w) = length segs - 1" using segs_len
    by (cases segs) (auto simp: unat_of_nat64)
  have "length segs' < 2 ^ 64" using w'(3) assms(3) u segs_len(1) by (cases segs) (auto simp: wal_room_def)
  then have opened: "wal_repr J ?v (segs' @ [[]])"
    using w' by (intro Open_next_repr) auto
  have "unat (w_currentSegment w + 1) \<le> unat (w_currentSegment w) + 1"
    by (simp add: unat_word_ariths)
  then have room: "wal_room n ?w" "wal_room n ?v"
    using assms(3) by (simp_all add: wal_room_def cur OpenOrCreateSegment_def Let_def)
  have d: "j_dump J (wal_json J r) = Some (payload_of J r)"
    using assms(2) by (intro payload_dump) (simp add: rec_ok_def)
  have held: "wal_holds J ?w (rs @ [r])" "wal_holds J ?v (rs @ [r])"
    using w' opened segs(2) by (auto simp: wal_holds_def intro: exI [of _ "segs' @ [[]]"])
  show ?thesis
    using d held room
    by (cases r) (auto simp: AppendLogEntry_def MaybeRotate_def WriteHardState_def WriteSnapshot_def Let_def)
qed

lemma Recover_holds: "wal_holds J w rs \<Longrightarrow> Recover J w = Inr (replay_all rs)"
  by (auto simp: wal_holds_def Recover_repr)

end

lemma foldl_max:
  fixes a :: u64
  shows "foldl max a xs \<in> insert a (set xs) \<and> (\<forall>x \<in> insert a (set xs). x \<le> foldl max a xs)"
proof (induction xs arbitrary: a)
  case (Cons x xs)
  from Cons [of "max a x"] show ?case by (auto simp: max_def split: if_splits)
qed simp

lemma foldl_max_segments:
  assumes "set ss = of_nat ` {0..<n}" "0 < n" "n \<le> 2 ^ 64"
  shows "foldl max 0 ss = (of_nat (n - 1) :: u64)"
proof -
  obtain m where n: "n = Suc m" using assms(2) by (cases n) auto
  have "foldl max 0 ss = (of_nat m :: u64)"
  proof (rule antisym)
    show "foldl max 0 ss \<le> (of_nat m :: u64)"
      using foldl_max [of 0 ss] assms n by (auto simp: word_le_nat_alt unat_of_nat64)
    show "(of_nat m :: u64) \<le> foldl max 0 ss"
      using foldl_max [of 0 ss] assms n by auto
  qed
  then show ?thesis by (simp add: n)
qed

text \<open>Reopening the directory finds the last segment again.\<close>

lemma WriteAheadLog_new_holds:
  assumes "wal_holds J w rs"
  shows "\<exists>w'. WriteAheadLog_new (w_dir w) m = Inr w' \<and> wal_holds J w' rs \<and> w_dir w' = w_dir w"
proof -
  obtain segs where segs: "wal_repr J w segs" "concat segs = rs" using assms by (auto simp: wal_holds_def)
  obtain ss where ss: "segment_numbers (w_dir w) = Inr ss" "set ss = of_nat ` {0..<length segs}"
    using segs(1) by (rule wal_repr_segments)
  have n: "0 < length segs" "length segs \<le> 2 ^ 64" "w_currentSegment w = of_nat (length segs - 1)"
    using segs(1) by (auto simp: wal_repr_def)
  have high: "foldl max 0 ss = of_nat (length segs - 1)"
    by (rule foldl_max_segments [OF ss(2) n(1,2)])
  have "SegmentPath (of_nat (length segs - 1)) \<in> fst ` set (w_dir w)"
    using segs(1) n(1) by (auto simp: wal_repr_def)
  then obtain bs where "map_of (w_dir w) (SegmentPath (of_nat (length segs - 1))) = Some bs"
    by (metis domIff dom_map_of_conv_image_fst not_None_eq)
  then show ?thesis
    using segs n(3) by (auto simp: WriteAheadLog_new_def ss(1) high OpenOrCreateSegment_def Let_def wal_holds_def wal_repr_def)
qed

lemma WriteAheadLog_new_empty: "\<exists>w. WriteAheadLog_new [] m = Inr w \<and> wal_holds J w []"
proof -
  have "wal_repr J \<lparr>w_dir = [(SegmentPath 0, [])], w_maxSegmentBytes = m, w_currentSegment = 0, w_currentOffset = 0\<rparr> [[]]"
    by (simp add: wal_repr_def file_bytes_def)
  then show ?thesis
    by (auto simp: WriteAheadLog_new_def OpenOrCreateSegment_def Let_def file_bytes_def wal_holds_def intro: exI [of _ "[[]]"])
qed

section \<open>The contract of the log\<close>

text \<open>
  What the Raft node relies on: each write adds one record to what the log holds, and
  recovery replays the records in the order they were written.
\<close>

locale durable_log =
  fixes holds :: "'w \<Rightarrow> WalRecord list \<Rightarrow> bool"
    and room :: "nat \<Rightarrow> 'w \<Rightarrow> bool"
    and ok :: "WalRecord \<Rightarrow> bool"
    and put :: "WalRecord \<Rightarrow> 'w \<Rightarrow> 'w option"
    and recover :: "'w \<Rightarrow> exn + RecoveryResult"
  assumes put_holds: "holds w rs \<Longrightarrow> ok r \<Longrightarrow> room (Suc n) w \<Longrightarrow>
      \<exists>w'. put r w = Some w' \<and> holds w' (rs @ [r]) \<and> room n w'"
    and recover_holds: "holds w rs \<Longrightarrow> recover w = Inr (replay_all rs)"
    and room_length: "holds w rs \<Longrightarrow> length rs + n < 2 ^ 64 \<Longrightarrow> room n w"
begin

lemma recover_put:
  "holds w rs \<Longrightarrow> ok r \<Longrightarrow> room 1 w \<Longrightarrow>
     \<exists>w'. put r w = Some w' \<and> recover w' = Inr (replay (replay_all rs) r)"
  using put_holds [of w rs r 0] recover_holds by (fastforce simp: replay_all_def)

end

fun wal_write_all :: "'j json_ops \<Rightarrow> WalRecord list \<Rightarrow> wal \<Rightarrow> wal option" where
  "wal_write_all J [] w = Some w"
| "wal_write_all J (r # rs) w = Option.bind (wal_write J r w) (wal_write_all J rs)"

sublocale json_lib \<subseteq> wl: durable_log "wal_holds J" wal_room "rec_ok J" "wal_write J" "Recover J"
  by unfold_locales (auto intro: wal_write_holds Recover_holds wal_room_length)

context json_lib
begin

lemma wal_write_all_holds:
  "wal_holds J w rs \<Longrightarrow> list_all (rec_ok J) rs' \<Longrightarrow> wal_room (length rs' + n) w \<Longrightarrow>
     \<exists>w'. wal_write_all J rs' w = Some w' \<and> wal_holds J w' (rs @ rs') \<and> wal_room n w'"
proof (induction rs' arbitrary: w rs)
  case (Cons r rs')
  then obtain w1 where w1: "wal_write J r w = Some w1" "wal_holds J w1 (rs @ [r])" "wal_room (length rs' + n) w1"
    using wl.put_holds [of w rs r "length rs' + n"] by auto
  with Cons.IH [of w1 "rs @ [r]"] Cons.prems show ?case by auto
qed simp

end

section \<open>The size of records\<close>

text \<open>Enough for a record to fit its 32-bit length field.\<close>

context json_sized
begin

lemma payload_size: "length (payload_of J r) = dsize J (wal_json J r)"
  by (simp add: payload_of_def dsize_def split: option.splits)

lemma rec_ok_hard: "utf8_valid v \<Longrightarrow> length v < 2 ^ 28 \<Longrightarrow> rec_ok J (WHard \<lparr>hs_term = t, hs_votedFor = v\<rparr>)"
  using dsize_obj [of "[(''term'', j_u64 J t), (''voted_for'', j_str J v)]"] dsize_u64 [of t] dsize_str [of v]
  by (simp add: rec_ok_def payload_size HardState_json_def)

lemma rec_ok_entry: "utf8_valid (raw_command e) \<Longrightarrow> length (raw_command e) < 2 ^ 29 \<Longrightarrow> rec_ok J (WEntry e)"
  using dsize_obj [of "[(''term'', j_u64 J (raw_term e)), (''index'', j_u64 J (raw_index e)), (''cmd'', j_str J (raw_command e))]"]
    dsize_u64 [of "raw_term e"] dsize_u64 [of "raw_index e"] dsize_str [of "raw_command e"]
  by (simp add: rec_ok_def payload_size RawLogEntry_json_def)

end

section \<open>Damaged tails\<close>

text \<open>The log with further bytes, whatever they are, at the end of the open segment.\<close>

definition with_tail :: "u8 list \<Rightarrow> wal \<Rightarrow> wal" where
  "with_tail tail w = w\<lparr>w_dir := AList.update (SegmentPath (w_currentSegment w))
     (file_bytes (w_dir w) (w_currentSegment w) @ tail) (w_dir w),
     w_currentOffset := w_currentOffset w + length tail\<rparr>"

lemma with_tail_WriteRecord:
  "WriteRecord ty p (with_tail tail w) = with_tail (tail @ record_bytes (RecordType_value ty) p) w"
  by (simp add: WriteRecord_def with_tail_def Let_def file_bytes_update)

lemma recover_segments_append:
  "recover_segments J dir rr (ss @ ss') = bind_exn (recover_segments J dir rr ss) (\<lambda>r. recover_segments J dir r ss')"
proof (induction ss arbitrary: rr)
  case (Cons s ss)
  then show ?case by (cases "recover_segment J rr (file_bytes dir s)") simp_all
qed simp

lemma segment_numbers_update:
  "k \<in> set (map fst dir) \<Longrightarrow> segment_numbers (AList.update k v dir) = segment_numbers dir"
proof (induction dir)
  case (Cons f dir)
  then show ?case by (cases f; cases "fst f = k") simp_all
qed simp

context json_lib
begin

lemma Recover_with_tail:
  assumes "wal_holds J w rs" "\<And>rr. recover_segment J rr tail = Inr rr"
  shows "Recover J (with_tail tail w) = Inr (replay_all rs)"
proof -
  obtain segs where segs: "wal_repr J w segs" "concat segs = rs" using assms(1) by (auto simp: wal_holds_def)
  obtain ss where ss: "segment_numbers (w_dir w) = Inr ss" "sort ss = map of_nat [0..<length segs]"
    using segs(1) by (rule wal_repr_segments)
  obtain n where n: "length segs = Suc n" using segs(1) by (cases "length segs") (auto simp: wal_repr_def)
  have len: "length segs \<le> 2 ^ 64" and cur: "w_currentSegment w = of_nat n"
    and last: "file_bytes (w_dir w) (of_nat n) = concat (map (rec_bytes J) (segs ! n))"
    using segs(1) n by (auto simp: wal_repr_def)
  let ?dir = "w_dir (with_tail tail w)"
  have "SegmentPath (of_nat n) \<in> set (map fst (w_dir w))"
    using segs(1) n by (auto simp: wal_repr_def)
  then have nums: "segment_numbers ?dir = Inr ss"
    using ss(1) cur by (simp add: with_tail_def segment_numbers_update)
  have old: "file_bytes ?dir (of_nat i) = concat (map (rec_bytes J) (segs ! i))" if "i < n" for i
    using segs(1) n that of_nat_inj64 [of i n] len
    by (simp add: with_tail_def file_bytes_update cur wal_repr_def)
  let ?f = "\<lambda>s :: u64. segs ! unat s"
  have ok: "list_all (rec_ok J) (segs ! i)" if "i \<le> n" for i
    using segs(1) n that by (auto simp: wal_repr_def list_all_iff)
  have "recover_segments J ?dir RecoveryResult_default (map of_nat [0..<n]) =
      Inr (foldl replay RecoveryResult_default (concat (map ?f (map of_nat [0..<n]))))"
    using old ok n len by (intro recover_segments_records) (auto simp: unat_of_nat64)
  also have "map ?f (map of_nat [0..<n]) = take n segs"
    using n len by (intro nth_equalityI) (auto simp: unat_of_nat64)
  finally have first: "recover_segments J ?dir RecoveryResult_default (map of_nat [0..<n]) =
      Inr (foldl replay RecoveryResult_default (concat (take n segs)))" .
  have "recover_segment J rr (file_bytes ?dir (of_nat n)) = Inr (foldl replay rr (segs ! n))" for rr
    using assms(2) recover_segment_records [OF ok [of n]]
    by (simp add: with_tail_def file_bytes_update cur last)
  moreover have "concat (take n segs) @ segs ! n = rs"
    using segs(2) n by (metis append_Nil2 concat.simps concat_append lessI take_Suc_conv_app_nth take_all order_refl)
  ultimately show ?thesis
    using first by (simp add: Recover_def nums ss(2) n recover_segments_append replay_all_def flip: foldl_append)
qed

text \<open>A write cut short by a crash loses that record and nothing else.\<close>

lemma Recover_torn:
  assumes "wal_holds J w rs" "rec_ok J r" "n < length (rec_bytes J r)"
  shows "Recover J (with_tail (take n (rec_bytes J r)) w) = Inr (replay_all rs)"
  using assms by (intro Recover_with_tail) (auto simp: rec_bytes_def rec_ok_def intro!: recover_segment_torn)

end

text \<open>
  The segment is reopened for appending after a crash, behind the torn record: the reader
  takes the next bytes for the missing ones, finds the checksum wrong and gives up the
  segment, and with it every record written since.
\<close>

lemma recover_segment_behind_torn:
  assumes "length p < 4294967295" "0 < k" "k \<le> 4" "k \<le> length p" "k \<le> length ext"
    "take k ext \<noteq> drop (length p - k) (bytes_of p)"
  shows "recover_segment J rr (take (length (record_bytes t p) - k) (record_bytes t p) @ ext) = Inr rr"
proof -
  let ?m = "length p - k"
  have "length (record_bytes t p) - k = ?m + 9" using assms(4) by simp
  then have cut: "take (length (record_bytes t p) - k) (record_bytes t p) =
      take 8 (record_bytes t p) @ t # take ?m (bytes_of p)"
    by (simp only:) (simp add: record_bytes_def take_Cons')
  have "recover_segment J rr (take 8 (record_bytes t p) @ t # (take ?m (bytes_of p) @ take k ext) @ drop k ext) = Inr rr"
    by (rule recover_segment_corrupt [of p t "t # take ?m (bytes_of p)" "drop ?m (bytes_of p)" "[]" t _ "take k ext"])
      (use assms in simp_all)
  then show ?thesis unfolding cut by simp
qed

text \<open>So whatever is written to the reopened segment is not recovered.\<close>

context json_lib
begin

lemma Recover_behind_torn:
  assumes "wal_holds J w rs" "rec_ok J r" "0 < k" "k \<le> 4" "k \<le> length (payload_of J r)" "k \<le> length ext"
    "take k ext \<noteq> drop (length (rec_bytes J r) - k) (rec_bytes J r)"
  shows "Recover J (with_tail (take (length (rec_bytes J r) - k) (rec_bytes J r) @ ext) w) = Inr (replay_all rs)"
proof (rule Recover_with_tail [OF assms(1)])
  have "drop (length (rec_bytes J r) - k) (rec_bytes J r) = drop (length (payload_of J r) - k) (bytes_of (payload_of J r))"
  proof -
    have "length (rec_bytes J r) - k = (length (payload_of J r) - k) + 9" using assms(5) by (simp add: rec_bytes_def)
    then show ?thesis by (simp only:) (simp add: rec_bytes_def record_bytes_def drop_Cons')
  qed
  then show "recover_segment J rr (take (length (rec_bytes J r) - k) (rec_bytes J r) @ ext) = Inr rr" for rr
    using assms unfolding rec_bytes_def rec_ok_def by (intro recover_segment_behind_torn) auto
qed

end

section \<open>Properties\<close>

text \<open>
  C9: whatever records are written to a log opened on an empty directory, over however many
  segment files, the log reopened on that directory recovers the replay of exactly these
  records in the order they were written.
\<close>

theorem WAL_recovers:
  assumes "json_lib J" "list_all (rec_ok J) rs" "length rs < 2 ^ 64"
  shows "\<exists>w w' w''. WriteAheadLog_new [] m = Inr w \<and> wal_write_all J rs w = Some w' \<and>
    WriteAheadLog_new (w_dir w') m' = Inr w'' \<and> Recover J w'' = Inr (replay_all rs)"
proof -
  obtain w where w: "WriteAheadLog_new [] m = Inr w" "wal_holds J w []"
    using WriteAheadLog_new_empty [of m J] by blast
  have "wal_room (length rs + 0) w" using wal_room_length [OF w(2)] assms(3) by simp
  then obtain w' where w': "wal_write_all J rs w = Some w'" "wal_holds J w' rs"
    using json_lib.wal_write_all_holds [OF assms(1) w(2) assms(2), of 0] by auto
  obtain w'' where "WriteAheadLog_new (w_dir w') m' = Inr w''" "wal_holds J w'' rs"
    using WriteAheadLog_new_holds [OF w'(2)] by blast
  then show ?thesis using w w' json_lib.Recover_holds [OF assms(1)] by blast
qed

definition sample_vote :: WalRecord where
  "sample_vote = WHard \<lparr>hs_term = 4, hs_votedFor = ''n2''\<rparr>"

lemma sample_vote_ok: "rec_ok json_text sample_vote"
  unfolding sample_vote_def by (rule jt.rec_ok_hard) simp_all

theorem WAL_recovers_witness:
  "\<exists>w w' w''. WriteAheadLog_new [] 64 = Inr w \<and> wal_write_all json_text [sample_vote] w = Some w' \<and>
    WriteAheadLog_new (w_dir w') 64 = Inr w'' \<and> Recover json_text w'' = Inr (replay_all [sample_vote])"
  using WAL_recovers [OF jt.json_lib_axioms, of "[sample_vote]" 64 64] by (simp add: sample_vote_ok)

text \<open>
  C20: a record whose write was cut short by a crash, at any byte, is ignored by recovery, and
  every record before it is recovered.
\<close>

theorem WAL_torn_write:
  assumes "json_lib J" "wal_holds J w rs" "rec_ok J r" "n < length (rec_bytes J r)"
  shows "Recover J (with_tail (take n (rec_bytes J r)) w) = Inr (replay_all rs)"
  using json_lib.Recover_torn [OF assms] .

theorem WAL_torn_write_witness:
  "\<exists>w. WriteAheadLog_new [] 64 = Inr w \<and>
     Recover json_text (with_tail (take 7 (rec_bytes json_text sample_vote)) w) = Inr (replay_all [])"
proof -
  obtain w where w: "WriteAheadLog_new [] 64 = Inr w" "wal_holds json_text w []"
    using WriteAheadLog_new_empty [of 64 json_text] by blast
  have "7 < length (rec_bytes json_text sample_vote)" by (simp add: rec_bytes_def)
  then show ?thesis using w WAL_torn_write [OF jt.json_lib_axioms w(2) sample_vote_ok] by blast
qed



text \<open>
  C30: the checksum tells apart any two record bodies of the same length that differ within
  four consecutive bytes.
\<close>

theorem Crc32_detects_bursts:
  assumes "length bs = length bs'" "length bs \<le> 4" "bs \<noteq> bs'"
  shows "Crc32 (xs @ bs @ ys) \<noteq> Crc32 (xs @ bs' @ ys)"
  using Crc32_burst [OF assms(1,2)] assms(3) by blast

theorem Crc32_detects_bursts_witness: "Crc32 ([1] @ [2, 3] @ [4]) \<noteq> Crc32 ([1] @ [3, 3] @ [4])"
  using Crc32_detects_bursts [of "[2, 3]" "[3, 3]" "[1]" "[4]"] by simp

text \<open>
  C31: the table-driven checksum is the bit-by-bit division by the reflected polynomial
  \<open>0xEDB88320\<close>.
\<close>

theorem Crc32_table_driven: "Crc32 bs = Crc32_bitwise bs"
  by (rule Crc32_eq_bitwise)

end
