(* ===== verification/KVStore.thy ===== *)
theory KVStore
  imports RaftRPC
begin

text \<open>
  \<open>storage/KVStore.{hpp,cpp}\<close>: the key-value state machine with versions, expiry times and
  watches, and \<open>storage/Snapshot.{hpp,cpp}\<close>. Operations that read the system clock take the
  reading as their argument \<open>now\<close>. A watch callback is an opaque identifier; an operation
  returns the list of calls it makes, in the order of the watch table.
\<close>

section \<open>Data\<close>

record KVEntry =
  kv_value :: string
  kv_version :: u64
  kv_raftIndex :: u64
  kv_createdAt :: time
  kv_updatedAt :: time
  kv_expiresAt :: "time option"

type_synonym callback = nat

text \<open>A call \<open>cb(key, entry)\<close> of a watch callback.\<close>

type_synonym notification = "callback \<times> string \<times> KVEntry option"

record KVStore =
  data :: "KVEntry omap"
  nextWatchId :: u64
  watches :: "(u64 \<times> string \<times> bool \<times> callback) list"

definition KVStore_new :: KVStore where
  "KVStore_new = \<lparr>data = [], nextWatchId = 1, watches = []\<rparr>"

definition KVEntry_default :: KVEntry where
  "KVEntry_default = \<lparr>kv_value = [], kv_version = 0, kv_raftIndex = 0, kv_createdAt = 0, kv_updatedAt = 0,
     kv_expiresAt = None\<rparr>"

text \<open>
  \<open>system_clock\<close> counts nanoseconds in an \<open>int64_t\<close>; converting milliseconds multiplies
  by a million in that type, which wraps on the targets of the build.
\<close>

definition add_ms :: "time \<Rightarrow> i64 \<Rightarrow> time" where
  "add_ms t ms = wrap64 (t + wrap64 (sint ms * 1000000))"

definition expired :: "time \<Rightarrow> KVEntry \<Rightarrow> bool" where
  "expired now e = (case kv_expiresAt e of None \<Rightarrow> False | Some t \<Rightarrow> t < now)"

section \<open>Operations\<close>

definition KVStore_Get :: "time \<Rightarrow> string \<Rightarrow> KVStore \<Rightarrow> KVEntry option" where
  "KVStore_Get now key s =
     (case om_find (data s) key of
        None \<Rightarrow> None
      | Some e \<Rightarrow> if expired now e then None else Some e)"

definition NotifyWatchers :: "string \<Rightarrow> KVEntry option \<Rightarrow> KVStore \<Rightarrow> notification list" where
  "NotifyWatchers key entry s =
     map (\<lambda>(_, _, _, cb). (cb, key, entry))
       (filter (\<lambda>(_, pat, isPrefix, _). if isPrefix then has_prefix pat key else key = pat) (watches s))"

definition KVStore_Put ::
  "time \<Rightarrow> string \<Rightarrow> string \<Rightarrow> u64 \<Rightarrow> i64 option \<Rightarrow> KVStore \<Rightarrow> KVStore \<times> notification list \<times> bool" where
  "KVStore_Put now key v raftIndex ttl s =
     (let (ver, created) = (case om_find (data s) key of
            Some old \<Rightarrow> (kv_version old + 1, kv_createdAt old)
          | None \<Rightarrow> (1, now));
          entry = \<lparr>kv_value = v, kv_version = ver, kv_raftIndex = raftIndex, kv_createdAt = created,
            kv_updatedAt = now, kv_expiresAt = map_option (add_ms now) ttl\<rparr>;
          s' = s\<lparr>data := om_set key entry (data s)\<rparr>
      in (s', NotifyWatchers key (Some entry) s', True))"

definition KVStore_Delete :: "string \<Rightarrow> u64 \<Rightarrow> KVStore \<Rightarrow> KVStore \<times> notification list \<times> bool" where
  "KVStore_Delete key raftIndex s =
     (if om_find (data s) key = None then (s, [], False)
      else let s' = s\<lparr>data := om_erase key (data s)\<rparr>
           in (s', NotifyWatchers key None s', True))"

fun scan_loop :: "time \<Rightarrow> string \<Rightarrow> nat option \<Rightarrow> KVEntry omap \<Rightarrow> KVEntry omap \<Rightarrow> KVEntry omap" where
  "scan_loop now pre limit [] results = results"
| "scan_loop now pre limit ((k, e) # m) results =
     (if \<not> has_prefix pre k then results
      else if expired now e then scan_loop now pre limit m results
      else let results' = results @ [(k, e)]
           in if (case limit of None \<Rightarrow> False | Some n \<Rightarrow> n \<le> length results') then results'
              else scan_loop now pre limit m results')"

definition KVStore_Scan :: "time \<Rightarrow> string \<Rightarrow> nat option \<Rightarrow> KVStore \<Rightarrow> (string \<times> KVEntry) list" where
  "KVStore_Scan now pre limit s = scan_loop now pre limit (om_lower_bound pre (data s)) []"

definition KVStore_CAS ::
  "time \<Rightarrow> string \<Rightarrow> string \<Rightarrow> string \<Rightarrow> u64 \<Rightarrow> KVStore \<Rightarrow> KVStore \<times> notification list \<times> bool" where
  "KVStore_CAS now key expected newValue raftIndex s =
     (case om_find (data s) key of
        None \<Rightarrow> (s, [], False)
      | Some e \<Rightarrow>
          if kv_value e \<noteq> expected then (s, [], False)
          else let e' = e\<lparr>kv_value := newValue, kv_version := kv_version e + 1, kv_updatedAt := now,
                   kv_raftIndex := raftIndex\<rparr>;
                   s' = s\<lparr>data := om_set key e' (data s)\<rparr>
               in (s', NotifyWatchers key (Some e') s', True))"

definition KVStore_Watch :: "string \<Rightarrow> bool \<Rightarrow> callback \<Rightarrow> KVStore \<Rightarrow> KVStore \<times> u64" where
  "KVStore_Watch keyOrPrefix isPrefix cb s =
     (let i = nextWatchId s
      in (s\<lparr>nextWatchId := i + 1, watches := AList.update i (keyOrPrefix, isPrefix, cb) (watches s)\<rparr>, i))"

definition KVStore_Unwatch :: "u64 \<Rightarrow> KVStore \<Rightarrow> KVStore" where
  "KVStore_Unwatch watchId s = s\<lparr>watches := AList.delete watchId (watches s)\<rparr>"

text \<open>\<open>duration_cast\<close> to milliseconds truncates towards zero.\<close>

definition to_ms :: "time \<Rightarrow> int" where
  "to_ms t = (if t < 0 then - ((- t) div 1000000) else t div 1000000)"

definition KVEntry_json :: "'j json_ops \<Rightarrow> string \<times> KVEntry \<Rightarrow> 'j" where
  "KVEntry_json J = (\<lambda>(k, v). j_obj J
     [(''key'', j_str J k), (''value'', j_str J (kv_value v)), (''version'', j_u64 J (kv_version v)),
      (''raft_index'', j_u64 J (kv_raftIndex v)),
      (''expires_ms'', j_i64 J (case kv_expiresAt v of None \<Rightarrow> - 1 | Some t \<Rightarrow> word_of_int (to_ms t)))])"

definition TakeSnapshot :: "'j json_ops \<Rightarrow> time \<Rightarrow> KVStore \<Rightarrow> string option" where
  "TakeSnapshot J now s =
     j_dump J (j_arr J (map (KVEntry_json J) (filter (\<lambda>(_, v). \<not> expired now v) (data s))))"

definition restore_item :: "'j json_ops \<Rightarrow> time \<Rightarrow> 'j \<Rightarrow> KVEntry omap \<Rightarrow> KVEntry omap option" where
  "restore_item J now item m =
     do { v \<leftarrow> jget J (j_get_str J) item ''value'';
          ver \<leftarrow> jget J (j_get_u64 J) item ''version'';
          ri \<leftarrow> jget J (j_get_u64 J) item ''raft_index'';
          ms \<leftarrow> jget J (j_get_i64 J) item ''expires_ms'';
          k \<leftarrow> jget J (j_get_str J) item ''key'';
          Some (om_set k \<lparr>kv_value = v, kv_version = ver, kv_raftIndex = ri, kv_createdAt = now,
            kv_updatedAt = now,
            kv_expiresAt = (if 0 \<le> sint ms then Some (wrap64 (sint ms * 1000000)) else None)\<rparr> m) }"

fun restore_items :: "'j json_ops \<Rightarrow> time \<Rightarrow> 'j list \<Rightarrow> KVEntry omap \<Rightarrow> KVEntry omap option" where
  "restore_items J now [] m = Some m"
| "restore_items J now (item # items) m =
     do { m' \<leftarrow> restore_item J now item m; restore_items J now items m' }"

definition RestoreSnapshot :: "'j json_ops \<Rightarrow> time \<Rightarrow> string \<Rightarrow> KVStore \<Rightarrow> KVStore option" where
  "RestoreSnapshot J now snapshotJson s =
     do { j \<leftarrow> j_parse J snapshotJson;
          m \<leftarrow> restore_items J now (j_elems J j) [];
          Some (s\<lparr>data := m\<rparr>) }"

definition KVStore_Size :: "KVStore \<Rightarrow> nat" where
  "KVStore_Size s = length (data s)"

definition PurgeExpired :: "time \<Rightarrow> KVStore \<Rightarrow> KVStore \<times> notification list \<times> nat" where
  "PurgeExpired now s =
     (let expiredKeys = map fst (filter (\<lambda>(_, e). expired now e) (data s));
          s' = s\<lparr>data := filter (\<lambda>(_, e). \<not> expired now e) (data s)\<rparr>
      in (s', concat (map (\<lambda>key. NotifyWatchers key None s') expiredKeys), length expiredKeys))"

section \<open>\<open>Snapshot\<close>\<close>

record Snapshot =
  sn_index :: u64
  sn_term :: u64
  sn_data :: string

definition Snapshot_Empty :: "Snapshot \<Rightarrow> bool" where
  "Snapshot_Empty s \<longleftrightarrow> sn_index s = 0"

definition Snapshot_Serialise :: "'j json_ops \<Rightarrow> Snapshot \<Rightarrow> string option" where
  "Snapshot_Serialise J s = j_dump J (j_obj J
     [(''index'', j_u64 J (sn_index s)), (''term'', j_u64 J (sn_term s)), (''data'', j_str J (sn_data s))])"

definition Snapshot_Deserialise :: "'j json_ops \<Rightarrow> string \<Rightarrow> Snapshot option" where
  "Snapshot_Deserialise J raw =
     do { j \<leftarrow> j_parse J raw;
          i \<leftarrow> jget J (j_get_u64 J) j ''index'';
          t \<leftarrow> jget J (j_get_u64 J) j ''term'';
          d \<leftarrow> jget J (j_get_str J) j ''data'';
          Some \<lparr>sn_index = i, sn_term = t, sn_data = d\<rparr> }"

section \<open>Effects of the operations\<close>

definition store_wf :: "KVStore \<Rightarrow> bool" where
  "store_wf s \<longleftrightarrow> om_wf (data s)"

lemma store_wf_new: "store_wf KVStore_new"
  by (simp add: store_wf_def KVStore_new_def)

lemma store_wf_Put: "store_wf s \<Longrightarrow> store_wf (fst (KVStore_Put now k v ri ttl s))"
  by (simp add: store_wf_def KVStore_Put_def Let_def om_wf_set split: option.splits)

lemma store_wf_Delete: "store_wf s \<Longrightarrow> store_wf (fst (KVStore_Delete k ri s))"
  by (simp add: store_wf_def KVStore_Delete_def Let_def om_wf_erase)

lemma store_wf_CAS: "store_wf s \<Longrightarrow> store_wf (fst (KVStore_CAS now k x v ri s))"
  by (simp add: store_wf_def KVStore_CAS_def Let_def om_wf_set split: option.splits)

lemma store_wf_Purge: "store_wf s \<Longrightarrow> store_wf (fst (PurgeExpired now s))"
  by (simp add: store_wf_def PurgeExpired_def Let_def om_wf_filter)

lemmas store_wf_ops = store_wf_new store_wf_Put store_wf_Delete store_wf_CAS store_wf_Purge

text \<open>The write-once part of an entry, without the clock readings of the node that applied it.\<close>

definition put_entry :: "time \<Rightarrow> string \<Rightarrow> u64 \<Rightarrow> i64 option \<Rightarrow> KVEntry option \<Rightarrow> KVEntry" where
  "put_entry now v ri ttl old =
     \<lparr>kv_value = v, kv_version = (case old of None \<Rightarrow> 1 | Some e \<Rightarrow> kv_version e + 1), kv_raftIndex = ri,
      kv_createdAt = (case old of None \<Rightarrow> now | Some e \<Rightarrow> kv_createdAt e), kv_updatedAt = now,
      kv_expiresAt = map_option (add_ms now) ttl\<rparr>"

lemma find_Put:
  "om_find (data (fst (KVStore_Put now k v ri ttl s))) =
     (om_find (data s))(k := Some (put_entry now v ri ttl (om_find (data s) k)))"
  by (simp add: KVStore_Put_def Let_def om_find_set put_entry_def split: option.splits)

lemma find_Delete:
  "store_wf s \<Longrightarrow> om_find (data (fst (KVStore_Delete k ri s))) = (om_find (data s))(k := None)"
  by (auto simp: KVStore_Delete_def Let_def om_find_erase store_wf_def fun_upd_idem)

lemma find_CAS:
  "om_find (data (fst (KVStore_CAS now k x v ri s))) =
     (case om_find (data s) k of
        Some e \<Rightarrow> if kv_value e = x
          then (om_find (data s))(k \<mapsto> e\<lparr>kv_value := v, kv_version := kv_version e + 1, kv_updatedAt := now,
            kv_raftIndex := ri\<rparr>)
          else om_find (data s)
      | None \<Rightarrow> om_find (data s))"
  by (simp add: KVStore_CAS_def Let_def om_find_set split: option.splits)

lemma find_Purge:
  "store_wf s \<Longrightarrow> om_find (data (fst (PurgeExpired now s))) k =
     (case om_find (data s) k of None \<Rightarrow> None | Some e \<Rightarrow> if expired now e then None else Some e)"
  using om_find_filter [of "data s" "\<lambda>_ e. \<not> expired now e" k]
  by (simp add: PurgeExpired_def Let_def store_wf_def split: option.splits)

section \<open>Visible contents\<close>

lemma Get_find: "KVStore_Get now k s = (case om_find (data s) k of None \<Rightarrow> None | Some e \<Rightarrow> if expired now e then None else Some e)"
  by (simp add: KVStore_Get_def)

lemma Get_Put:
  "KVStore_Get now' k' (fst (KVStore_Put now k v ri ttl s)) =
     (if k' = k
      then let e = put_entry now v ri ttl (om_find (data s) k) in if expired now' e then None else Some e
      else KVStore_Get now' k' s)"
  by (simp add: Get_find find_Put Let_def)

lemma Get_Delete:
  "store_wf s \<Longrightarrow> KVStore_Get now' k' (fst (KVStore_Delete k ri s)) = (if k' = k then None else KVStore_Get now' k' s)"
  by (simp add: Get_find find_Delete)

lemma Get_Purge:
  "store_wf s \<Longrightarrow> now \<le> now' \<Longrightarrow> KVStore_Get now' k (fst (PurgeExpired now s)) = KVStore_Get now' k s"
  by (auto simp: Get_find find_Purge expired_def split: option.splits)

text \<open>
  What the layers above rely on: a write is visible until it is overwritten, deleted or
  expires, touches no other key, and purging is invisible.
\<close>

locale kv_interface =
  fixes ok :: "'s \<Rightarrow> bool"
    and get :: "time \<Rightarrow> string \<Rightarrow> 's \<Rightarrow> KVEntry option"
    and put :: "time \<Rightarrow> string \<Rightarrow> string \<Rightarrow> u64 \<Rightarrow> i64 option \<Rightarrow> 's \<Rightarrow> 's"
    and del :: "string \<Rightarrow> u64 \<Rightarrow> 's \<Rightarrow> 's"
    and purge :: "time \<Rightarrow> 's \<Rightarrow> 's"
  assumes ok_put: "ok s \<Longrightarrow> ok (put now k v ri ttl s)"
    and ok_del: "ok s \<Longrightarrow> ok (del k ri s)"
    and ok_purge: "ok s \<Longrightarrow> ok (purge now s)"
    and get_put_same: "\<exists>e. get now' k (put now k v ri None s) = Some e \<and> kv_value e = v"
    and get_put_other: "k' \<noteq> k \<Longrightarrow> get now' k' (put now k v ri ttl s) = get now' k' s"
    and get_del: "ok s \<Longrightarrow> get now' k' (del k ri s) = (if k' = k then None else get now' k' s)"
    and get_purge: "ok s \<Longrightarrow> now \<le> now' \<Longrightarrow> get now' k (purge now s) = get now' k s"
begin

lemma get_puts_other:
  "k \<notin> (\<lambda>(now, k, _). k) ` set ws \<Longrightarrow>
     get now' k (foldl (\<lambda>s (now, k, v, ri, ttl). put now k v ri ttl s) s ws) = get now' k s"
  by (induction ws arbitrary: s) (auto simp: get_put_other)

lemma get_last_put:
  "k \<notin> (\<lambda>(now, k, _). k) ` set ws \<Longrightarrow>
     \<exists>e. get now' k (foldl (\<lambda>s (now, k, v, ri, ttl). put now k v ri ttl s) (put now k v ri None s) ws) = Some e \<and>
         kv_value e = v"
  using get_put_same by (simp add: get_puts_other)

lemma get_del_purge: "ok s \<Longrightarrow> now \<le> now' \<Longrightarrow> get now' k (purge now (del k ri s)) = None"
  by (simp add: get_purge ok_del get_del)

end

interpretation kv: kv_interface store_wf KVStore_Get
  "\<lambda>now k v ri ttl s. fst (KVStore_Put now k v ri ttl s)" "\<lambda>k ri s. fst (KVStore_Delete k ri s)"
  "\<lambda>now s. fst (PurgeExpired now s)"
  by unfold_locales (simp_all add: store_wf_ops Get_Put Get_Delete Get_Purge put_entry_def expired_def Let_def)

section \<open>Prefix scans\<close>

lemma prefix_interval:
  fixes p :: string
  assumes "p \<le> k" "k < k'" "prefix p k'"
  shows "prefix p k"
  using assms
proof (induction p arbitrary: k k')
  case (Cons a p)
  then obtain b k1 c k1' where "k = b # k1" "k' = c # k1'" by (cases k; cases k') auto
  with Cons show ?case by (auto intro: Cons.IH)
qed simp

lemma scan_loop_take:
  assumes "om_wf m" "\<forall>k \<in> fst ` set m. pre \<le> k" "case limit of None \<Rightarrow> True | Some n \<Rightarrow> length acc < max 1 n"
  shows "scan_loop now pre limit m acc =
    acc @ (let hits = filter (\<lambda>(k, e). prefix pre k \<and> \<not> expired now e) m
           in case limit of None \<Rightarrow> hits | Some n \<Rightarrow> take (max 1 n - length acc) hits)"
  using assms
proof (induction now pre limit m acc rule: scan_loop.induct)
  case (2 now pre limit k e m acc)
  have none: "filter (\<lambda>(k, e). prefix pre k \<and> \<not> expired now e) m = []" if "\<not> prefix pre k"
    using that 2(3,4) prefix_interval [of pre k] by (force simp: filter_empty_conv)
  show ?case
  proof (cases "prefix pre k \<and> \<not> expired now e")
    case True
    show ?thesis
    proof (cases limit)
      case None
      with True 2 show ?thesis by (simp add: has_prefix_iff Let_def)
    next
      case (Some n)
      then have "length acc < max 1 n" using 2(5) by simp
      then show ?thesis
        using True 2 Some by (cases "n \<le> Suc (length acc)") (auto simp: has_prefix_iff Let_def max_def Suc_diff_le take_Cons' split: if_splits)
    qed
  next
    case False
    then show ?thesis using 2 none by (auto simp: has_prefix_iff split: option.splits)
  qed
qed (simp split: option.splits)

lemma om_lower_bound_filter: "om_wf m \<Longrightarrow> om_lower_bound p m = filter (\<lambda>(k, _). p \<le> k) m"
proof (induction m)
  case (Cons kv m)
  obtain k v where kv: "kv = (k, v)" by (cases kv)
  show ?case
  proof (cases "p \<le> k")
    case True
    then have "\<forall>x \<in> set m. case x of (k, _) \<Rightarrow> p \<le> k" using Cons.prems kv by force
    then show ?thesis using True kv by (simp add: om_lower_bound_def)
  next
    case False
    with Cons kv show ?thesis by (simp add: om_lower_bound_def)
  qed
qed (simp add: om_lower_bound_def)

lemma prefix_le: "prefix p k \<Longrightarrow> p \<le> (k :: string)"
  proof (induction p arbitrary: k)
  case (Cons a p)
  then show ?case by (cases k) auto
qed simp

lemma Scan_eq:
  assumes "store_wf s"
  shows "KVStore_Scan now pre limit s =
    (let hits = filter (\<lambda>(k, e). prefix pre k \<and> \<not> expired now e) (data s)
     in case limit of None \<Rightarrow> hits | Some n \<Rightarrow> take (max 1 n) hits)"
proof -
  let ?m = "om_lower_bound pre (data s)"
  have wf: "om_wf (data s)" using assms by (simp add: store_wf_def)
  have "filter (\<lambda>(k, e). prefix pre k \<and> \<not> expired now e) ?m =
      filter (\<lambda>(k, e). prefix pre k \<and> \<not> expired now e) (data s)"
    using prefix_le by (auto simp: om_lower_bound_filter [OF wf] intro!: filter_cong)
  moreover have "om_wf ?m" "\<forall>k \<in> fst ` set ?m. pre \<le> k"
    using wf by (auto simp: om_lower_bound_filter [OF wf] om_wf_filter)
  ultimately show ?thesis
    by (simp add: KVStore_Scan_def scan_loop_take Let_def split: option.splits)
qed

section \<open>Snapshots\<close>

text \<open>An entry as it comes back: fresh time stamps, the expiry rounded down to a millisecond.\<close>

definition restored :: "time \<Rightarrow> KVEntry \<Rightarrow> KVEntry" where
  "restored now e = e\<lparr>kv_createdAt := now, kv_updatedAt := now,
     kv_expiresAt := map_option (\<lambda>t. t div 1000000 * 1000000) (kv_expiresAt e)\<rparr>"

definition entry_storable :: "string \<times> KVEntry \<Rightarrow> bool" where
  "entry_storable = (\<lambda>(k, e). utf8_valid k \<and> utf8_valid (kv_value e) \<and>
     (case kv_expiresAt e of None \<Rightarrow> True | Some t \<Rightarrow> 0 \<le> t \<and> t < 2 ^ 63))"

lemma sint_to_ms:
  assumes "0 \<le> t" "t < 2 ^ 63"
  shows "sint (word_of_int (to_ms t) :: i64) = t div 1000000" "wrap64 (t div 1000000 * 1000000) = t div 1000000 * 1000000"
proof -
  have "t div 1000000 \<le> t" "0 \<le> t div 1000000" using assms(1) by arith+
  then have "wrap64 (t div 1000000) = t div 1000000" using assms by (intro wrap64_id) auto
  then show "sint (word_of_int (to_ms t) :: i64) = t div 1000000" using assms by (simp add: wrap64_def to_ms_def)
  show "wrap64 (t div 1000000 * 1000000) = t div 1000000 * 1000000"
  proof (rule wrap64_id)
    show "- (2 ^ 63) \<le> t div 1000000 * 1000000" using \<open>0 \<le> t div 1000000\<close> by - (rule order_trans [of _ 0], simp_all)
    show "t div 1000000 * 1000000 < 2 ^ 63"
      using minus_mod_eq_div_mult [of t 1000000] pos_mod_sign [of 1000000 t]
      by (intro le_less_trans [OF _ assms(2)]) simp
  qed
qed

lemma om_find_sets:
  "distinct (map fst l) \<Longrightarrow>
     om_find (foldl (\<lambda>m (k, e). om_set k (f e) m) m l) k =
       (case om_find l k of None \<Rightarrow> om_find m k | Some e \<Rightarrow> Some (f e))"
proof (induction l arbitrary: m)
  case (Cons a l)
  obtain k' e where a: "a = (k', e)" by (cases a)
  with Cons show ?case by (auto simp: om_find_set om_find_def [of "_ # _"] om_find_notin simp flip: om_find_def split: option.splits)
qed (simp add: om_find_notin)

context json_lib
begin

lemma KVEntry_json_built: "utf8_valid k \<Longrightarrow> utf8_valid (kv_value e) \<Longrightarrow> built J (KVEntry_json J (k, e))"
  unfolding KVEntry_json_def by (auto intro!: built_intros simp: utf8_valid_ascii)

lemma restore_item_json:
  assumes "entry_storable (k, e)"
  shows "restore_item J now (KVEntry_json J (k, e)) m = Some (om_set k (restored now e) m)"
  using assms
  by (cases e; cases "kv_expiresAt e")
    (auto simp: restore_item_def KVEntry_json_def json_simps entry_storable_def sint_to_ms restored_def
      pos_imp_zdiv_nonneg_iff)

lemma restore_items_json:
  "list_all entry_storable l \<Longrightarrow>
     restore_items J now (map (KVEntry_json J) l) m = Some (foldl (\<lambda>m (k, e). om_set k (restored now e) m) m l)"
  by (induction l arbitrary: m) (auto simp: restore_item_json)

lemma snapshot_roundtrip:
  assumes "store_wf s" "list_all entry_storable (data s)"
  obtains raw s' where "TakeSnapshot J now s = Some raw" "utf8_valid raw" "RestoreSnapshot J now' raw s0 = Some s'"
    "watches s' = watches s0" "nextWatchId s' = nextWatchId s0" "store_wf s'"
    "\<And>k. om_find (data s') k = map_option (restored now') (KVStore_Get now k s)"
proof -
  let ?l = "filter (\<lambda>(_, v). \<not> expired now v) (data s)"
  let ?m = "foldl (\<lambda>m (k, e). om_set k (restored now' e) m) [] ?l"
  have ok: "list_all entry_storable ?l" using assms(2) by (auto simp: list_all_iff)
  then have "built J (j_arr J (map (KVEntry_json J) ?l))"
    by (intro built_arr) (auto simp: list_all_iff entry_storable_def intro!: KVEntry_json_built)
  then obtain raw where raw: "TakeSnapshot J now s = Some raw" "utf8_valid raw"
      "j_parse J raw = Some (j_arr J (map (KVEntry_json J) ?l))"
    unfolding TakeSnapshot_def by (rule dumpE)
  then have "RestoreSnapshot J now' raw s0 = Some (s0\<lparr>data := ?m\<rparr>)"
    using restore_items_json [OF ok] by (simp add: RestoreSnapshot_def json_simps)
  moreover have "om_wf ?l" using assms(1) by (simp add: store_wf_def om_wf_filter)
  then have "om_find ?m k = map_option (restored now') (KVStore_Get now k s)" for k
    using assms(1) om_find_filter [of "data s" "\<lambda>_ e. \<not> expired now e" k]
    by (auto simp: om_find_sets om_wf_distinct Get_find store_wf_def om_find_notin split: option.splits if_splits)
  moreover have "om_wf m \<Longrightarrow> om_wf (foldl (\<lambda>m (k, e). om_set k (restored now' e) m) m l)" for m l
    by (induction l arbitrary: m) (auto simp: om_wf_set)
  then have "om_wf ?m" by simp
  ultimately show thesis using that [of raw "s0\<lparr>data := ?m\<rparr>"] raw by (simp add: store_wf_def)
qed

lemma Snapshot_roundtrip:
  assumes "utf8_valid (sn_data s)"
  shows "\<exists>raw. Snapshot_Serialise J s = Some raw \<and> Snapshot_Deserialise J raw = Some s"
proof -
  have "built J (j_obj J [(''index'', j_u64 J (sn_index s)), (''term'', j_u64 J (sn_term s)), (''data'', j_str J (sn_data s))])"
    using assms by (auto intro!: built_intros simp: utf8_valid_ascii)
  then show ?thesis
    unfolding Snapshot_Serialise_def Snapshot_Deserialise_def by (rule dumpE) (auto simp: json_simps)
qed

end

section \<open>Properties\<close>

text \<open>
  C25: \<open>Scan\<close> returns, in key order, the live entries whose key starts with the prefix, and
  with a limit the first \<open>max 1 limit\<close> of them.
\<close>

theorem Scan_complete:
  assumes "store_wf s"
  shows "KVStore_Scan now pre limit s =
    (let hits = filter (\<lambda>(k, e). prefix pre k \<and> \<not> expired now e) (data s)
     in case limit of None \<Rightarrow> hits | Some n \<Rightarrow> take (max 1 n) hits)"
  using assms by (rule Scan_eq)

definition sample_store :: KVStore where
  "sample_store = fst (KVStore_Put 5 ''b'' ''2'' 2 None (fst (KVStore_Put 4 ''a'' ''1'' 1 (Some 9) KVStore_new)))"

lemma sample_store_wf: "store_wf sample_store"
  by (simp add: sample_store_def store_wf_ops)

theorem Scan_complete_witness:
  "KVStore_Scan 6 [] (Some 0) sample_store =
     take (max 1 0) (filter (\<lambda>(k, e). prefix [] k \<and> \<not> expired 6 e) (data sample_store))"
  using Scan_complete [OF sample_store_wf, of 6 "[]" "Some 0"] by simp

text \<open>
  C21: a snapshot taken at one time and restored into any store at another holds exactly the
  entries that were live, with value, version, Raft index and (to the millisecond) expiry;
  the restored store's watches stay.
\<close>

theorem snapshot_restores:
  assumes "json_lib J" "store_wf s" "list_all entry_storable (data s)"
  shows "\<exists>raw s'. TakeSnapshot J now s = Some raw \<and> RestoreSnapshot J now' raw s0 = Some s' \<and>
    watches s' = watches s0 \<and> store_wf s' \<and>
    (\<forall>k. om_find (data s') k = map_option (restored now') (KVStore_Get now k s))"
proof -
  obtain raw s' where "TakeSnapshot J now s = Some raw" "RestoreSnapshot J now' raw s0 = Some s'"
      "watches s' = watches s0" "store_wf s'" "\<And>k. om_find (data s') k = map_option (restored now') (KVStore_Get now k s)"
    using json_lib.snapshot_roundtrip [OF assms, of now now' s0] by blast
  then show ?thesis by blast
qed

theorem snapshot_restores_witness:
  "\<exists>raw s'. TakeSnapshot json_text 5 sample_store = Some raw \<and> RestoreSnapshot json_text 9 raw KVStore_new = Some s' \<and>
     om_find (data s') ''b'' = map_option (restored 9) (KVStore_Get 5 ''b'' sample_store)"
proof -
  have "wrap64 (9 * 1000000) = 9000000" "wrap64 9000004 = 9000004" by (simp_all add: wrap64_id)
  then have "list_all entry_storable (data sample_store)"
    by (simp add: sample_store_def KVStore_Put_def KVStore_new_def om_find_def entry_storable_def add_ms_def Let_def)
  from snapshot_restores [OF jt.json_lib_axioms sample_store_wf this, of 5 9 KVStore_new] show ?thesis by blast
qed

text \<open>
  After \<open>Put\<close> every read of the key sees the new value with the version one higher (1 for
  a new key), until the time to live has passed; reads of other keys do not change.
\<close>

theorem Put_then_Get:
  assumes "\<And>ms. ttl = Some ms \<Longrightarrow> 0 < sint ms \<and> now + sint ms * 1000000 < 2 ^ 63" "0 \<le> now"
  shows "KVStore_Get now' k' (fst (KVStore_Put now k v ri ttl s)) =
    (if k' \<noteq> k then KVStore_Get now' k' s
     else if (case ttl of None \<Rightarrow> False | Some ms \<Rightarrow> now + sint ms * 1000000 < now') then None
     else Some (put_entry now v ri ttl (om_find (data s) k)))"
proof -
  have "add_ms now ms = now + sint ms * 1000000" if "ttl = Some ms" for ms
  proof -
    have "0 < sint ms" "now + sint ms * 1000000 < 2 ^ 63" using assms(1) [OF that] by auto
    then have "wrap64 (sint ms * 1000000) = sint ms * 1000000" "wrap64 (now + sint ms * 1000000) = now + sint ms * 1000000"
      using assms(2) by (simp_all add: wrap64_id)
    then show ?thesis by (simp add: add_ms_def)
  qed
  then show ?thesis by (auto simp: Get_Put put_entry_def expired_def Let_def split: option.splits)
qed

theorem Put_then_Get_witness:
  "KVStore_Get 8 ''a'' (fst (KVStore_Put 7 ''a'' ''x'' 3 (Some 1000) sample_store)) =
     Some (put_entry 7 ''x'' 3 (Some 1000) (om_find (data sample_store) ''a''))"
proof -
  have "sint (1000 :: i64) = 1000" by simp
  then show ?thesis using Put_then_Get [of "Some 1000" 7 8 "''a''" "''a''" "''x''" 3 sample_store] by simp
qed

text \<open>
  Purging changes no read at or after the purge, removes exactly the expired entries,
  and returns how many there were.
\<close>

theorem Purge_invisible:
  assumes "store_wf s" "now \<le> now'"
  shows "KVStore_Get now' k (fst (PurgeExpired now s)) = KVStore_Get now' k s \<and>
    list_all (\<lambda>(_, e). \<not> expired now e) (data (fst (PurgeExpired now s))) \<and>
    KVStore_Size (fst (PurgeExpired now s)) + snd (snd (PurgeExpired now s)) = KVStore_Size s"
proof -
  have "length (filter (\<lambda>(_, e). \<not> expired now e) l) + length (filter (\<lambda>(_, e). expired now e) l) = length l"
    for l :: "KVEntry omap" by (induction l) auto
  then show ?thesis
    using kv.get_purge [OF assms] by (simp add: PurgeExpired_def KVStore_Size_def Let_def list_all_iff)
qed

theorem Purge_invisible_witness:
  "KVStore_Get 9000009 ''b'' (fst (PurgeExpired 9000005 sample_store)) = KVStore_Get 9000009 ''b'' sample_store"
  using Purge_invisible [OF sample_store_wf, of 9000005 9000009] by simp

text \<open>
  Compare-and-swap succeeds exactly when the key is present with the expected value, then
  changes only that entry (its expiry stays) and notifies the key's watchers; otherwise it
  changes nothing and notifies nobody.
\<close>

theorem CAS_exact:
  "(let (s', ns, ok) = KVStore_CAS now k x v ri s
    in ok = (\<exists>e. om_find (data s) k = Some e \<and> kv_value e = x) \<and>
       ns = (if ok then NotifyWatchers k (om_find (data s') k) s else []) \<and>
       om_find (data s') = (om_find (data s))(k := (if ok
         then map_option (\<lambda>e. e\<lparr>kv_value := v, kv_version := kv_version e + 1, kv_updatedAt := now, kv_raftIndex := ri\<rparr>)
           (om_find (data s) k)
         else om_find (data s) k)))"
  by (auto simp: KVStore_CAS_def Let_def om_find_set NotifyWatchers_def fun_upd_idem split: option.splits)

section \<open>The type of a store\<close>

text \<open>The stores that arise from a new one by operations, with the number of watches made.\<close>

inductive store_run :: "'j json_ops \<Rightarrow> nat \<Rightarrow> KVStore \<Rightarrow> bool" for J where
  run_new: "store_run J 0 KVStore_new"
| run_put: "store_run J k s \<Longrightarrow> store_run J k (fst (KVStore_Put now key v ri ttl s))"
| run_delete: "store_run J k s \<Longrightarrow> store_run J k (fst (KVStore_Delete key ri s))"
| run_cas: "store_run J k s \<Longrightarrow> store_run J k (fst (KVStore_CAS now key x v ri s))"
| run_purge: "store_run J k s \<Longrightarrow> store_run J k (fst (PurgeExpired now s))"
| run_restore: "store_run J k s \<Longrightarrow> RestoreSnapshot J now json s = Some s' \<Longrightarrow> store_run J k s'"
| run_watch: "store_run J k s \<Longrightarrow> store_run J (k + 1) (fst (KVStore_Watch key isPrefix cb s))"
| run_unwatch: "store_run J k s \<Longrightarrow> store_run J k (KVStore_Unwatch w s)"

lemma restore_items_wf: "restore_items J now items m = Some m' \<Longrightarrow> om_wf m \<Longrightarrow> om_wf m'"
proof (induction J now items m rule: restore_items.induct)
  case (2 J now item items m)
  then obtain m1 where m1: "restore_item J now item m = Some m1" "restore_items J now items m1 = Some m'"
    by (auto split: bind_splits)
  from m1(1) \<open>om_wf m\<close> have "om_wf m1" by (auto simp: restore_item_def om_wf_set split: bind_splits)
  with 2 m1 show ?case by blast
qed simp

definition watches_wf :: "nat \<Rightarrow> KVStore \<Rightarrow> bool" where
  "watches_wf k s \<longleftrightarrow> nextWatchId s = of_nat (k + 1) \<and> distinct (map fst (watches s)) \<and>
     (k < 2 ^ 64 - 1 \<longrightarrow> (\<forall>w \<in> fst ` set (watches s). 1 \<le> unat w \<and> unat w \<le> k))"

lemma watches_wf_ops:
  "watches_wf k s \<Longrightarrow> watches_wf k (fst (KVStore_Put now key v ri ttl s))"
  "watches_wf k s \<Longrightarrow> watches_wf k (fst (KVStore_Delete key ri s))"
  "watches_wf k s \<Longrightarrow> watches_wf k (fst (KVStore_CAS now key x v ri s))"
  "watches_wf k s \<Longrightarrow> watches_wf k (fst (PurgeExpired now s))"
  "watches_wf k s \<Longrightarrow> RestoreSnapshot J now json s = Some s' \<Longrightarrow> watches_wf k s'"
  by (auto simp: watches_wf_def KVStore_Put_def KVStore_Delete_def KVStore_CAS_def PurgeExpired_def RestoreSnapshot_def Let_def
    split: option.splits bind_splits)

lemma watches_wf_Unwatch: "watches_wf k s \<Longrightarrow> watches_wf k (KVStore_Unwatch w s)"
  by (auto simp: watches_wf_def KVStore_Unwatch_def AList.delete_eq distinct_map_filter)

lemma watch_fresh:
  assumes "watches_wf k s" "k < 2 ^ 64 - 1"
  shows "nextWatchId s \<notin> fst ` set (watches s)"
proof
  assume "nextWatchId s \<in> fst ` set (watches s)"
  then have "unat (nextWatchId s) \<le> k" using assms by (auto simp: watches_wf_def)
  moreover have "unat (nextWatchId s) = k + 1" using assms unat_of_nat64 [of "k + 1"] by (simp add: watches_wf_def)
  ultimately show False by simp
qed

lemma watches_wf_Watch:
  assumes "watches_wf k s"
  shows "watches_wf (k + 1) (fst (KVStore_Watch key isPrefix cb s))"
proof -
  have "unat (nextWatchId s) = k + 1" if "k + 1 < 2 ^ 64 - 1"
    using that assms unat_of_nat64 [of "k + 1"] by (simp add: watches_wf_def)
  then show ?thesis
    using assms by (auto simp: watches_wf_def KVStore_Watch_def Let_def distinct_update dom_update)
qed

lemma store_wf_watching:
  "store_wf s \<Longrightarrow> store_wf (fst (KVStore_Watch key isPrefix cb s))" "store_wf s \<Longrightarrow> store_wf (KVStore_Unwatch w s)"
  by (simp_all add: store_wf_def KVStore_Watch_def KVStore_Unwatch_def Let_def)

lemma store_run_wf: "store_run J k s \<Longrightarrow> store_wf s \<and> watches_wf k s"
proof (induction rule: store_run.induct)
  case (run_restore k s now json s')
  then have "om_wf (data s')" using restore_items_wf [where m = "[]"] by (auto simp: RestoreSnapshot_def split: bind_splits)
  with run_restore show ?case using watches_wf_ops(5) by (auto simp: store_wf_def)
next
  case run_new
  show ?case using store_wf_new by (simp add: watches_wf_def KVStore_new_def)
qed (blast intro: store_wf_ops store_wf_watching watches_wf_ops watches_wf_Unwatch watches_wf_Watch)+




end
