(* ===== verification/RaftLog.thy ===== *)
theory RaftLog
  imports WriteAheadLog KVStore
begin

text \<open>
  \<open>raft/RaftLog.{hpp,cpp}\<close>: the replicated log, a vector of entries behind a sentinel that
  stands for the snapshot, with a write-ahead log behind it. Index arithmetic is on 64-bit
  words, as in \<open>Offset\<close>. The log and the node share the write-ahead log; its state travels
  with the log. \<open>None\<close> and \<open>Inl\<close> are exceptions.
\<close>

section \<open>Data and operations\<close>

record RaftLog =
  entries :: "LogEntry list"
  snapshotIndex :: u64
  snapshotTerm :: u64
  rl_wal :: "wal option"

definition RaftLog_new :: "wal option \<Rightarrow> RaftLog" where
  "RaftLog_new w =
     \<lparr>entries = [LogEntry_default\<lparr>le_term := 0, le_index := 0, le_opType := OpNoOp\<rparr>],
      snapshotIndex = 0, snapshotTerm = 0, rl_wal = w\<rparr>"

definition Offset :: "RaftLog \<Rightarrow> u64 \<Rightarrow> nat" where
  "Offset l index = unat (index - snapshotIndex l)"

text \<open>The write-ahead log record of an entry, in \<open>Append\<close> and in the loop of \<open>AppendAll\<close>.\<close>

definition log_write :: "'j json_ops \<Rightarrow> LogEntry \<Rightarrow> RaftLog \<Rightarrow> RaftLog option" where
  "log_write J e l =
     (case rl_wal l of
        None \<Rightarrow> Some l
      | Some w \<Rightarrow>
          do { c \<leftarrow> LogEntry_Serialize J e;
               w' \<leftarrow> AppendLogEntry J \<lparr>raw_term = le_term e, raw_index = le_index e, raw_command = c\<rparr> w;
               Some (l\<lparr>rl_wal := Some w'\<rparr>) })"

definition RaftLog_Append :: "'j json_ops \<Rightarrow> LogEntry \<Rightarrow> RaftLog \<Rightarrow> RaftLog option" where
  "RaftLog_Append J entry l = log_write J entry (l\<lparr>entries := entries l @ [entry]\<rparr>)"

fun RaftLog_AppendAll :: "'j json_ops \<Rightarrow> LogEntry list \<Rightarrow> RaftLog \<Rightarrow> RaftLog option" where
  "RaftLog_AppendAll J [] l = Some l"
| "RaftLog_AppendAll J (ne # nes) l =
     (let off = Offset l (le_index ne);
          es = (if off < length (entries l) then
                  (if le_term (entries l ! off) \<noteq> le_term ne then take off (entries l) @ [ne] else entries l)
                else entries l @ [ne])
      in do { l' \<leftarrow> log_write J ne (l\<lparr>entries := es\<rparr>); RaftLog_AppendAll J nes l' })"

definition TruncateFrom :: "u64 \<Rightarrow> RaftLog \<Rightarrow> RaftLog" where
  "TruncateFrom index l =
     (let off = Offset l index
      in if off < length (entries l) then l\<lparr>entries := take off (entries l)\<rparr> else l)"

definition GetEntry :: "u64 \<Rightarrow> RaftLog \<Rightarrow> exn + LogEntry" where
  "GetEntry index l =
     (let off = Offset l index
      in if length (entries l) \<le> off then Inl OutOfRange else Inr (entries l ! off))"

lemma unat_next: "unat (i + 1) = Suc (unat i)" if "i < (n :: u64)"
proof -
  have "unat n < 2 ^ 64" using unsigned_less [of n] by simp
  then show ?thesis using that by (simp add: word_less_nat_alt unat_word_ariths)
qed

function get_entries_loop :: "RaftLog \<Rightarrow> u64 \<Rightarrow> u64 \<Rightarrow> LogEntry list" where
  "get_entries_loop l to i =
     (if i < to \<and> Offset l i < length (entries l)
      then entries l ! Offset l i # get_entries_loop l to (i + 1) else [])"
  by pat_completeness auto
termination
  by (relation "measure (\<lambda>(_, to, i). unat to - unat i)")
    (auto simp: unat_next word_less_nat_alt)

declare get_entries_loop.simps [simp del]

definition GetEntries :: "u64 \<Rightarrow> u64 \<Rightarrow> RaftLog \<Rightarrow> LogEntry list" where
  "GetEntries from to l = get_entries_loop l to from"

definition LastIndex :: "RaftLog \<Rightarrow> u64" where
  "LastIndex l = le_index (last (entries l))"

definition LastTerm :: "RaftLog \<Rightarrow> u64" where
  "LastTerm l = le_term (last (entries l))"

definition GetTerm :: "u64 \<Rightarrow> RaftLog \<Rightarrow> u64" where
  "GetTerm index l =
     (if index = snapshotIndex l then snapshotTerm l
      else let off = Offset l index
           in if length (entries l) \<le> off then 0 else le_term (entries l ! off))"

definition SetSnapshot :: "u64 \<Rightarrow> u64 \<Rightarrow> RaftLog \<Rightarrow> RaftLog" where
  "SetSnapshot index t l =
     (let off = Offset l index;
          kept = (if off < length (entries l) then drop off (entries l) else []);
          sentinel = LogEntry_default\<lparr>le_term := t, le_index := index, le_opType := OpNoOp\<rparr>
      in l\<lparr>entries := sentinel # kept, snapshotIndex := index, snapshotTerm := t\<rparr>)"

definition RaftLog_Size :: "RaftLog \<Rightarrow> nat" where
  "RaftLog_Size l = length (entries l) - 1"

section \<open>The invariant\<close>

text \<open>
  The sentinel carries the snapshot's index and term, and the entries behind it have
  consecutive indices that do not wrap.
\<close>

definition log_wf :: "RaftLog \<Rightarrow> bool" where
  "log_wf l \<longleftrightarrow>
     entries l \<noteq> [] \<and> le_term (hd (entries l)) = snapshotTerm l \<and>
     unat (snapshotIndex l) + length (entries l) \<le> 2 ^ 64 \<and>
     (\<forall>i < length (entries l). le_index (entries l ! i) = snapshotIndex l + of_nat i)"

lemma log_wf_new: "log_wf (RaftLog_new w)"
  by (simp add: log_wf_def RaftLog_new_def LogEntry_default_def)

lemma unat_index:
  assumes "unat (b :: u64) + i < 2 ^ 64"
  shows "unat (b + of_nat i) = unat b + i"
  using assms by (simp add: unat_word_ariths unat_of_nat64)

lemma Offset_index: "i < 2 ^ 64 \<Longrightarrow> Offset l (snapshotIndex l + of_nat i) = i"
  by (simp add: Offset_def unat_of_nat64)

lemma Offset_ge: "snapshotIndex l \<le> index \<Longrightarrow> Offset l index = unat index - unat (snapshotIndex l)"
  by (simp add: Offset_def unat_sub)

lemma LastIndex_wf:
  assumes "log_wf l"
  shows "LastIndex l = snapshotIndex l + of_nat (length (entries l) - 1)"
    "unat (LastIndex l) = unat (snapshotIndex l) + (length (entries l) - 1)"
    "Offset l (LastIndex l) = length (entries l) - 1"
proof -
  have *: "entries l \<noteq> []" "length (entries l) - 1 < length (entries l)"
    "unat (snapshotIndex l) + (length (entries l) - 1) < 2 ^ 64"
    using assms by (auto simp: log_wf_def simp flip: length_greater_0_conv)
  then show 1: "LastIndex l = snapshotIndex l + of_nat (length (entries l) - 1)"
    using assms by (auto simp: LastIndex_def log_wf_def last_conv_nth)
  show "unat (LastIndex l) = unat (snapshotIndex l) + (length (entries l) - 1)"
    unfolding 1 using * by (intro unat_index)
  show "Offset l (LastIndex l) = length (entries l) - 1"
    unfolding 1 using * by (intro Offset_index) linarith
qed

text \<open>The indices the log holds are those from the snapshot to the last one.\<close>

lemma Offset_in_range:
  assumes "log_wf l" "snapshotIndex l \<le> index"
  shows "Offset l index < length (entries l) \<longleftrightarrow> index \<le> LastIndex l"
  using assms LastIndex_wf(2) [OF assms(1)]
  by (auto simp: Offset_ge word_le_nat_alt log_wf_def simp flip: length_greater_0_conv)

lemma GetEntry_wf:
  assumes "log_wf l" "snapshotIndex l \<le> index"
  shows "index \<le> LastIndex l \<Longrightarrow> \<exists>e. GetEntry index l = Inr e \<and> le_index e = index \<and> e \<in> set (entries l)"
    "LastIndex l < index \<Longrightarrow> GetEntry index l = Inl OutOfRange"
proof -
  note off = Offset_in_range [OF assms]
  show "GetEntry index l = Inl OutOfRange" if "LastIndex l < index"
    using off that by (simp add: GetEntry_def not_less [symmetric])
  show "\<exists>e. GetEntry index l = Inr e \<and> le_index e = index \<and> e \<in> set (entries l)" if "index \<le> LastIndex l"
  proof -
    have "le_index (entries l ! Offset l index) = snapshotIndex l + of_nat (Offset l index)"
      using assms(1) off that by (simp add: log_wf_def)
    also have "\<dots> = index" by (simp add: Offset_def)
    finally show ?thesis using off that by (auto simp: GetEntry_def)
  qed
qed

lemma GetTerm_wf:
  assumes "log_wf l" "snapshotIndex l \<le> index"
  shows "GetTerm index l = (if index \<le> LastIndex l then le_term (entries l ! Offset l index) else 0)"
proof (cases "index = snapshotIndex l")
  case True
  then show ?thesis
    using assms Offset_in_range [OF assms] by (auto simp: GetTerm_def Offset_def log_wf_def hd_conv_nth)
next
  case False
  then show ?thesis using Offset_in_range [OF assms] by (auto simp: GetTerm_def)
qed

section \<open>Appending\<close>

lemma log_write_frame:
  assumes "log_write J e l = Some l'"
  shows "entries l' = entries l" "snapshotIndex l' = snapshotIndex l" "snapshotTerm l' = snapshotTerm l"
  using assms by (auto simp: log_write_def split: option.splits bind_splits)

lemma log_wf_cong:
  "entries l' = entries l \<Longrightarrow> snapshotIndex l' = snapshotIndex l \<Longrightarrow> snapshotTerm l' = snapshotTerm l \<Longrightarrow>
     log_wf l' = log_wf l"
  by (simp add: log_wf_def)

lemma not_max64: "unat x + 1 < 2 ^ 64" if "x \<noteq> (- 1 :: u64)"
proof -
  have "unat x < unat (- 1 :: u64)" using that by (simp add: word_order.not_eq_extremum flip: word_less_nat_alt)
  then show ?thesis by (simp add: unsigned_minus_1_eq_mask mask_eq_exp_minus_1)
qed

lemma log_wf_snoc:
  assumes "log_wf l" "le_index e = LastIndex l + 1" "LastIndex l \<noteq> - 1"
  shows "log_wf (l\<lparr>entries := entries l @ [e]\<rparr>)"
proof -
  have "unat (snapshotIndex l) + Suc (length (entries l)) \<le> 2 ^ 64"
    using LastIndex_wf(2) [OF assms(1)] not_max64 [OF assms(3)] assms(1) by (auto simp: log_wf_def simp flip: length_greater_0_conv)
  moreover have "le_index e = snapshotIndex l + of_nat (length (entries l))"
    using assms(1,2) LastIndex_wf(1) [OF assms(1)] by (cases "entries l" rule: rev_cases) (auto simp: log_wf_def)
  ultimately show ?thesis
    using assms(1) by (auto simp: log_wf_def nth_append less_Suc_eq)
qed

lemma Append_wf:
  assumes "log_wf l" "le_index e = LastIndex l + 1" "LastIndex l \<noteq> - 1" "RaftLog_Append J e l = Some l'"
  shows "log_wf l'" "entries l' = entries l @ [e]" "snapshotIndex l' = snapshotIndex l" "LastIndex l' = le_index e"
    "LastTerm l' = le_term e"
  using log_write_frame [of J e _ l'] assms log_wf_snoc [OF assms(1-3)] log_wf_cong [of l' "l\<lparr>entries := entries l @ [e]\<rparr>"]
  by (auto simp: RaftLog_Append_def LastIndex_def LastTerm_def)

text \<open>
  The contract the node relies on: an appended entry is the last one, and the entries
  before it stay where they were.
\<close>

locale append_log =
  fixes inv :: "'l \<Rightarrow> bool"
    and bot :: "'l \<Rightarrow> u64"
    and top :: "'l \<Rightarrow> u64"
    and entry :: "u64 \<Rightarrow> 'l \<Rightarrow> exn + LogEntry"
    and append :: "LogEntry \<Rightarrow> 'l \<Rightarrow> 'l option"
  assumes append_inv: "inv l \<Longrightarrow> le_index e = top l + 1 \<Longrightarrow> top l \<noteq> - 1 \<Longrightarrow> append e l = Some l' \<Longrightarrow> inv l'"
    and append_ends: "inv l \<Longrightarrow> le_index e = top l + 1 \<Longrightarrow> top l \<noteq> - 1 \<Longrightarrow> append e l = Some l' \<Longrightarrow>
      bot l' = bot l \<and> top l' = le_index e"
    and append_new: "inv l \<Longrightarrow> le_index e = top l + 1 \<Longrightarrow> top l \<noteq> - 1 \<Longrightarrow> append e l = Some l' \<Longrightarrow>
      entry (le_index e) l' = Inr e"
    and append_old: "inv l \<Longrightarrow> le_index e = top l + 1 \<Longrightarrow> top l \<noteq> - 1 \<Longrightarrow> append e l = Some l' \<Longrightarrow>
      bot l \<le> i \<Longrightarrow> i \<le> top l \<Longrightarrow> entry i l' = entry i l"
begin

lemma append_two:
  assumes "inv l" "top l \<noteq> - 1" "top l + 1 \<noteq> - 1" "append e l = Some l1" "append e' l1 = Some l2"
    "le_index e = top l + 1" "le_index e' = top l + 2" "bot l \<le> top l + 1"
  shows "entry (top l + 1) l2 = Inr e" "entry (top l + 2) l2 = Inr e'"
proof -
  note l1 = append_inv [OF assms(1,6,2,4)] append_ends [OF assms(1,6,2,4)]
    append_new [OF assms(1,6,2,4)]
  have e': "le_index e' = top l1 + 1" "top l1 \<noteq> - 1" using l1(2) assms(3,6,7) by (simp_all add: algebra_simps)
  show "entry (top l + 1) l2 = Inr e"
    using append_old [OF l1(1) e' assms(5)] l1(2,3) assms(6,8) by simp
  show "entry (top l + 2) l2 = Inr e'"
    using append_new [OF l1(1) e' assms(5)] assms(7) by simp
qed

end

lemma nth_Offset_old:
  "log_wf l \<Longrightarrow> snapshotIndex l \<le> i \<Longrightarrow> i \<le> LastIndex l \<Longrightarrow> (entries l @ es) ! Offset l i = entries l ! Offset l i"
  by (simp add: nth_append Offset_in_range)

interpretation lg: append_log log_wf snapshotIndex LastIndex GetEntry "RaftLog_Append J" for J
proof
  fix l l' and e :: LogEntry and i :: u64
  assume a: "log_wf l" "le_index e = LastIndex l + 1" "LastIndex l \<noteq> - 1" "RaftLog_Append J e l = Some l'"
  note w = Append_wf [OF a]
  show "log_wf l'" "snapshotIndex l' = snapshotIndex l \<and> LastIndex l' = le_index e" using w by simp_all
  have len: "length (entries l') = Suc (length (entries l))" using w by simp
  have "Offset l' (LastIndex l') = length (entries l)" using LastIndex_wf(3) [OF w(1)] len by simp
  then show "GetEntry (le_index e) l' = Inr e" using w(2,4) by (simp add: GetEntry_def)
  assume i: "snapshotIndex l \<le> i" "i \<le> LastIndex l"
  have "Offset l' i = Offset l i" using w(3) by (simp add: Offset_def)
  then show "GetEntry i l' = GetEntry i l"
    using w(2) Offset_in_range [OF a(1) i(1)] i(2) by (simp add: GetEntry_def nth_append)
qed

section \<open>Appending the entries of a leader\<close>

text \<open>
  The rule of Raft: entries that agree with the log (same index and term) are kept, the
  first one that does not replaces the rest of the log.
\<close>

fun merge :: "LogEntry list \<Rightarrow> LogEntry list \<Rightarrow> LogEntry list" where
  "merge [] ns = ns"
| "merge os [] = os"
| "merge (e # os) (n # ns) = (if le_term e = le_term n then e # merge os ns else n # ns)"

fun follows :: "u64 \<Rightarrow> LogEntry list \<Rightarrow> bool" where
  "follows p [] = True"
| "follows p (e # es) = (le_index e = p + 1 \<and> follows (p + 1) es)"

lemma merge_Nil [simp]: "merge os [] = os"
  by (cases os) auto

lemma log_wf_replace:
  assumes "log_wf l" "0 < k" "k \<le> length (entries l)" "unat (snapshotIndex l) + k < 2 ^ 64"
    "le_index e = snapshotIndex l + of_nat k"
  shows "log_wf (l\<lparr>entries := take k (entries l) @ [e]\<rparr>)"
  using assms by (auto simp: log_wf_def nth_append less_Suc_eq hd_append)

lemma AppendAll_step:
  assumes "log_wf l" "0 < k" "k \<le> length (entries l)" "unat (snapshotIndex l) + k < 2 ^ 64"
    "le_index ne = snapshotIndex l + of_nat k" "RaftLog_AppendAll J (ne # nes) l = Some l'"
  obtains l1 e where "RaftLog_AppendAll J nes l1 = Some l'" "log_wf l1" "snapshotIndex l1 = snapshotIndex l"
    "k < length (entries l1)" "take (Suc k) (entries l1) = take k (entries l) @ [e]"
    "merge (drop k (entries l)) (ne # nes) = e # merge (drop (Suc k) (entries l1)) nes"
proof -
  let ?es = "if k < length (entries l) \<and> le_term (entries l ! k) = le_term ne then entries l
    else take k (entries l) @ [ne]"
  have off: "Offset l (le_index ne) = k" unfolding assms(5) using assms(4) by (intro Offset_index) simp
  then obtain l1 where l1: "log_write J ne (l\<lparr>entries := ?es\<rparr>) = Some l1" "RaftLog_AppendAll J nes l1 = Some l'"
    using assms(3,6) by (auto simp: Let_def split: bind_splits if_splits)
  note frame = log_write_frame [OF l1(1)]
  have "log_wf (l\<lparr>entries := ?es\<rparr>)" using log_wf_replace [OF assms(1-5)] assms(1) by simp
  then have "log_wf l1" using frame log_wf_cong [of l1 "l\<lparr>entries := ?es\<rparr>"] by simp
  then show thesis
  proof (rule that [OF l1(2)])
    show "snapshotIndex l1 = snapshotIndex l" "k < length (entries l1)" using frame assms(3) by auto
    show "take (Suc k) (entries l1) = take k (entries l) @ [if k < length (entries l) \<and> le_term (entries l ! k) = le_term ne
        then entries l ! k else ne]"
      using frame assms(3) by (auto simp: take_Suc_conv_app_nth nth_append)
    show "merge (drop k (entries l)) (ne # nes) = (if k < length (entries l) \<and> le_term (entries l ! k) = le_term ne
        then entries l ! k else ne) # merge (drop (Suc k) (entries l1)) nes"
      using frame assms(3) by (cases "k < length (entries l)") (auto simp: Cons_nth_drop_Suc [symmetric])
  qed
qed

lemma AppendAll_merge_at:
  assumes "log_wf l" "0 < k" "k \<le> length (entries l)" "unat (snapshotIndex l) + k + length es \<le> 2 ^ 64"
    "follows (snapshotIndex l + of_nat k - 1) es" "RaftLog_AppendAll J es l = Some l'"
  shows "entries l' = take k (entries l) @ merge (drop k (entries l)) es \<and> log_wf l' \<and>
    snapshotIndex l' = snapshotIndex l"
  using assms
proof (induction es arbitrary: l k)
  case (Cons ne nes)
  have lt: "unat (snapshotIndex l) + k < 2 ^ 64" "le_index ne = snapshotIndex l + of_nat k"
    using Cons.prems(4,5) by auto
  from AppendAll_step [OF Cons.prems(1,2,3) lt Cons.prems(6)] obtain l1 e where
    l1: "RaftLog_AppendAll J nes l1 = Some l'" "log_wf l1" "snapshotIndex l1 = snapshotIndex l"
    "k < length (entries l1)" "take (Suc k) (entries l1) = take k (entries l) @ [e]"
    "merge (drop k (entries l)) (ne # nes) = e # merge (drop (Suc k) (entries l1)) nes"
    by blast
  have "entries l' = take (Suc k) (entries l1) @ merge (drop (Suc k) (entries l1)) nes \<and> log_wf l' \<and>
      snapshotIndex l' = snapshotIndex l1"
    using Cons.prems l1 by (intro Cons.IH) (auto simp: algebra_simps)
  then show ?case using l1 by simp
qed simp

lemma AppendAll_merge:
  assumes "log_wf l" "snapshotIndex l \<le> p" "p \<le> LastIndex l" "unat p + length es < 2 ^ 64" "follows p es"
    "RaftLog_AppendAll J es l = Some l'"
  shows "entries l' = take (Offset l p + 1) (entries l) @ merge (drop (Offset l p + 1) (entries l)) es"
    "log_wf l'" "snapshotIndex l' = snapshotIndex l"
proof -
  let ?k = "Offset l p + 1"
  have "?k \<le> length (entries l)" using Offset_in_range [OF assms(1,2)] assms(3) by simp
  moreover have "unat (snapshotIndex l) + ?k + length es \<le> 2 ^ 64"
    using assms(2,4) by (simp add: Offset_ge word_le_nat_alt)
  moreover have "snapshotIndex l + of_nat ?k - 1 = p" by (simp add: Offset_def)
  ultimately have "entries l' = take ?k (entries l) @ merge (drop ?k (entries l)) es \<and> log_wf l' \<and>
    snapshotIndex l' = snapshotIndex l"
    using assms by (intro AppendAll_merge_at) auto
  then show "entries l' = take (Offset l p + 1) (entries l) @ merge (drop (Offset l p + 1) (entries l)) es"
    "log_wf l'" "snapshotIndex l' = snapshotIndex l" by auto
qed

section \<open>Reading a range\<close>

lemma GetEntries_wf:
  assumes "log_wf l" "snapshotIndex l \<le> from"
  shows "GetEntries from to l = take (unat to - unat from) (drop (Offset l from) (entries l))"
  unfolding GetEntries_def using assms(2)
proof (induction l to "from" rule: get_entries_loop.induct)
  case (1 l to i)
  show ?case
  proof (cases "i < to \<and> Offset l i < length (entries l)")
    case True
    then have next_i: "unat (i + 1) = Suc (unat i)" using unat_next by blast
    then have "snapshotIndex l \<le> i + 1" "Offset l (i + 1) = Suc (Offset l i)"
      using "1.prems" by (auto simp: word_le_nat_alt Offset_ge)
    moreover have "unat to - unat i = Suc (unat to - unat (i + 1))"
      using True next_i by (simp add: word_less_nat_alt Suc_diff_Suc)
    ultimately show ?thesis
      using True "1.IH" by (simp add: get_entries_loop.simps [of l to i] Cons_nth_drop_Suc [symmetric])
  next
    case False
    then show ?thesis by (auto simp: get_entries_loop.simps [of l to i] word_less_nat_alt)
  qed
qed

section \<open>Snapshots\<close>

text \<open>On a log that ends before the snapshot (a fresh one, at start-up) the sentinel is all that is left.\<close>

lemma SetSnapshot_fresh:
  assumes "log_wf l" "snapshotIndex l \<le> index" "LastIndex l < index"
  shows "entries (SetSnapshot index t l) = [LogEntry_default\<lparr>le_term := t, le_index := index, le_opType := OpNoOp\<rparr>]"
    "log_wf (SetSnapshot index t l)" "LastIndex (SetSnapshot index t l) = index"
proof -
  have "\<not> Offset l index < length (entries l)" using Offset_in_range [OF assms(1,2)] assms(3) by simp
  then show es: "entries (SetSnapshot index t l) = [LogEntry_default\<lparr>le_term := t, le_index := index, le_opType := OpNoOp\<rparr>]"
    by (simp add: SetSnapshot_def Let_def)
  moreover have "unat index < 2 ^ 64" using unsigned_less [of index] by simp
  moreover have "snapshotIndex (SetSnapshot index t l) = index" "snapshotTerm (SetSnapshot index t l) = t"
    by (simp_all add: SetSnapshot_def Let_def)
  ultimately show "log_wf (SetSnapshot index t l)" "LastIndex (SetSnapshot index t l) = index"
    by (simp_all add: log_wf_def LastIndex_def)
qed

text \<open>
  On a log that holds the snapshot's index the entry at that index stays, behind the new
  sentinel, so every later lookup is off by one.
\<close>

lemma SetSnapshot_shift:
  assumes "log_wf l" "snapshotIndex l \<le> index" "index \<le> LastIndex l"
  shows "entries (SetSnapshot index t l) =
      LogEntry_default\<lparr>le_term := t, le_index := index, le_opType := OpNoOp\<rparr> # drop (Offset l index) (entries l)"
    "RaftLog_Size (SetSnapshot index t l) = unat (LastIndex l) - unat index + 1"
proof -
  have off: "Offset l index < length (entries l)" using Offset_in_range [OF assms(1,2)] assms(3) by simp
  then show "entries (SetSnapshot index t l) =
      LogEntry_default\<lparr>le_term := t, le_index := index, le_opType := OpNoOp\<rparr> # drop (Offset l index) (entries l)"
    by (simp add: SetSnapshot_def Let_def)
  then show "RaftLog_Size (SetSnapshot index t l) = unat (LastIndex l) - unat index + 1"
    using off LastIndex_wf(2) [OF assms(1)] assms(2,3)
    by (simp add: RaftLog_Size_def Offset_ge word_le_nat_alt)
qed

lemma SetSnapshot_off_by_one:
  assumes "log_wf l" "snapshotIndex l \<le> index" "index \<le> LastIndex l" "index \<le> i" "i \<le> LastIndex l" "i \<noteq> - 1"
  shows "GetEntry (i + 1) (SetSnapshot index t l) = GetEntry i l"
proof -
  have nx: "unat (i + 1) = unat i + 1" using not_max64 [OF assms(6)] by (simp add: unat_word_ariths)
  have le: "snapshotIndex l \<le> i" using assms(2,4) by simp
  have off: "Offset l i < length (entries l)" using Offset_in_range [OF assms(1) le] assms(5) by simp
  have "snapshotIndex (SetSnapshot index t l) = index" by (simp add: SetSnapshot_def Let_def)
  then have "Offset (SetSnapshot index t l) (i + 1) = Suc (unat i - unat index)"
    using assms(4) nx by (subst Offset_ge) (auto simp: word_le_nat_alt Suc_diff_le)
  moreover have "Offset l index + (unat i - unat index) = Offset l i"
    using assms(2,4) le by (simp add: Offset_ge word_le_nat_alt)
  moreover have "entries (SetSnapshot index t l) =
      LogEntry_default\<lparr>le_term := t, le_index := index, le_opType := OpNoOp\<rparr> # drop (Offset l index) (entries l)"
    using assms(1-3) by (rule SetSnapshot_shift)
  ultimately show ?thesis
    using off by (auto simp: GetEntry_def Let_def)
qed

section \<open>Durability\<close>

definition raw_of :: "'j json_ops \<Rightarrow> LogEntry \<Rightarrow> RawLogEntry" where
  "raw_of J e = \<lparr>raw_term = le_term e, raw_index = le_index e,
     raw_command = (case LogEntry_Serialize J e of Some c \<Rightarrow> c | None \<Rightarrow> [])\<rparr>"

definition entry_durable :: "'j json_ops \<Rightarrow> LogEntry \<Rightarrow> bool" where
  "entry_durable J e \<longleftrightarrow> entry_ok e \<and> rec_ok J (WEntry (raw_of J e))"

lemma raw_of_simps [simp]: "raw_index (raw_of J e) = le_index e" "raw_term (raw_of J e) = le_term e"
  by (simp_all add: raw_of_def)

text \<open>The records a log writes are those of its entries, in order.\<close>

fun log_put :: "'j json_ops \<Rightarrow> LogEntry list \<Rightarrow> WalRecord list" where
  "log_put J es = map (\<lambda>e. WEntry (raw_of J e)) es"

context json_lib
begin

lemma log_write_holds:
  assumes "rl_wal l = Some w" "wal_holds J w rs" "entry_durable J e" "wal_room (Suc n) w"
  obtains w' where "log_write J e l = Some (l\<lparr>rl_wal := Some w'\<rparr>)" "wal_holds J w' (rs @ [WEntry (raw_of J e)])"
    "wal_room n w'"
proof -
  obtain c where c: "LogEntry_Serialize J e = Some c"
    using assms(3) by (metis LogEntry_roundtrip entry_durable_def)
  then have "\<lparr>raw_term = le_term e, raw_index = le_index e, raw_command = c\<rparr> = raw_of J e" by (simp add: raw_of_def)
  moreover obtain w' where "wal_write J (WEntry (raw_of J e)) w = Some w'" "wal_holds J w' (rs @ [WEntry (raw_of J e)])"
      "wal_room n w'"
    using wl.put_holds [OF assms(2) _ assms(4), of "WEntry (raw_of J e)"] assms(3) by (auto simp: entry_durable_def)
  ultimately show ?thesis using that assms(1) c by (simp add: log_write_def)
qed

lemma AppendAll_holds:
  assumes "rl_wal l = Some w" "wal_holds J w rs" "list_all (entry_durable J) es" "wal_room (length es + n) w"
  shows "\<exists>l' w'. RaftLog_AppendAll J es l = Some l' \<and> rl_wal l' = Some w' \<and> wal_holds J w' (rs @ log_put J es) \<and>
    wal_room n w'"
  using assms
proof (induction es arbitrary: l w rs)
  case (Cons ne nes)
  let ?off = "Offset l (le_index ne)"
  let ?es = "if ?off < length (entries l) then
      (if le_term (entries l ! ?off) \<noteq> le_term ne then take ?off (entries l) @ [ne] else entries l)
    else entries l @ [ne]"
  let ?l = "l\<lparr>entries := ?es\<rparr>"
  have prems: "rl_wal ?l = Some w" "entry_durable J ne" "wal_room (Suc (length nes + n)) w" using Cons.prems by simp_all
  from log_write_holds [OF prems(1) Cons.prems(2) prems(2,3)] obtain w1 where
    w1: "log_write J ne ?l = Some (?l\<lparr>rl_wal := Some w1\<rparr>)" "wal_holds J w1 (rs @ [WEntry (raw_of J ne)])"
      "wal_room (length nes + n) w1"
    by blast
  have "\<exists>l' w'. RaftLog_AppendAll J nes (?l\<lparr>rl_wal := Some w1\<rparr>) = Some l' \<and> rl_wal l' = Some w' \<and>
      wal_holds J w' ((rs @ [WEntry (raw_of J ne)]) @ log_put J nes) \<and> wal_room n w'"
    using w1 Cons.prems(3) by (intro Cons.IH [of _ w1]) simp_all
  then show ?case using w1(1) by (simp add: Let_def)
qed simp

lemma Append_holds:
  assumes "rl_wal l = Some w" "wal_holds J w rs" "entry_durable J e" "wal_room (Suc n) w"
  shows "\<exists>l' w'. RaftLog_Append J e l = Some l' \<and> rl_wal l' = Some w' \<and> wal_holds J w' (rs @ log_put J [e]) \<and>
    wal_room n w'"
proof -
  have "rl_wal (l\<lparr>entries := entries l @ [e]\<rparr>) = Some w" using assms(1) by simp
  from log_write_holds [OF this assms(2-4)] obtain w' where
    "log_write J e (l\<lparr>entries := entries l @ [e]\<rparr>) = Some (l\<lparr>entries := entries l @ [e], rl_wal := Some w'\<rparr>)"
    "wal_holds J w' (rs @ [WEntry (raw_of J e)])" "wal_room n w'" by auto
  then show ?thesis by (simp add: RaftLog_Append_def)
qed

end

text \<open>
  What recovery makes of a batch: everything from the batch's first index on is forgotten
  and the batch takes its place, including when the batch repeats entries the log has.
\<close>

lemma pop_from_keep: "es = [] \<or> raw_index (last es) < i \<Longrightarrow> pop_from i es = es"
  by (cases es rule: rev_cases) (auto simp: pop_from_def)

lemma pop_from_cut:
  assumes "\<forall>x \<in> set es. raw_index x < i" "\<forall>x \<in> set es'. i \<le> raw_index x"
  shows "pop_from i (es @ es') = es"
proof -
  have "dropWhile (\<lambda>x. i \<le> raw_index x) (rev es' @ rev es) = dropWhile (\<lambda>x. i \<le> raw_index x) (rev es)"
    using assms(2) by (intro dropWhile_append2) auto
  also have "\<dots> = rev es" using assms(1) by (cases es rule: rev_cases) auto
  finally show ?thesis by (simp add: pop_from_def)
qed

lemma follows_index:
  "follows p es \<Longrightarrow> unat p + length es < 2 ^ 64 \<Longrightarrow> e \<in> set es \<Longrightarrow> p < le_index e \<and> unat (le_index e) \<le> unat p + length es"
proof (induction p es rule: follows.induct)
  case (2 p e' es)
  then have "unat (p + 1) = unat p + 1" by (simp add: unat_word_ariths)
  with 2 show ?case by (auto simp: word_less_nat_alt)
qed simp

lemma follows_snoc: "follows p (es @ [e]) \<longleftrightarrow> follows p es \<and> le_index e = p + of_nat (length es) + 1"
  by (induction p es rule: follows.induct) (auto simp: algebra_simps)

lemma replay_batch:
  assumes "follows p es" "unat p + length es < 2 ^ 64" "es \<noteq> []"
  shows "rr_entries (foldl replay rr (log_put J es)) = pop_from (p + 1) (rr_entries rr) @ map (raw_of J) es"
  using assms
proof (induction es rule: rev_induct)
  case (snoc e es)
  show ?case
  proof (cases "es = []")
    case True
    with snoc.prems show ?thesis by simp
  next
    case False
    with snoc have IH: "rr_entries (foldl replay rr (log_put J es)) = pop_from (p + 1) (rr_entries rr) @ map (raw_of J) es"
      by (simp add: follows_snoc)
    have u: "unat (p + of_nat (length es) + 1) = unat p + length es + 1"
      using snoc.prems(2) by (simp add: unat_word_ariths unat_of_nat64)
    have last: "le_index e = p + of_nat (length es) + 1" using snoc.prems(1) by (simp add: follows_snoc)
    have "p < le_index (last es) \<and> unat (le_index (last es)) \<le> unat p + length es"
      using snoc.prems False by (intro follows_index) (auto simp: follows_snoc)
    then have "le_index (last es) < le_index e" using u last by (simp add: word_less_nat_alt)
    then show ?thesis using IH False by (simp add: pop_from_keep last_map)
  qed
qed simp

text \<open>The log in memory is the one a restart would read back.\<close>

definition log_durable :: "'j json_ops \<Rightarrow> RaftLog \<Rightarrow> WalRecord list \<Rightarrow> bool" where
  "log_durable J l rs \<longleftrightarrow>
     (\<exists>w. rl_wal l = Some w \<and> wal_holds J w rs) \<and>
     rr_entries (replay_all rs) = map (raw_of J) (tl (entries l))"

lemma replay_all_append: "replay_all (rs @ rs') = foldl replay (replay_all rs) rs'"
  by (simp add: replay_all_def)

lemma tl_index:
  assumes "log_wf l" "i < length (tl (entries l))"
  shows "unat (le_index (tl (entries l) ! i)) = unat (snapshotIndex l) + i + 1"
proof -
  have "Suc i < length (entries l)" using assms(2) by simp
  then have "le_index (tl (entries l) ! i) = snapshotIndex l + of_nat (Suc i)" "unat (snapshotIndex l) + Suc i < 2 ^ 64"
    using assms(1) by (auto simp: nth_tl log_wf_def simp del: of_nat_Suc)
  then show ?thesis using unat_index [of "snapshotIndex l" "Suc i"] by simp
qed

lemma recovered_batch:
  assumes "log_wf l" "log_durable J l rs" "snapshotIndex l \<le> p" "p \<le> LastIndex l" "follows p es"
    "unat p + length es < 2 ^ 64" "es \<noteq> []"
  shows "rr_entries (replay_all (rs @ log_put J es)) = map (raw_of J) (take (Offset l p) (tl (entries l)) @ es)"
proof -
  let ?old = "tl (entries l)" and ?k = "Offset l p"
  have p1: "unat (p + 1) = unat p + 1"
    using assms(6,7) by (cases es) (simp_all add: unat_word_ariths)
  have k: "unat p = unat (snapshotIndex l) + ?k" using assms(3) by (simp add: Offset_ge word_le_nat_alt)
  have "\<forall>x \<in> set (map (raw_of J) (take ?k ?old)). raw_index x < p + 1"
    using tl_index [OF assms(1)] p1 k by (auto simp: in_set_conv_nth word_less_nat_alt)
  moreover have "\<forall>x \<in> set (map (raw_of J) (drop ?k ?old)). p + 1 \<le> raw_index x"
    using tl_index [OF assms(1)] p1 k by (auto simp: in_set_conv_nth word_le_nat_alt)
  ultimately have "pop_from (p + 1) (map (raw_of J) (take ?k ?old) @ map (raw_of J) (drop ?k ?old)) =
      map (raw_of J) (take ?k ?old)"
    by (rule pop_from_cut)
  then have "pop_from (p + 1) (map (raw_of J) ?old) = map (raw_of J) (take ?k ?old)"
    by (simp flip: map_append)
  then show ?thesis
    using replay_batch [OF assms(5-7), of "replay_all rs" J] assms(2)
    by (simp add: replay_all_append log_durable_def)
qed

context json_lib
begin

lemma Append_durable:
  assumes "log_wf l" "log_durable J l rs" "le_index e = LastIndex l + 1" "LastIndex l \<noteq> - 1"
    "entry_durable J e" "length rs + 1 < 2 ^ 64"
  obtains l' where "RaftLog_Append J e l = Some l'" "log_wf l'" "entries l' = entries l @ [e]"
    "log_durable J l' (rs @ log_put J [e])"
proof -
  obtain w where w: "rl_wal l = Some w" "wal_holds J w rs" using assms(2) by (auto simp: log_durable_def)
  with Append_holds [OF w assms(5), of 0] wl.room_length [OF w(2), of 1] assms(6) obtain l' w' where
    l': "RaftLog_Append J e l = Some l'" "rl_wal l' = Some w'" "wal_holds J w' (rs @ log_put J [e])" by auto
  note wf = Append_wf [OF assms(1,3,4) l'(1)]
  have ne: "entries l \<noteq> []" using assms(1) by (simp add: log_wf_def)
  have "Offset l (LastIndex l) = length (tl (entries l))" using LastIndex_wf(3) [OF assms(1)] by simp
  moreover have "snapshotIndex l \<le> LastIndex l" using LastIndex_wf(2) [OF assms(1)] by (simp add: word_le_nat_alt)
  ultimately have "rr_entries (replay_all (rs @ log_put J [e])) = map (raw_of J) (tl (entries l) @ [e])"
    using recovered_batch [OF assms(1,2), of "LastIndex l" "[e]"] assms(3) not_max64 [OF assms(4)] by simp
  then have "log_durable J l' (rs @ log_put J [e])"
    using l' wf(2) ne by (simp add: log_durable_def)
  then show ?thesis using that l' wf by simp
qed

lemma AppendAll_memory_disk:
  assumes "log_wf l" "log_durable J l rs" "snapshotIndex l \<le> p" "p \<le> LastIndex l" "follows p es"
    "unat p + length es < 2 ^ 64" "es \<noteq> []" "list_all (entry_durable J) es" "length rs + length es < 2 ^ 64"
  obtains l' w' where "RaftLog_AppendAll J es l = Some l'" "log_wf l'"
    "tl (entries l') = take (Offset l p) (tl (entries l)) @ merge (drop (Offset l p) (tl (entries l))) es"
    "rl_wal l' = Some w'" "wal_holds J w' (rs @ log_put J es)"
    "rr_entries (replay_all (rs @ log_put J es)) = map (raw_of J) (take (Offset l p) (tl (entries l)) @ es)"
proof -
  obtain w where w: "rl_wal l = Some w" "wal_holds J w rs" using assms(2) by (auto simp: log_durable_def)
  with AppendAll_holds [OF w assms(8), of 0] wl.room_length [OF w(2), of "length es"] assms(9) obtain l' w' where
    l': "RaftLog_AppendAll J es l = Some l'" "rl_wal l' = Some w'" "wal_holds J w' (rs @ log_put J es)" by auto
  note m = AppendAll_merge [OF assms(1,3,4,6,5) l'(1)]
  have ne: "entries l \<noteq> []" using assms(1) by (simp add: log_wf_def)
  then have "tl (entries l') = take (Offset l p) (tl (entries l)) @ merge (drop (Offset l p) (tl (entries l))) es"
    unfolding m(1) by (cases "entries l") simp_all
  then show ?thesis using that l' m(2) recovered_batch [OF assms(1-7)] by blast
qed

end

text \<open>Entries of a bounded size are durable.\<close>

definition entry_fit :: "LogEntry \<Rightarrow> bool" where
  "entry_fit e \<longleftrightarrow> entry_ok e \<and> length (le_key e) + length (le_value e) + length (le_command e) < 2 ^ 26"

context json_sized
begin

lemma LogEntry_json_size:
  "dsize J (LogEntry_json J e) \<le> 400 + 6 * (length (le_key e) + length (le_value e) + length (le_command e))"
  using dsize_obj [of "[(''term'', j_u64 J (le_term e)), (''index'', j_u64 J (le_index e)),
      (''op'', j_i64 J (ucast (OpType_value (le_opType e)))),
      (''key'', j_str J (le_key e)), (''value'', j_str J (le_value e)),
      (''ttl_ms'', j_i64 J (le_ttl_ms e)), (''command'', j_str J (le_command e))]"]
    dsize_u64 [of "le_term e"] dsize_u64 [of "le_index e"] dsize_i64 [of "ucast (OpType_value (le_opType e))"]
    dsize_str [of "le_key e"] dsize_str [of "le_value e"] dsize_i64 [of "le_ttl_ms e"] dsize_str [of "le_command e"]
  by (simp add: LogEntry_json_def)

lemma entry_fit_durable: "entry_fit e \<Longrightarrow> entry_durable J e"
proof -
  assume fit: "entry_fit e"
  then obtain c where c: "LogEntry_Serialize J e = Some c" "utf8_valid c"
    using LogEntry_roundtrip by (metis entry_fit_def)
  then have "length c \<le> 400 + 6 * (length (le_key e) + length (le_value e) + length (le_command e))"
    using dump_length LogEntry_json_size [of e] by (simp add: LogEntry_Serialize_def)
  then have "rec_ok J (WEntry (raw_of J e))"
    using fit c by (intro rec_ok_entry) (simp_all add: raw_of_def entry_fit_def)
  then show ?thesis using fit by (simp add: entry_durable_def entry_fit_def)
qed

end

text \<open>A batch that reaches the end of the log, or replaces its tail, leaves the two equal.\<close>

lemma merge_covers:
  assumes "\<forall>i < length os. i < length es \<longrightarrow> le_term (os ! i) = le_term (es ! i) \<longrightarrow> os ! i = es ! i"
    "length os \<le> length es"
  shows "merge os es = es"
  using assms
proof (induction os es rule: merge.induct)
  case (3 e os n ns)
  then have "e = n" if "le_term e = le_term n" using that by force
  moreover have "merge os ns = ns" if "le_term e = le_term n"
    using that 3 by (intro "3.IH") (auto dest: spec [of _ "Suc _"])
  ultimately show ?case by auto
qed auto

section \<open>Properties\<close>

text \<open>
  C13: \<open>AppendAll\<close> of entries that follow an index in the log implements the rule of Raft:
  entries the log already has (same index and term) stay, with everything behind them; the
  first that differs replaces the rest of the log. The log stays well formed.
\<close>

theorem AppendAll_rule:
  assumes "log_wf l" "snapshotIndex l \<le> p" "p \<le> LastIndex l" "unat p + length es < 2 ^ 64" "follows p es"
    "RaftLog_AppendAll J es l = Some l'"
  shows "log_wf l' \<and> snapshotIndex l' = snapshotIndex l \<and>
    entries l' = take (Offset l p + 1) (entries l) @ merge (drop (Offset l p + 1) (entries l)) es"
  using AppendAll_merge [OF assms] by simp

definition sample_entry :: "u64 \<Rightarrow> u64 \<Rightarrow> LogEntry" where
  "sample_entry t i = LogEntry_default\<lparr>le_term := t, le_index := i\<rparr>"

definition sample_log :: "wal option \<Rightarrow> RaftLog" where
  "sample_log w = \<lparr>entries = [LogEntry_default, sample_entry 1 1, sample_entry 1 2], snapshotIndex = 0,
     snapshotTerm = 0, rl_wal = w\<rparr>"

lemma sample_log_wf: "log_wf (sample_log w)"
  by (simp add: sample_log_def log_wf_def sample_entry_def LogEntry_default_def less_Suc_eq numeral_3_eq_3 nth_Cons')

theorem AppendAll_rule_witness:
  "\<exists>l'. RaftLog_AppendAll json_text [sample_entry 2 2, sample_entry 2 3] (sample_log None) = Some l' \<and>
     entries l' = [LogEntry_default, sample_entry 1 1, sample_entry 2 2, sample_entry 2 3]"
proof -
  have "follows 1 [sample_entry 2 2, sample_entry 2 3]" by (simp add: sample_entry_def)
  moreover have "snapshotIndex (sample_log None) \<le> 1" "1 \<le> LastIndex (sample_log None)"
    by (simp_all add: sample_log_def LastIndex_def sample_entry_def)
  moreover obtain l' where
    "RaftLog_AppendAll json_text [sample_entry 2 2, sample_entry 2 3] (sample_log None) = Some l'"
    by (auto simp: sample_log_def log_write_def Let_def)
  ultimately show ?thesis
    using AppendAll_rule [OF sample_log_wf, of None 1 "[sample_entry 2 2, sample_entry 2 3]" json_text l']
    by (simp add: Offset_def sample_log_def sample_entry_def)
qed

text \<open>
  C37: memory and disk part ways on a batch that repeats what the log has: in memory the
  entries behind the batch stay, while recovery forgets everything from the batch's first
  index on and knows only the batch from there.
\<close>

theorem AppendAll_memory_and_disk:
  assumes "json_lib J" "log_wf l" "log_durable J l rs" "snapshotIndex l \<le> p" "p \<le> LastIndex l" "follows p es"
    "unat p + length es < 2 ^ 64" "es \<noteq> []" "list_all (entry_durable J) es" "length rs + length es < 2 ^ 64"
  shows "\<exists>l' w'. RaftLog_AppendAll J es l = Some l' \<and> rl_wal l' = Some w' \<and>
    tl (entries l') = take (Offset l p) (tl (entries l)) @ merge (drop (Offset l p) (tl (entries l))) es \<and>
    (\<exists>rr. Recover J w' = Inr rr \<and> rr_entries rr = map (raw_of J) (take (Offset l p) (tl (entries l)) @ es))"
proof -
  obtain l' w' where l': "RaftLog_AppendAll J es l = Some l'" "rl_wal l' = Some w'"
    "tl (entries l') = take (Offset l p) (tl (entries l)) @ merge (drop (Offset l p) (tl (entries l))) es"
    "wal_holds J w' (rs @ log_put J es)"
    "rr_entries (replay_all (rs @ log_put J es)) = map (raw_of J) (take (Offset l p) (tl (entries l)) @ es)"
    using json_lib.AppendAll_memory_disk [OF assms] by blast
  then show ?thesis using json_lib.Recover_holds [OF assms(1) l'(4)] by blast
qed

text \<open>The entry acknowledged at index 2 survives in memory and is gone after a restart.\<close>

theorem AppendAll_memory_and_disk_witness:
  "\<exists>w l' w' rr. RaftLog_AppendAll json_text [sample_entry 1 1] (sample_log (Some w)) = Some l' \<and> rl_wal l' = Some w' \<and>
     tl (entries l') = [sample_entry 1 1, sample_entry 1 2] \<and>
     Recover json_text w' = Inr rr \<and> rr_entries rr = [raw_of json_text (sample_entry 1 1)]"
proof -
  have fit: "entry_fit (sample_entry t i)" for t i
    by (simp add: sample_entry_def entry_fit_def entry_ok_def LogEntry_default_def OpType_wf_def)
  note dur = jt.entry_fit_durable [OF fit]
  let ?rs = "log_put json_text [sample_entry 1 1, sample_entry 1 2]"
  obtain w0 where w0: "wal_holds json_text w0 []" using WriteAheadLog_new_empty [of 64 json_text] by blast
  have "list_all (rec_ok json_text) ?rs" using dur by (simp add: entry_durable_def)
  moreover have "wal_room (length ?rs + 0) w0" using wal_room_length [OF w0] by simp
  ultimately obtain w where w: "wal_holds json_text w ?rs"
    using jt.wal_write_all_holds [OF w0, of ?rs 0] by auto
  have "rr_entries (replay_all ?rs) = map (raw_of json_text) [sample_entry 1 1, sample_entry 1 2]"
    by (simp add: replay_all_def RecoveryResult_default_def pop_from_def sample_entry_def word_le_nat_alt)
  then have "log_durable json_text (sample_log (Some w)) ?rs"
    using w by (simp add: log_durable_def sample_log_def)
  moreover have "snapshotIndex (sample_log (Some w)) \<le> 0" "0 \<le> LastIndex (sample_log (Some w))"
    "follows 0 [sample_entry 1 1]" "Offset (sample_log (Some w)) 0 = 0"
    by (simp_all add: sample_log_def sample_entry_def Offset_def)
  ultimately show ?thesis
    using AppendAll_memory_and_disk [OF jt.json_lib_axioms sample_log_wf, of "Some w" ?rs 0 "[sample_entry 1 1]"] dur
    by (simp add: sample_log_def) blast
qed

text \<open>
  A snapshot at an index the log holds keeps the entry at that index behind the new
  sentinel: every later lookup finds the entry of the index before, and the log counts one
  entry too many.
\<close>

theorem SetSnapshot_keeps_entry:
  assumes "log_wf l" "snapshotIndex l \<le> index" "index \<le> LastIndex l" "index \<le> i" "i \<le> LastIndex l" "i \<noteq> - 1"
  shows "GetEntry (i + 1) (SetSnapshot index t l) = GetEntry i l \<and>
    RaftLog_Size (SetSnapshot index t l) = unat (LastIndex l) - unat index + 1"
  using SetSnapshot_off_by_one [OF assms] SetSnapshot_shift(2) [OF assms(1-3)] by simp

theorem SetSnapshot_keeps_entry_witness:
  "GetEntry 2 (SetSnapshot 1 1 (sample_log None)) = Inr (sample_entry 1 1)"
proof -
  have "snapshotIndex (sample_log None) \<le> 1" "1 \<le> LastIndex (sample_log None)"
    by (simp_all add: sample_log_def LastIndex_def sample_entry_def)
  then show ?thesis
    using SetSnapshot_keeps_entry [OF sample_log_wf, of None 1 1 1]
    by (simp add: GetEntry_def sample_log_def Offset_def)
qed

text \<open>
  \<open>GetEntries(from, to)\<close> is the slice of the log from \<open>from\<close> up to \<open>to\<close> or the end of the log.
\<close>

theorem GetEntries_slice:
  assumes "log_wf l" "snapshotIndex l \<le> from"
  shows "GetEntries from to l = take (unat to - unat from) (drop (Offset l from) (entries l))"
  using assms by (rule GetEntries_wf)

theorem GetEntries_slice_witness: "GetEntries 1 9 (sample_log None) = [sample_entry 1 1, sample_entry 1 2]"
proof -
  have "snapshotIndex (sample_log None) \<le> 1" by (simp add: sample_log_def)
  from GetEntries_slice [OF sample_log_wf this, of 9] show ?thesis by (simp add: sample_log_def Offset_def)
qed

end
