(* ===== verification/RaftNode.thy ===== *)
theory RaftNode
  imports RaftLog
begin

text \<open>
  \<open>raft/RaftNode.{hpp,cpp}\<close>, \<open>raft/RaftConfig.hpp\<close> and \<open>raft/RaftState.hpp\<close>: the state of a
  Raft node and its operations. Every operation runs under the node's mutex; an operation
  that releases the mutex to wait for a peer is split there (\<open>StartElection\<close> into its
  beginning, the handling of one response and its end; \<open>ReplicateToPeer\<close> into request and
  response; \<open>Propose\<close> into the append and the result). Clock readings are arguments.
  \<open>None\<close> is an exception that leaves the operation: no caller catches it, so it ends the
  process. Where the code catches exceptions the caught case is written out.
\<close>

section \<open>Data\<close>

record RaftPeerInfo =
  pi_id :: string
  pi_host :: string
  pi_port :: u16

record RaftConfig =
  cf_nodeId :: string
  cf_peers :: "RaftPeerInfo list"
  cf_raftPort :: u16
  cf_electionTimeoutMin :: int
  cf_electionTimeoutMax :: int
  cf_heartbeatInterval :: int
  cf_rpcTimeout :: int
  cf_snapshotThreshold :: nat

definition RaftConfig_default :: RaftConfig where
  "RaftConfig_default = \<lparr>cf_nodeId = [], cf_peers = [], cf_raftPort = 2380, cf_electionTimeoutMin = 150,
     cf_electionTimeoutMax = 300, cf_heartbeatInterval = 50, cf_rpcTimeout = 50, cf_snapshotThreshold = 10000\<rparr>"

datatype RaftRole = Follower | Candidate | Leader

fun RaftRoleToString :: "RaftRole \<Rightarrow> string" where
  "RaftRoleToString Follower = ''follower''"
| "RaftRoleToString Candidate = ''candidate''"
| "RaftRoleToString Leader = ''leader''"

record ProposeResult =
  pr_ok :: bool
  pr_error :: string
  pr_index :: u64

record RaftNode =
  config :: RaftConfig
  store :: KVStore
  rlog :: RaftLog
  currentTerm :: u64
  votedFor :: string
  commitIndex :: u64
  lastApplied :: u64
  role :: RaftRole
  leaderId :: string
  nextIndex :: "(string \<times> u64) list"
  matchIndex :: "(string \<times> u64) list"
  running :: bool
  lastHeartbeat :: time

text \<open>\<open>m[k]\<close> of an \<open>unordered_map\<close>, which inserts the default for a missing key.\<close>

definition um_get :: "(string \<times> u64) list \<Rightarrow> string \<Rightarrow> u64" where
  "um_get m k = (case map_of m k of Some v \<Rightarrow> v | None \<Rightarrow> 0)"

definition nodeId :: "RaftNode \<Rightarrow> string" where
  "nodeId n = cf_nodeId (config n)"

definition peers :: "RaftNode \<Rightarrow> string list" where
  "peers n = map pi_id (cf_peers (config n))"

definition QuorumSize :: "RaftNode \<Rightarrow> nat" where
  "QuorumSize n = (length (cf_peers (config n)) + 1) div 2 + 1"

section \<open>Construction and recovery\<close>

fun recover_entries :: "'j json_ops \<Rightarrow> RawLogEntry list \<Rightarrow> RaftLog \<Rightarrow> RaftLog option" where
  "recover_entries J [] l = Some l"
| "recover_entries J (raw # raws) l =
     do { e \<leftarrow> LogEntry_Deserialize J (raw_command raw);
          l' \<leftarrow> RaftLog_Append J e l;
          recover_entries J raws l' }"

definition RaftNode_init :: "time \<Rightarrow> RaftConfig \<Rightarrow> KVStore \<Rightarrow> wal option \<Rightarrow> RaftNode" where
  "RaftNode_init now cf s w =
     \<lparr>config = cf, store = s, rlog = RaftLog_new w, currentTerm = 0, votedFor = [], commitIndex = 0,
      lastApplied = 0, role = Follower, leaderId = [], nextIndex = [], matchIndex = [], running = False,
      lastHeartbeat = now\<rparr>"

definition RaftNode_new ::
  "'j json_ops \<Rightarrow> time \<Rightarrow> RaftConfig \<Rightarrow> KVStore \<Rightarrow> wal option \<Rightarrow> RaftNode option" where
  "RaftNode_new J now cf s w =
     (let n = RaftNode_init now cf s w in
      case w of
        None \<Rightarrow> Some n
      | Some wl \<Rightarrow>
          (case Recover J wl of
             Inl _ \<Rightarrow> None
           | Inr rec \<Rightarrow>
               (let n1 = n\<lparr>currentTerm := hs_term (rr_hardState rec), votedFor := hs_votedFor (rr_hardState rec)\<rparr> in
                do { n2 \<leftarrow> (case rr_latestSnapshot rec of
                       None \<Rightarrow> Some n1
                     | Some snap \<Rightarrow>
                         do { s' \<leftarrow> RestoreSnapshot J now snap s;
                              Some (n1\<lparr>store := s',
                                rlog := SetSnapshot (rr_snapshotIndex rec) (rr_snapshotTerm rec) (rlog n1),
                                lastApplied := rr_snapshotIndex rec, commitIndex := rr_snapshotIndex rec\<rparr>) });
                     l \<leftarrow> recover_entries J (rr_entries rec) (rlog n2);
                     Some (n2\<lparr>rlog := l\<rparr>) })))"

definition RaftNode_Start :: "RaftNode \<Rightarrow> RaftNode" where
  "RaftNode_Start n = n\<lparr>running := True\<rparr>"

definition RaftNode_Stop :: "RaftNode \<Rightarrow> RaftNode" where
  "RaftNode_Stop n = (if \<not> running n then n else n\<lparr>running := False\<rparr>)"

section \<open>Elections\<close>

definition ResetElectionTimer :: "time \<Rightarrow> RaftNode \<Rightarrow> RaftNode" where
  "ResetElectionTimer now n = n\<lparr>lastHeartbeat := now\<rparr>"

definition PersistHardState :: "'j json_ops \<Rightarrow> RaftNode \<Rightarrow> RaftNode option" where
  "PersistHardState J n =
     (case rl_wal (rlog n) of
        None \<Rightarrow> Some n
      | Some w \<Rightarrow>
          do { w' \<leftarrow> WriteHardState J \<lparr>hs_term = currentTerm n, hs_votedFor = votedFor n\<rparr> w;
               Some (n\<lparr>rlog := (rlog n)\<lparr>rl_wal := Some w'\<rparr>\<rparr>) })"

text \<open>The assignments of \<open>BecomeFollower\<close> before the state is persisted.\<close>

definition follower_state :: "u64 \<Rightarrow> string \<Rightarrow> RaftNode \<Rightarrow> RaftNode" where
  "follower_state t lead n =
     n\<lparr>currentTerm := t, role := Follower, votedFor := [],
       leaderId := (if lead \<noteq> [] then lead else leaderId n)\<rparr>"

definition BecomeFollower :: "'j json_ops \<Rightarrow> time \<Rightarrow> u64 \<Rightarrow> string \<Rightarrow> RaftNode \<Rightarrow> RaftNode option" where
  "BecomeFollower J now t lead n =
     do { n' \<leftarrow> PersistHardState J (follower_state t lead n); Some (ResetElectionTimer now n') }"

text \<open>\<open>if (req.term > currentTerm_) BecomeFollower(req.term, ...)\<close> in both handlers.\<close>

definition step_up :: "'j json_ops \<Rightarrow> time \<Rightarrow> u64 \<Rightarrow> string \<Rightarrow> RaftNode \<Rightarrow> RaftNode option" where
  "step_up J now t lead n = (if currentTerm n < t then BecomeFollower J now t lead n else Some n)"

definition reset_progress :: "u64 \<Rightarrow> RaftNode \<Rightarrow> RaftNode" where
  "reset_progress lastIndex n =
     foldl (\<lambda>n p. n\<lparr>nextIndex := AList.update p (lastIndex + 1) (nextIndex n),
       matchIndex := AList.update p 0 (matchIndex n)\<rparr>) n (peers n)"

definition BecomeLeader :: "'j json_ops \<Rightarrow> RaftNode \<Rightarrow> RaftNode option" where
  "BecomeLeader J n =
     (let n1 = n\<lparr>role := Leader, leaderId := nodeId n\<rparr>;
          lastIndex = LastIndex (rlog n1);
          n2 = reset_progress lastIndex n1
      in do { noop \<leftarrow> LogEntry_NoOp J (currentTerm n2) (lastIndex + 1);
              l \<leftarrow> RaftLog_Append J noop (rlog n2);
              Some (n2\<lparr>rlog := l\<rparr>) })"

text \<open>The test of \<open>ElectionLoop\<close> after its wait, in nanoseconds.\<close>

definition election_due :: "time \<Rightarrow> int \<Rightarrow> RaftNode \<Rightarrow> bool" where
  "election_due now timeout n \<longleftrightarrow> running n \<and> role n \<noteq> Leader \<and> timeout \<le> now - lastHeartbeat n"

definition StartElection_begin :: "'j json_ops \<Rightarrow> time \<Rightarrow> RaftNode \<Rightarrow> (RaftNode \<times> RequestVoteRequest) option" where
  "StartElection_begin J now n =
     do { n1 \<leftarrow> PersistHardState J (n\<lparr>currentTerm := currentTerm n + 1, votedFor := nodeId n, role := Candidate\<rparr>);
          let n2 = n1\<lparr>lastHeartbeat := now\<rparr>;
          Some (n2, \<lparr>rv_term = currentTerm n2, rv_candidateId = nodeId n2, rv_lastLogIndex = LastIndex (rlog n2),
            rv_lastLogTerm = LastTerm (rlog n2)\<rparr>) }"

text \<open>
  One response: the node, the number of votes and whether the election is abandoned. An
  exception of \<open>BecomeFollower\<close> is caught and the loop goes on.
\<close>

definition StartElection_response ::
  "'j json_ops \<Rightarrow> time \<Rightarrow> u64 \<Rightarrow> RequestVoteResponse \<Rightarrow> RaftNode \<Rightarrow> nat \<Rightarrow> RaftNode \<times> nat \<times> bool" where
  "StartElection_response J now t resp n votes =
     (if currentTerm n < vr_term resp then
        (case BecomeFollower J now (vr_term resp) [] n of
           Some n' \<Rightarrow> (n', votes, True)
         | None \<Rightarrow> (follower_state (vr_term resp) [] n, votes, False))
      else if vr_voteGranted resp \<and> currentTerm n = t \<and> role n = Candidate then (n, votes + 1, False)
      else (n, votes, False))"

definition StartElection_end :: "'j json_ops \<Rightarrow> u64 \<Rightarrow> nat \<Rightarrow> RaftNode \<Rightarrow> RaftNode option" where
  "StartElection_end J t votes n =
     (if role n \<noteq> Candidate \<or> currentTerm n \<noteq> t then Some n
      else if QuorumSize n \<le> votes then BecomeLeader J n else Some n)"

text \<open>The whole call when nothing else runs meanwhile: \<open>None\<close> is a peer that fails to answer in time.\<close>

fun election_responses ::
  "'j json_ops \<Rightarrow> time \<Rightarrow> u64 \<Rightarrow> RequestVoteResponse option list \<Rightarrow> RaftNode \<Rightarrow> nat \<Rightarrow> RaftNode \<times> nat \<times> bool" where
  "election_responses J now t [] n votes = (n, votes, False)"
| "election_responses J now t (None # rs) n votes = election_responses J now t rs n votes"
| "election_responses J now t (Some r # rs) n votes =
     (let (n', votes', stop) = StartElection_response J now t r n votes
      in if stop then (n', votes', True) else election_responses J now t rs n' votes')"

definition StartElection ::
  "'j json_ops \<Rightarrow> time \<Rightarrow> (RequestVoteRequest \<Rightarrow> RequestVoteResponse option list) \<Rightarrow> RaftNode \<Rightarrow> RaftNode option" where
  "StartElection J now ask n =
     do { (n1, req) \<leftarrow> StartElection_begin J now n;
          let (n2, votes, stop) = election_responses J now (rv_term req) (ask req) n1 1;
          if stop then Some n2 else StartElection_end J (rv_term req) votes n2 }"

section \<open>Replication\<close>

lemma unat_prev: "unat (i - 1) < unat i" if "a < (i :: u64)"
proof -
  have "i \<noteq> 0" using that by auto
  then show ?thesis by (simp add: unat_minus_one unat_gt_0)
qed

function commit_loop :: "RaftNode \<Rightarrow> u64 \<Rightarrow> RaftNode" where
  "commit_loop n i =
     (if commitIndex n < i then
        (if GetTerm i (rlog n) \<noteq> currentTerm n then commit_loop n (i - 1)
         else if QuorumSize n \<le> 1 + length (filter (\<lambda>(_, match). i \<le> match) (matchIndex n))
              then n\<lparr>commitIndex := i\<rparr>
              else commit_loop n (i - 1))
      else n)"
  by pat_completeness auto
termination
  by (relation "measure (\<lambda>(_, i). unat i)") (auto intro: unat_prev)

declare commit_loop.simps [simp del]

definition AdvanceCommitIndex :: "RaftNode \<Rightarrow> RaftNode" where
  "AdvanceCommitIndex n = commit_loop n (LastIndex (rlog n))"

text \<open>The entries of a request: at most 100, and none beyond the first one the log cannot give.\<close>

function collect_loop :: "RaftLog \<Rightarrow> u64 \<Rightarrow> u64 \<Rightarrow> LogEntry list" where
  "collect_loop l bound i =
     (if i \<le> LastIndex l \<and> i < bound
      then (case GetEntry i l of Inl _ \<Rightarrow> [] | Inr e \<Rightarrow> e # collect_loop l bound (i + 1))
      else [])"
  by pat_completeness auto
termination
  by (relation "measure (\<lambda>(_, bound, i). unat bound - unat i)") (auto simp: unat_next word_less_nat_alt)

declare collect_loop.simps [simp del]

definition ReplicateToPeer_request :: "string \<Rightarrow> RaftNode \<Rightarrow> AppendEntriesRequest option" where
  "ReplicateToPeer_request peerId n =
     (if role n \<noteq> Leader then None
      else let next = (case map_of (nextIndex n) peerId of Some i \<Rightarrow> i | None \<Rightarrow> LastIndex (rlog n) + 1);
               prevIndex = next - 1
           in Some \<lparr>ae_term = currentTerm n, ae_leaderId = nodeId n, ae_prevLogIndex = prevIndex,
                ae_prevLogTerm = GetTerm prevIndex (rlog n), ae_entries = collect_loop (rlog n) (next + 100) next,
                ae_leaderCommit = commitIndex n\<rparr>)"

function last_in_term :: "RaftLog \<Rightarrow> u64 \<Rightarrow> u64 \<Rightarrow> u64" where
  "last_in_term l t i =
     (if snapshotIndex l < i then (if GetTerm i l = t then i else last_in_term l t (i - 1)) else 0)"
  by pat_completeness auto
termination
  by (relation "measure (\<lambda>(_, _, i). unat i)") (auto intro: unat_prev)

declare last_in_term.simps [simp del]

definition ReplicateToPeer_response ::
  "'j json_ops \<Rightarrow> time \<Rightarrow> string \<Rightarrow> AppendEntriesRequest \<Rightarrow> AppendEntriesResponse \<Rightarrow> RaftNode \<Rightarrow> RaftNode" where
  "ReplicateToPeer_response J now peerId req resp n =
     (if currentTerm n < ar_term resp then
        (case BecomeFollower J now (ar_term resp) [] n of
           Some n' \<Rightarrow> n' | None \<Rightarrow> follower_state (ar_term resp) [] n)
      else if role n \<noteq> Leader \<or> ar_term resp \<noteq> currentTerm n then n
      else if ar_success resp then
        (let newMatch = ae_prevLogIndex req + of_nat (length (ae_entries req));
             m = max (um_get (matchIndex n) peerId) newMatch
         in AdvanceCommitIndex (n\<lparr>matchIndex := AList.update peerId m (matchIndex n),
              nextIndex := AList.update peerId (m + 1) (nextIndex n)\<rparr>))
      else if 0 < ar_conflictTerm resp then
        (let lastInTerm = last_in_term (rlog n) (ar_conflictTerm resp) (LastIndex (rlog n))
         in n\<lparr>nextIndex := AList.update peerId
              (if 0 < lastInTerm then lastInTerm + 1 else ar_conflictIndex resp) (nextIndex n)\<rparr>)
      else n\<lparr>nextIndex := AList.update peerId
             (if 0 < ar_conflictIndex resp then ar_conflictIndex resp else 1) (nextIndex n)\<rparr>)"

text \<open>\<open>ReplicateToPeer\<close> and \<open>SendHeartbeatsToAll\<close> when nothing else runs meanwhile.\<close>

definition ReplicateToPeer ::
  "'j json_ops \<Rightarrow> time \<Rightarrow> (string \<Rightarrow> AppendEntriesRequest \<Rightarrow> AppendEntriesResponse option) \<Rightarrow> string \<Rightarrow> RaftNode \<Rightarrow> RaftNode" where
  "ReplicateToPeer J now send peerId n =
     (case ReplicateToPeer_request peerId n of
        None \<Rightarrow> n
      | Some req \<Rightarrow>
          (case send peerId req of None \<Rightarrow> n | Some resp \<Rightarrow> ReplicateToPeer_response J now peerId req resp n))"

definition SendHeartbeatsToAll ::
  "'j json_ops \<Rightarrow> time \<Rightarrow> (string \<Rightarrow> AppendEntriesRequest \<Rightarrow> AppendEntriesResponse option) \<Rightarrow> RaftNode \<Rightarrow> RaftNode" where
  "SendHeartbeatsToAll J now send n = foldl (\<lambda>n p. ReplicateToPeer J now send p n) n (peers n)"

section \<open>Applying committed entries\<close>

text \<open>The last component is the argument of the apply callback, if it is called.\<close>

definition ApplyEntry :: "time \<Rightarrow> LogEntry \<Rightarrow> KVStore \<Rightarrow> KVStore \<times> notification list \<times> LogEntry option" where
  "ApplyEntry now e s =
     (case le_opType e of
        OpNoOp \<Rightarrow> (s, [], None)
      | OpPut \<Rightarrow>
          (let (s', ns, _) = KVStore_Put now (le_key e) (le_value e) (le_index e)
                 (if 0 < sint (le_ttl_ms e) then Some (le_ttl_ms e) else None) s
           in (s', ns, Some e))
      | OpDelete \<Rightarrow> (let (s', ns, _) = KVStore_Delete (le_key e) (le_index e) s in (s', ns, Some e))
      | OpOther _ \<Rightarrow> (s, [], Some e))"

text \<open>
  The inner loop of \<open>ApplyLoop\<close>; \<open>clock i\<close> is the reading when entry \<open>i\<close> is applied. It stops
  early at an entry the log does not have.
\<close>

function ApplyLoop_inner :: "(u64 \<Rightarrow> time) \<Rightarrow> RaftNode \<Rightarrow> RaftNode" where
  "ApplyLoop_inner clock n =
     (if lastApplied n < commitIndex n then
        (let next = lastApplied n + 1 in
         case GetEntry next (rlog n) of
           Inl _ \<Rightarrow> n
         | Inr entry \<Rightarrow>
             ApplyLoop_inner clock (n\<lparr>store := fst (ApplyEntry (clock next) entry (store n)), lastApplied := next\<rparr>))
      else n)"
  by pat_completeness auto
termination
  by (relation "measure (\<lambda>(_, n). unat (commitIndex n) - unat (lastApplied n))")
    (auto simp: unat_next word_less_nat_alt)

declare ApplyLoop_inner.simps [simp del]

definition MaybeSnapshot :: "'j json_ops \<Rightarrow> time \<Rightarrow> RaftNode \<Rightarrow> RaftNode option" where
  "MaybeSnapshot J now n =
     (if cf_snapshotThreshold (config n) < RaftLog_Size (rlog n) then
        do { snap \<leftarrow> TakeSnapshot J now (store n);
             let snapIndex = lastApplied n;
             let snapTerm = GetTerm snapIndex (rlog n);
             l \<leftarrow> (case rl_wal (rlog n) of
                    None \<Rightarrow> Some (rlog n)
                  | Some w \<Rightarrow>
                      do { w' \<leftarrow> WriteSnapshot J snapIndex snapTerm snap w; Some ((rlog n)\<lparr>rl_wal := Some w'\<rparr>) });
             Some (n\<lparr>rlog := SetSnapshot snapIndex snapTerm l\<rparr>) }
      else Some n)"

text \<open>One turn of \<open>ApplyLoop\<close> once its wait is over.\<close>

definition ApplyLoop_turn :: "'j json_ops \<Rightarrow> (u64 \<Rightarrow> time) \<Rightarrow> time \<Rightarrow> RaftNode \<Rightarrow> RaftNode option" where
  "ApplyLoop_turn J clock now n = MaybeSnapshot J now (ApplyLoop_inner clock n)"

section \<open>Handlers\<close>

function conflict_loop :: "RaftLog \<Rightarrow> u64 \<Rightarrow> u64 \<Rightarrow> u64" where
  "conflict_loop l prevTerm ci =
     (if snapshotIndex l < ci \<and> GetTerm (ci - 1) l = prevTerm then conflict_loop l prevTerm (ci - 1) else ci)"
  by pat_completeness auto
termination
  by (relation "measure (\<lambda>(_, _, i). unat i)") (auto intro: unat_prev)

declare conflict_loop.simps [simp del]

text \<open>\<open>AppendEntriesResponse resp\<close> with its default member values and the given term.\<close>

definition AppendEntriesResponse_new :: "u64 \<Rightarrow> AppendEntriesResponse" where
  "AppendEntriesResponse_new t = \<lparr>ar_term = t, ar_success = False, ar_conflictIndex = 0, ar_conflictTerm = 0\<rparr>"

definition HandleAppendEntries ::
  "'j json_ops \<Rightarrow> time \<Rightarrow> AppendEntriesRequest \<Rightarrow> RaftNode \<Rightarrow> (RaftNode \<times> AppendEntriesResponse) option" where
  "HandleAppendEntries J now req n =
     (let resp = AppendEntriesResponse_new (currentTerm n) in
      if ae_term req < currentTerm n then Some (n, resp\<lparr>ar_success := False\<rparr>)
      else do {
        n1 \<leftarrow> step_up J now (ae_term req) (ae_leaderId req) n;
        let n2 = (ResetElectionTimer now n1)\<lparr>leaderId := ae_leaderId req\<rparr>;
        if 0 < ae_prevLogIndex req \<and> LastIndex (rlog n2) < ae_prevLogIndex req then
          Some (n2, resp\<lparr>ar_success := False, ar_conflictIndex := LastIndex (rlog n2) + 1, ar_conflictTerm := 0\<rparr>)
        else if 0 < ae_prevLogIndex req \<and> GetTerm (ae_prevLogIndex req) (rlog n2) \<noteq> ae_prevLogTerm req then
          (let prevTerm = GetTerm (ae_prevLogIndex req) (rlog n2)
           in Some (n2, resp\<lparr>ar_success := False, ar_conflictTerm := prevTerm,
                ar_conflictIndex := conflict_loop (rlog n2) prevTerm (ae_prevLogIndex req)\<rparr>))
        else do {
          l \<leftarrow> (if ae_entries req \<noteq> [] then RaftLog_AppendAll J (ae_entries req) (rlog n2) else Some (rlog n2));
          let n3 = n2\<lparr>rlog := l\<rparr>;
          let n4 = (if commitIndex n3 < ae_leaderCommit req
                    then n3\<lparr>commitIndex := min (ae_leaderCommit req) (LastIndex l)\<rparr> else n3);
          Some (n4, resp\<lparr>ar_success := True\<rparr>) } })"

definition IsLogUpToDate :: "u64 \<Rightarrow> u64 \<Rightarrow> RaftNode \<Rightarrow> bool" where
  "IsLogUpToDate lastLogIndex lastLogTerm n =
     (let myLastTerm = LastTerm (rlog n); myLastIndex = LastIndex (rlog n)
      in if lastLogTerm \<noteq> myLastTerm then myLastTerm < lastLogTerm else myLastIndex \<le> lastLogIndex)"

definition HandleRequestVote ::
  "'j json_ops \<Rightarrow> time \<Rightarrow> RequestVoteRequest \<Rightarrow> RaftNode \<Rightarrow> (RaftNode \<times> RequestVoteResponse) option" where
  "HandleRequestVote J now req n =
     (let resp = \<lparr>vr_term = currentTerm n, vr_voteGranted = False\<rparr> in
      if rv_term req < currentTerm n then Some (n, resp)
      else do {
        n1 \<leftarrow> step_up J now (rv_term req) [] n;
        let alreadyVoted = (votedFor n1 \<noteq> [] \<and> votedFor n1 \<noteq> rv_candidateId req);
        let logUpToDate = IsLogUpToDate (rv_lastLogIndex req) (rv_lastLogTerm req) n1;
        if \<not> alreadyVoted \<and> logUpToDate then do {
          n2 \<leftarrow> PersistHardState J (ResetElectionTimer now (n1\<lparr>votedFor := rv_candidateId req\<rparr>));
          Some (n2, resp\<lparr>vr_voteGranted := True\<rparr>) }
        else Some (n1, resp) })"

section \<open>Proposals\<close>

definition propose_entry :: "'j json_ops \<Rightarrow> string \<Rightarrow> string \<Rightarrow> OpType \<Rightarrow> i64 \<Rightarrow> RaftNode \<Rightarrow> LogEntry option" where
  "propose_entry J key v opt ttl n =
     (let e = LogEntry_default\<lparr>le_term := currentTerm n, le_index := LastIndex (rlog n) + 1, le_opType := opt,
            le_key := key, le_value := v, le_ttl_ms := ttl\<rparr>
      in do { c \<leftarrow> LogEntry_Serialize J e; Some (e\<lparr>le_command := c\<rparr>) })"

text \<open>The first half: a rejection, or the index of the appended entry, which the caller waits for.\<close>

definition Propose_begin ::
  "'j json_ops \<Rightarrow> string \<Rightarrow> string \<Rightarrow> OpType \<Rightarrow> i64 \<Rightarrow> RaftNode \<Rightarrow> (RaftNode \<times> (ProposeResult + u64)) option" where
  "Propose_begin J key v opt ttl n =
     (if role n \<noteq> Leader then
        Some (n, Inl \<lparr>pr_ok = False, pr_error = ''not leader (leader='' @ leaderId n @ '')'', pr_index = 0\<rparr>)
      else do { e \<leftarrow> propose_entry J key v opt ttl n;
                l \<leftarrow> RaftLog_Append J e (rlog n);
                Some (n\<lparr>rlog := l\<rparr>, Inr (le_index e)) })"

text \<open>The second half, in the state in which the wait ends (\<open>wait_until\<close> returns the value of its predicate).\<close>

definition Propose_end :: "u64 \<Rightarrow> RaftNode \<Rightarrow> ProposeResult" where
  "Propose_end index n =
     (let committed = (index \<le> lastApplied n \<or> role n \<noteq> Leader) in
      if \<not> committed then \<lparr>pr_ok = False, pr_error = ''timeout waiting for commit'', pr_index = index\<rparr>
      else if role n \<noteq> Leader then \<lparr>pr_ok = False, pr_error = ''lost leadership during proposal'', pr_index = index\<rparr>
      else \<lparr>pr_ok = True, pr_error = [], pr_index = index\<rparr>)"

section \<open>Status queries\<close>

definition IsLeader :: "RaftNode \<Rightarrow> bool" where
  "IsLeader n \<longleftrightarrow> role n = Leader"

definition GetRole :: "RaftNode \<Rightarrow> RaftRole" where
  "GetRole n = role n"

definition GetCurrentTerm :: "RaftNode \<Rightarrow> u64" where
  "GetCurrentTerm n = currentTerm n"

definition GetCommitIndex :: "RaftNode \<Rightarrow> u64" where
  "GetCommitIndex n = commitIndex n"

definition GetLeaderId :: "RaftNode \<Rightarrow> string" where
  "GetLeaderId n = leaderId n"

section \<open>Persistence of the vote\<close>

text \<open>
  What a node needs of its write-ahead log: recovery gives the current term and vote, and
  every recorded entry can be read back.
\<close>

definition rec_entry :: "'j json_ops \<Rightarrow> WalRecord \<Rightarrow> bool" where
  "rec_entry J r = (case r of WEntry raw \<Rightarrow> \<exists>e. entry_fit e \<and> raw = raw_of J e | _ \<Rightarrow> True)"

definition log_held :: "'j json_ops \<Rightarrow> RaftLog \<Rightarrow> WalRecord list \<Rightarrow> bool" where
  "log_held J l rs \<longleftrightarrow> (\<exists>w. rl_wal l = Some w \<and> wal_holds J w rs) \<and> list_all (rec_entry J) rs"

definition hard_state :: "RaftNode \<Rightarrow> HardState" where
  "hard_state n = \<lparr>hs_term = currentTerm n, hs_votedFor = votedFor n\<rparr>"

definition node_durable :: "'j json_ops \<Rightarrow> RaftNode \<Rightarrow> bool" where
  "node_durable J n \<longleftrightarrow> (\<exists>rs. log_held J (rlog n) rs \<and> rr_hardState (replay_all rs) = hard_state n)"

definition log_room :: "nat \<Rightarrow> RaftLog \<Rightarrow> bool" where
  "log_room k l = (case rl_wal l of None \<Rightarrow> True | Some w \<Rightarrow> wal_room k w)"

definition id_ok :: "string \<Rightarrow> bool" where
  "id_ok v \<longleftrightarrow> utf8_valid v \<and> length v < 2 ^ 28"

lemma id_ok_Nil [simp]: "id_ok []"
  by (simp add: id_ok_def)

lemma replay_hard:
  "rr_hardState (replay_all (rs @ [WHard hs])) = hs"
  "rr_hardState (replay_all (rs @ [WEntry e])) = rr_hardState (replay_all rs)"
  "rr_hardState (replay_all (rs @ [WSnap i t d])) = rr_hardState (replay_all rs)"
  by (simp_all add: replay_all_def)

lemma replay_hard_entries: "rr_hardState (replay_all (rs @ log_put J es)) = rr_hardState (replay_all rs)"
proof (induction es rule: rev_induct)
  case (snoc e es)
  then show ?case using replay_hard(2) [of "rs @ log_put J es"] by simp
qed simp

lemma same_wal: "rl_wal (rlog n) = w \<Longrightarrow> n\<lparr>rlog := (rlog n)\<lparr>rl_wal := w\<rparr>\<rparr> = n"
  by (cases n; cases "rlog n") auto

lemma Persist_frame:
  assumes "PersistHardState J n = Some n'"
  obtains w' where "n' = n\<lparr>rlog := (rlog n)\<lparr>rl_wal := w'\<rparr>\<rparr>"
proof (cases "rl_wal (rlog n)")
  case None
  then show ?thesis using assms that [of None] same_wal [of n None] by (simp add: PersistHardState_def)
next
  case (Some w)
  then show ?thesis using assms that by (auto simp: PersistHardState_def split: bind_splits)
qed

context json_sized
begin

lemma Persist_durable:
  assumes "log_held J (rlog n) rs" "id_ok (votedFor n)" "log_room (Suc k) (rlog n)" "PersistHardState J n = Some n'"
  shows "node_durable J n'" "log_room k (rlog n')"
proof -
  obtain w where w: "rl_wal (rlog n) = Some w" "wal_holds J w rs" "list_all (rec_entry J) rs"
    using assms(1) by (auto simp: log_held_def)
  have "rec_ok J (WHard (hard_state n))"
    using assms(2) unfolding hard_state_def id_ok_def by (intro rec_ok_hard) auto
  then obtain w' where w': "wal_write J (WHard (hard_state n)) w = Some w'" "wal_holds J w' (rs @ [WHard (hard_state n)])"
      "wal_room k w'"
    using wl.put_holds [OF w(2), of "WHard (hard_state n)" k] assms(3) w(1) by (auto simp: log_room_def)
  then have n': "n' = n\<lparr>rlog := (rlog n)\<lparr>rl_wal := Some w'\<rparr>\<rparr>"
    using assms(4) w(1) by (simp add: PersistHardState_def hard_state_def)
  then show "log_room k (rlog n')" using w' by (simp add: log_room_def)
  have "log_held J (rlog n') (rs @ [WHard (hard_state n)])"
    using w w' n' by (simp add: log_held_def rec_entry_def)
  then show "node_durable J n'"
    using n' unfolding node_durable_def by (intro exI [of _ "rs @ [WHard (hard_state n)]"]) (simp add: replay_hard hard_state_def)
qed

lemma Persist_ok:
  assumes "log_held J (rlog n) rs" "id_ok (votedFor n)" "log_room 1 (rlog n)"
  shows "\<exists>n'. PersistHardState J n = Some n'"
proof -
  obtain w where w: "rl_wal (rlog n) = Some w" "wal_holds J w rs"
    using assms(1) by (auto simp: log_held_def)
  have "rec_ok J (WHard (hard_state n))"
    using assms(2) unfolding hard_state_def id_ok_def by (intro rec_ok_hard) auto
  then show ?thesis
    using wl.put_holds [OF w(2), of "WHard (hard_state n)" 0] assms(3) w(1)
    by (auto simp: log_room_def PersistHardState_def hard_state_def)
qed

text \<open>Appending entries keeps what the log holds and leaves the recovered vote alone.\<close>

lemma Append_held:
  assumes "log_held J l rs" "entry_fit e" "log_room (Suc k) l" "RaftLog_Append J e l = Some l'"
  shows "log_held J l' (rs @ log_put J [e])" "log_room k l'"
proof -
  obtain w where w: "rl_wal l = Some w" "wal_holds J w rs" "list_all (rec_entry J) rs"
    using assms(1) by (auto simp: log_held_def)
  then show "log_held J l' (rs @ log_put J [e])" "log_room k l'"
    using Append_holds [OF w(1,2) entry_fit_durable [OF assms(2)], of k] assms(2,3,4)
    by (auto simp: log_held_def log_room_def rec_entry_def)
qed

lemma AppendAll_held:
  assumes "log_held J l rs" "list_all entry_fit es" "log_room (length es + k) l" "RaftLog_AppendAll J es l = Some l'"
  shows "log_held J l' (rs @ log_put J es)" "log_room k l'"
proof -
  obtain w where w: "rl_wal l = Some w" "wal_holds J w rs" "list_all (rec_entry J) rs"
    using assms(1) by (auto simp: log_held_def)
  have "list_all (entry_durable J) es" "list_all (rec_entry J) (log_put J es)"
    using assms(2) entry_fit_durable by (auto simp: list_all_iff rec_entry_def)
  then show "log_held J l' (rs @ log_put J es)" "log_room k l'"
    using AppendAll_holds [OF w(1,2), of es k] w assms(3,4) by (auto simp: log_held_def log_room_def)
qed

end

section \<open>The node invariant\<close>

text \<open>
  A node that is not a follower has voted for itself; vote and entries can be persisted;
  the write-ahead log knows the term and the vote.
\<close>

definition node_inv :: "'j json_ops \<Rightarrow> RaftNode \<Rightarrow> bool" where
  "node_inv J n \<longleftrightarrow>
     node_durable J n \<and> entries (rlog n) \<noteq> [] \<and> list_all entry_fit (entries (rlog n)) \<and>
     id_ok (votedFor n) \<and> id_ok (nodeId n) \<and> nodeId n \<noteq> [] \<and>
     (role n \<noteq> Follower \<longrightarrow> votedFor n = nodeId n)"

text \<open>How one operation may change term and vote: terms grow, and within a term a vote stays.\<close>

definition vote_kept :: "RaftNode \<Rightarrow> RaftNode \<Rightarrow> bool" where
  "vote_kept n n' \<longleftrightarrow>
     config n' = config n \<and>
     (currentTerm n < currentTerm n' \<or>
      currentTerm n' = currentTerm n \<and> (votedFor n \<noteq> [] \<longrightarrow> votedFor n' = votedFor n))"

lemma vote_kept_refl: "vote_kept n n"
  by (simp add: vote_kept_def)

lemma vote_kept_trans: "vote_kept n n1 \<Longrightarrow> vote_kept n1 n2 \<Longrightarrow> vote_kept n n2"
  by (auto simp: vote_kept_def)

text \<open>Operations that touch neither the vote nor the logs.\<close>

lemma node_inv_cong:
  assumes "node_inv J n" "rlog n' = rlog n" "currentTerm n' = currentTerm n" "votedFor n' = votedFor n"
    "config n' = config n" "role n' = Follower \<or> role n' = role n"
  shows "node_inv J n'"
  using assms by (auto simp: node_inv_def node_durable_def hard_state_def nodeId_def)

lemma follower_state_simps [node_simps]:
  "currentTerm (follower_state t lead n) = t" "role (follower_state t lead n) = Follower"
  "votedFor (follower_state t lead n) = []" "config (follower_state t lead n) = config n"
  "rlog (follower_state t lead n) = rlog n" "store (follower_state t lead n) = store n"
  "commitIndex (follower_state t lead n) = commitIndex n" "lastApplied (follower_state t lead n) = lastApplied n"
  by (simp_all add: follower_state_def)

lemma BecomeFollower_fields:
  assumes "BecomeFollower J now t lead n = Some n'"
  shows "currentTerm n' = t" "role n' = Follower" "votedFor n' = []" "config n' = config n"
    "entries (rlog n') = entries (rlog n)" "snapshotIndex (rlog n') = snapshotIndex (rlog n)"
    "snapshotTerm (rlog n') = snapshotTerm (rlog n)" "commitIndex n' = commitIndex n"
    "lastApplied n' = lastApplied n" "store n' = store n"
proof -
  obtain n1 where n1: "PersistHardState J (follower_state t lead n) = Some n1" "n' = ResetElectionTimer now n1"
    using assms by (auto simp: BecomeFollower_def split: bind_splits)
  from n1(1) obtain w' where "n1 = (follower_state t lead n)\<lparr>rlog := (rlog n)\<lparr>rl_wal := w'\<rparr>\<rparr>"
    by (rule Persist_frame) (simp add: node_simps)
  then show "currentTerm n' = t" "role n' = Follower" "votedFor n' = []" "config n' = config n"
    "entries (rlog n') = entries (rlog n)" "snapshotIndex (rlog n') = snapshotIndex (rlog n)"
    "snapshotTerm (rlog n') = snapshotTerm (rlog n)" "commitIndex n' = commitIndex n"
    "lastApplied n' = lastApplied n" "store n' = store n"
    using n1(2) by (simp_all add: ResetElectionTimer_def node_simps)
qed

lemma BecomeFollower_kept: "BecomeFollower J now t lead n = Some n' \<Longrightarrow> currentTerm n < t \<Longrightarrow> vote_kept n n'"
  by (simp add: vote_kept_def BecomeFollower_fields)

context json_sized
begin

lemma BecomeFollower_inv:
  assumes "node_inv J n" "log_room (Suc k) (rlog n)" "BecomeFollower J now t lead n = Some n'"
  shows "node_inv J n'" "log_room k (rlog n')"
proof -
  obtain n1 where n1: "PersistHardState J (follower_state t lead n) = Some n1" "n' = ResetElectionTimer now n1"
    using assms(3) by (auto simp: BecomeFollower_def split: bind_splits)
  obtain rs where rs: "log_held J (rlog n) rs" using assms(1) by (auto simp: node_inv_def node_durable_def)
  have "node_durable J n1" "log_room k (rlog n1)"
    using Persist_durable [of "follower_state t lead n" rs k n1] rs assms(2) n1(1) by (auto simp: node_simps)
  then show "node_inv J n'" "log_room k (rlog n')"
    using BecomeFollower_fields [OF assms(3)] n1(2) assms(1)
    by (simp_all add: node_inv_def node_durable_def hard_state_def ResetElectionTimer_def nodeId_def)
qed

lemma BecomeFollower_ok:
  assumes "node_inv J n" "log_room 1 (rlog n)"
  shows "\<exists>n'. BecomeFollower J now t lead n = Some n'"
proof -
  obtain rs where rs: "log_held J (rlog n) rs" using assms(1) by (auto simp: node_inv_def node_durable_def)
  then show ?thesis
    using Persist_ok [of "follower_state t lead n" rs] assms(2) by (auto simp: BecomeFollower_def node_simps)
qed

end

section \<open>Elections keep the invariant\<close>

lemma fold_frame:
  assumes "\<And>n p. P n \<Longrightarrow> P (f n p)" "P n"
  shows "P (foldl f n ps)"
  using assms(2) by (induction ps arbitrary: n) (auto intro: assms(1))

lemma reset_progress_frame:
  obtains ni mi where "reset_progress i n = n\<lparr>nextIndex := ni, matchIndex := mi\<rparr>"
proof -
  have "\<exists>ni mi. foldl (\<lambda>n p. n\<lparr>nextIndex := AList.update p (i + 1) (nextIndex n),
       matchIndex := AList.update p 0 (matchIndex n)\<rparr>) n ps = n\<lparr>nextIndex := ni, matchIndex := mi\<rparr>" for ps
  proof (rule fold_frame [where P = "\<lambda>m. \<exists>ni mi. m = n\<lparr>nextIndex := ni, matchIndex := mi\<rparr>"])
    fix m p assume "\<exists>ni mi. m = n\<lparr>nextIndex := ni, matchIndex := mi\<rparr>"
    then obtain ni mi where "m = n\<lparr>nextIndex := ni, matchIndex := mi\<rparr>" by blast
    then have "m\<lparr>nextIndex := AList.update p (i + 1) (nextIndex m), matchIndex := AList.update p 0 (matchIndex m)\<rparr> =
        n\<lparr>nextIndex := AList.update p (i + 1) ni, matchIndex := AList.update p 0 mi\<rparr>" by simp
    then show "\<exists>ni mi. m\<lparr>nextIndex := AList.update p (i + 1) (nextIndex m),
        matchIndex := AList.update p 0 (matchIndex m)\<rparr> = n\<lparr>nextIndex := ni, matchIndex := mi\<rparr>" by blast
  next
    have "n = n\<lparr>nextIndex := nextIndex n, matchIndex := matchIndex n\<rparr>" by simp
    then show "\<exists>ni mi. n = n\<lparr>nextIndex := ni, matchIndex := mi\<rparr>" by blast
  qed
  then show ?thesis using that by (auto simp: reset_progress_def)
qed

lemma Append_entries: "RaftLog_Append J e l = Some l' \<Longrightarrow> entries l' = entries l @ [e]"
  by (auto simp: RaftLog_Append_def dest: log_write_frame(1))

lemma LastIndex_cong: "entries l' = entries l \<Longrightarrow> LastIndex l' = LastIndex l"
  by (simp add: LastIndex_def)

lemma LastTerm_cong: "entries l' = entries l \<Longrightarrow> LastTerm l' = LastTerm l"
  by (simp add: LastTerm_def)

lemma BecomeLeader_fields:
  assumes "BecomeLeader J n = Some n'"
  obtains noop where "LogEntry_NoOp J (currentTerm n) (LastIndex (rlog n) + 1) = Some noop"
    "RaftLog_Append J noop (rlog n) = Some (rlog n')"
    "currentTerm n' = currentTerm n" "votedFor n' = votedFor n" "config n' = config n" "role n' = Leader"
    "commitIndex n' = commitIndex n" "lastApplied n' = lastApplied n" "store n' = store n" "leaderId n' = nodeId n"
proof -
  let ?n1 = "n\<lparr>role := Leader, leaderId := nodeId n\<rparr>"
  obtain ni mi where r: "reset_progress (LastIndex (rlog n)) ?n1 = ?n1\<lparr>nextIndex := ni, matchIndex := mi\<rparr>"
    by (rule reset_progress_frame)
  with assms obtain noop l where "LogEntry_NoOp J (currentTerm n) (LastIndex (rlog n) + 1) = Some noop"
    "RaftLog_Append J noop (rlog n) = Some l" "n' = ?n1\<lparr>nextIndex := ni, matchIndex := mi, rlog := l\<rparr>"
    by (auto simp: BecomeLeader_def Let_def split: bind_splits)
  then show ?thesis using that by simp
qed

lemma node_inv_log:
  assumes "node_inv J n" "log_held J (rlog n') rs" "rr_hardState (replay_all rs) = hard_state n"
    "entries (rlog n') \<noteq> []" "list_all entry_fit (entries (rlog n'))"
    "currentTerm n' = currentTerm n" "votedFor n' = votedFor n" "config n' = config n"
    "role n' \<noteq> Follower \<Longrightarrow> votedFor n = nodeId n"
  shows "node_inv J n'"
  using assms by (auto simp: node_inv_def node_durable_def hard_state_def nodeId_def)

context json_sized
begin

lemma NoOp_fit:
  assumes "LogEntry_NoOp J t i = Some e" shows "entry_fit e" "le_term e = t" "le_index e = i"
proof -
  let ?v = "j_obj J [(''op'', j_str J ''noop'')]"
  have "built J ?v" by (rule built_obj) (auto intro: built_intros)
  then obtain s where s: "j_dump J ?v = Some s" "utf8_valid s" by (rule dumpE)
  moreover have "length s < 2 ^ 26"
    using dump_length [OF s(1)] dsize_obj [of "[(''op'', j_str J ''noop'')]"] dsize_str [of "''noop''"] by simp
  ultimately show "entry_fit e" "le_term e = t" "le_index e = i"
    using assms by (auto simp: LogEntry_NoOp_def LogEntry_default_def entry_fit_def entry_ok_def OpType_wf_def)
qed

lemma StartElection_begin_inv:
  assumes "node_inv J n" "log_room (Suc k) (rlog n)" "StartElection_begin J now n = Some (n', req)"
  shows "node_inv J n'" "log_room k (rlog n')" "currentTerm n' = currentTerm n + 1" "votedFor n' = nodeId n"
    "role n' = Candidate" "config n' = config n" "entries (rlog n') = entries (rlog n)"
    "rv_term req = currentTerm n'" "rv_candidateId req = nodeId n"
    "rv_lastLogIndex req = LastIndex (rlog n)" "rv_lastLogTerm req = LastTerm (rlog n)"
proof -
  let ?m = "n\<lparr>currentTerm := currentTerm n + 1, votedFor := nodeId n, role := Candidate\<rparr>"
  obtain n1 where n1: "PersistHardState J ?m = Some n1" and n': "n' = n1\<lparr>lastHeartbeat := now\<rparr>"
    and req: "req = \<lparr>rv_term = currentTerm n', rv_candidateId = nodeId n', rv_lastLogIndex = LastIndex (rlog n'),
      rv_lastLogTerm = LastTerm (rlog n')\<rparr>"
    using assms(3) by (auto simp: StartElection_begin_def Let_def split: bind_splits)
  obtain w' where w': "n1 = ?m\<lparr>rlog := (rlog n)\<lparr>rl_wal := w'\<rparr>\<rparr>" using n1 by (rule Persist_frame) simp
  obtain rs where rs: "log_held J (rlog n) rs" using assms(1) by (auto simp: node_inv_def node_durable_def)
  have "node_durable J n1" "log_room k (rlog n1)"
    using Persist_durable [of ?m rs k n1] rs assms(1,2) n1 by (auto simp: node_inv_def)
  then show "node_inv J n'" "log_room k (rlog n')"
    using assms(1) n' w' by (auto simp: node_inv_def node_durable_def hard_state_def nodeId_def)
  show "currentTerm n' = currentTerm n + 1" "votedFor n' = nodeId n" "role n' = Candidate" "config n' = config n"
    "entries (rlog n') = entries (rlog n)" "rv_term req = currentTerm n'" "rv_candidateId req = nodeId n"
    "rv_lastLogIndex req = LastIndex (rlog n)" "rv_lastLogTerm req = LastTerm (rlog n)"
    using n' w' req by (simp_all add: nodeId_def LastIndex_def LastTerm_def)
qed

lemma StartElection_response_inv:
  assumes "node_inv J n" "log_room (Suc k) (rlog n)" "StartElection_response J now t resp n votes = (n', votes', stop)"
  shows "node_inv J n'" "log_room k (rlog n')" "vote_kept n n'" "entries (rlog n') = entries (rlog n)"
    "(role n' = Follower \<and> currentTerm n < currentTerm n' \<and> votes' = votes \<and> stop) \<or>
     (n' = n \<and> votes' = votes) \<or>
     (n' = n \<and> votes' = votes + 1 \<and> vr_voteGranted resp \<and> currentTerm n = t \<and> role n = Candidate)"
proof -
  have room: "log_room 1 (rlog n)" "log_room k (rlog n)"
    using assms(2) by (auto simp: log_room_def elim: wal_room_mono split: option.splits)
  have "node_inv J n' \<and> log_room k (rlog n') \<and> vote_kept n n' \<and> entries (rlog n') = entries (rlog n) \<and>
    ((role n' = Follower \<and> currentTerm n < currentTerm n' \<and> votes' = votes \<and> stop) \<or>
     (n' = n \<and> votes' = votes) \<or>
     (n' = n \<and> votes' = votes + 1 \<and> vr_voteGranted resp \<and> currentTerm n = t \<and> role n = Candidate))"
  proof (cases "currentTerm n < vr_term resp")
    case True
    obtain m where m: "BecomeFollower J now (vr_term resp) [] n = Some m"
      using BecomeFollower_ok [OF assms(1) room(1)] by blast
    then have "n' = m" "votes' = votes" "stop" using assms(3) True by (auto simp: StartElection_response_def)
    then show ?thesis
      using BecomeFollower_inv [OF assms(1,2) m] BecomeFollower_kept [OF m True] BecomeFollower_fields [OF m] True by simp
  next
    case False
    then show ?thesis
      using assms(1,3) room(2) vote_kept_refl by (auto simp: StartElection_response_def split: if_splits)
  qed
  then show "node_inv J n'" "log_room k (rlog n')" "vote_kept n n'" "entries (rlog n') = entries (rlog n)"
    "(role n' = Follower \<and> currentTerm n < currentTerm n' \<and> votes' = votes \<and> stop) \<or>
     (n' = n \<and> votes' = votes) \<or>
     (n' = n \<and> votes' = votes + 1 \<and> vr_voteGranted resp \<and> currentTerm n = t \<and> role n = Candidate)"
    by simp_all
qed

lemma BecomeLeader_inv:
  assumes "node_inv J n" "log_room (Suc k) (rlog n)" "role n = Candidate" "BecomeLeader J n = Some n'"
  shows "node_inv J n'" "log_room k (rlog n')"
proof -
  obtain noop where noop: "LogEntry_NoOp J (currentTerm n) (LastIndex (rlog n) + 1) = Some noop"
    "RaftLog_Append J noop (rlog n) = Some (rlog n')"
    "currentTerm n' = currentTerm n" "votedFor n' = votedFor n" "config n' = config n"
    using assms(4) by (rule BecomeLeader_fields)
  obtain rs where rs: "log_held J (rlog n) rs" "rr_hardState (replay_all rs) = hard_state n"
    using assms(1) by (auto simp: node_inv_def node_durable_def)
  note held = Append_held [OF rs(1) NoOp_fit(1) [OF noop(1)] assms(2) noop(2)]
  show "log_room k (rlog n')" by (rule held(2))
  show "node_inv J n'"
    using assms(1,3) noop(3-5) Append_entries [OF noop(2)] NoOp_fit(1) [OF noop(1)] rs(2)
    by (intro node_inv_log [OF assms(1) held(1)]) (auto simp: node_inv_def replay_hard_entries simp del: log_put.simps)
qed

lemma StartElection_end_inv:
  assumes "node_inv J n" "log_room (Suc k) (rlog n)" "StartElection_end J t votes n = Some n'"
  shows "node_inv J n'" "log_room k (rlog n')" "currentTerm n' = currentTerm n" "votedFor n' = votedFor n"
    "config n' = config n" "n' = n \<or> role n' = Leader \<and> role n = Candidate \<and> currentTerm n = t \<and> QuorumSize n \<le> votes"
proof -
  have room: "log_room k (rlog n)"
    using assms(2) by (auto simp: log_room_def elim: wal_room_mono split: option.splits)
  have "node_inv J n' \<and> log_room k (rlog n') \<and> currentTerm n' = currentTerm n \<and> votedFor n' = votedFor n \<and>
    config n' = config n \<and> (n' = n \<or> role n' = Leader \<and> role n = Candidate \<and> currentTerm n = t \<and> QuorumSize n \<le> votes)"
  proof (cases "role n = Candidate \<and> currentTerm n = t \<and> QuorumSize n \<le> votes")
    case True
    then have l: "BecomeLeader J n = Some n'" using assms(3) by (simp add: StartElection_end_def)
    obtain noop where noop: "currentTerm n' = currentTerm n" "votedFor n' = votedFor n" "config n' = config n"
        "role n' = Leader"
      using l by (rule BecomeLeader_fields)
    then show ?thesis using BecomeLeader_inv [OF assms(1,2) _ l] True by simp
  next
    case False
    then show ?thesis using assms(1,3) room by (auto simp: StartElection_end_def split: if_splits)
  qed
  then show "node_inv J n'" "log_room k (rlog n')" "currentTerm n' = currentTerm n" "votedFor n' = votedFor n"
    "config n' = config n" "n' = n \<or> role n' = Leader \<and> role n = Candidate \<and> currentTerm n = t \<and> QuorumSize n \<le> votes"
    by simp_all
qed

end

section \<open>Handlers keep the invariant\<close>

lemma log_room_mono: "log_room k l \<Longrightarrow> j \<le> k \<Longrightarrow> log_room j l"
  by (auto simp: log_room_def elim: wal_room_mono split: option.splits)

lemma AppendAll_entries:
  "RaftLog_AppendAll J es l = Some l' \<Longrightarrow> set (entries l') \<subseteq> set (entries l) \<union> set es"
proof (induction es arbitrary: l)
  case (Cons ne nes)
  let ?off = "Offset l (le_index ne)"
  let ?es = "if ?off < length (entries l) then
      (if le_term (entries l ! ?off) \<noteq> le_term ne then take ?off (entries l) @ [ne] else entries l)
    else entries l @ [ne]"
  obtain l1 where l1: "log_write J ne (l\<lparr>entries := ?es\<rparr>) = Some l1" "RaftLog_AppendAll J nes l1 = Some l'"
    using Cons.prems by (auto simp: Let_def split: bind_splits)
  have "set ?es \<subseteq> insert ne (set (entries l))" by (auto dest: in_set_takeD)
  then show ?case using Cons.IH [OF l1(2)] log_write_frame(1) [OF l1(1)] by auto
qed simp

lemma AppendAll_nonempty:
  assumes "RaftLog_AppendAll J es l = Some l'" "entries l \<noteq> []" shows "entries l' \<noteq> []"
  using assms
proof (induction es arbitrary: l)
  case (Cons ne nes)
  let ?off = "Offset l (le_index ne)"
  let ?es = "if ?off < length (entries l) then
      (if le_term (entries l ! ?off) \<noteq> le_term ne then take ?off (entries l) @ [ne] else entries l)
    else entries l @ [ne]"
  obtain l1 where l1: "log_write J ne (l\<lparr>entries := ?es\<rparr>) = Some l1" "RaftLog_AppendAll J nes l1 = Some l'"
    using Cons.prems by (auto simp: Let_def split: bind_splits)
  then show ?case using Cons.IH [OF l1(2)] log_write_frame(1) [OF l1(1)] Cons.prems(2) by simp
qed simp

lemma commit_loop_frame: "commit_loop n i = n\<lparr>commitIndex := commitIndex (commit_loop n i)\<rparr>"
proof (induction n i rule: commit_loop.induct)
  case (1 n i)
  then show ?case by (subst (1 2) commit_loop.simps) simp
qed

lemma AdvanceCommitIndex_frame:
  "rlog (AdvanceCommitIndex n) = rlog n" "currentTerm (AdvanceCommitIndex n) = currentTerm n"
  "votedFor (AdvanceCommitIndex n) = votedFor n" "config (AdvanceCommitIndex n) = config n"
  "role (AdvanceCommitIndex n) = role n" "store (AdvanceCommitIndex n) = store n"
  "lastApplied (AdvanceCommitIndex n) = lastApplied n" "matchIndex (AdvanceCommitIndex n) = matchIndex n"
  unfolding AdvanceCommitIndex_def by (subst commit_loop_frame, simp)+

text \<open>How an operation that does not elect changes the role: it steps down or stays, and stays only in its term.\<close>

definition role_kept :: "RaftNode \<Rightarrow> RaftNode \<Rightarrow> bool" where
  "role_kept n n' \<longleftrightarrow> role n' = Follower \<or> role n' = role n \<and> currentTerm n' = currentTerm n"

lemma role_kept_refl: "role_kept n n"
  by (simp add: role_kept_def)

lemmas kept_refl = vote_kept_refl role_kept_refl

lemma BecomeFollower_role: "BecomeFollower J now t lead n = Some n' \<Longrightarrow> role_kept n n'"
  by (simp add: role_kept_def BecomeFollower_fields)

lemma kept_same:
  assumes "currentTerm n' = currentTerm n" "votedFor n' = votedFor n" "config n' = config n" "role n' = role n"
  shows "vote_kept n n'" "role_kept n n'"
  using assms by (simp_all add: vote_kept_def role_kept_def)

lemma HandleAppendEntries_eq:
  assumes "currentTerm n \<le> ae_term req" "step_up J now (ae_term req) (ae_leaderId req) n = Some n1"
  shows "HandleAppendEntries J now req n =
    (let p = ae_prevLogIndex req; l = rlog n1; resp = AppendEntriesResponse_new (currentTerm n);
         n2 = n1\<lparr>lastHeartbeat := now, leaderId := ae_leaderId req\<rparr>
     in if 0 < p \<and> LastIndex l < p then
          Some (n2, resp\<lparr>ar_success := False, ar_conflictIndex := LastIndex l + 1, ar_conflictTerm := 0\<rparr>)
        else if 0 < p \<and> GetTerm p l \<noteq> ae_prevLogTerm req then
          Some (n2, resp\<lparr>ar_success := False, ar_conflictTerm := GetTerm p l,
            ar_conflictIndex := conflict_loop l (GetTerm p l) p\<rparr>)
        else Option.bind (RaftLog_AppendAll J (ae_entries req) l) (\<lambda>l'. Some
          (if commitIndex n1 < ae_leaderCommit req
           then n2\<lparr>rlog := l', commitIndex := min (ae_leaderCommit req) (LastIndex l')\<rparr> else n2\<lparr>rlog := l'\<rparr>,
           resp\<lparr>ar_success := True\<rparr>)))"
proof -
  have all: "(if ae_entries req \<noteq> [] then RaftLog_AppendAll J (ae_entries req) l else Some l) =
      RaftLog_AppendAll J (ae_entries req) l" for l by simp
  show ?thesis
    using assms(1) unfolding HandleAppendEntries_def Let_def assms(2) all
    by (simp add: ResetElectionTimer_def not_less [symmetric] cong: if_cong)
qed

text \<open>The cases of \<open>HandleAppendEntries\<close>: a stale request, a mismatch at the previous entry, an append.\<close>

lemma HandleAppendEntries_cases:
  assumes "HandleAppendEntries J now req n = Some (n', resp)"
  obtains (stale) "ae_term req < currentTerm n" "n' = n" "resp = AppendEntriesResponse_new (currentTerm n)"
  | (mismatch) n1 where "currentTerm n \<le> ae_term req"
      "step_up J now (ae_term req) (ae_leaderId req) n = Some n1"
      "n' = (ResetElectionTimer now n1)\<lparr>leaderId := ae_leaderId req\<rparr>" "\<not> ar_success resp" "0 < ae_prevLogIndex req"
      "LastIndex (rlog n1) < ae_prevLogIndex req \<or> GetTerm (ae_prevLogIndex req) (rlog n1) \<noteq> ae_prevLogTerm req"
  | (appended) n1 l where "currentTerm n \<le> ae_term req"
      "step_up J now (ae_term req) (ae_leaderId req) n = Some n1"
      "RaftLog_AppendAll J (ae_entries req) (rlog n1) = Some l"
      "n' = (ResetElectionTimer now n1)\<lparr>leaderId := ae_leaderId req, rlog := l,
        commitIndex := (if commitIndex n1 < ae_leaderCommit req then min (ae_leaderCommit req) (LastIndex l) else commitIndex n1)\<rparr>"
      "resp = (AppendEntriesResponse_new (currentTerm n))\<lparr>ar_success := True\<rparr>"
      "ae_prevLogIndex req = 0 \<or> ae_prevLogIndex req \<le> LastIndex (rlog n1) \<and> GetTerm (ae_prevLogIndex req) (rlog n1) = ae_prevLogTerm req"
proof (cases "ae_term req < currentTerm n")
  case True
  then have "HandleAppendEntries J now req n = Some (n, AppendEntriesResponse_new (currentTerm n))"
    by (simp add: HandleAppendEntries_def AppendEntriesResponse_new_def)
  with assms have "n' = n" "resp = AppendEntriesResponse_new (currentTerm n)" by auto
  with True show ?thesis by (rule stale)
next
  case False
  then have le: "currentTerm n \<le> ae_term req" by simp
  have "HandleAppendEntries J now req n = None" if "step_up J now (ae_term req) (ae_leaderId req) n = None"
    using that False by (simp add: HandleAppendEntries_def Let_def)
  then obtain n1 where n1: "step_up J now (ae_term req) (ae_leaderId req) n = Some n1"
    using assms by fastforce
  let ?p = "ae_prevLogIndex req" and ?n2 = "n1\<lparr>lastHeartbeat := now, leaderId := ae_leaderId req\<rparr>"
  note eq = assms [unfolded HandleAppendEntries_eq [OF le n1] Let_def]
  show ?thesis
  proof (cases "0 < ?p \<and> (LastIndex (rlog n1) < ?p \<or> GetTerm ?p (rlog n1) \<noteq> ae_prevLogTerm req)")
    case True
    then have "n' = ?n2" "\<not> ar_success resp" using eq by (auto split: if_splits)
    then show ?thesis using mismatch [OF le n1] True by (simp add: ResetElectionTimer_def)
  next
    case ok: False
    then have ok': "\<not> (0 < ?p \<and> LastIndex (rlog n1) < ?p)" "\<not> (0 < ?p \<and> GetTerm ?p (rlog n1) \<noteq> ae_prevLogTerm req)"
      by auto
    note eq' = eq [unfolded if_not_P [OF ok'(1)] if_not_P [OF ok'(2)]]
    then obtain l where l: "RaftLog_AppendAll J (ae_entries req) (rlog n1) = Some l"
      by (cases "RaftLog_AppendAll J (ae_entries req) (rlog n1)") auto
    let ?c = "if commitIndex n1 < ae_leaderCommit req then min (ae_leaderCommit req) (LastIndex l) else commitIndex n1"
    have "n' = ?n2\<lparr>rlog := l, commitIndex := ?c\<rparr>"
      "resp = (AppendEntriesResponse_new (currentTerm n))\<lparr>ar_success := True\<rparr>"
      using eq' [unfolded l] by (auto split: if_splits)
    moreover have "?p = 0 \<or> ?p \<le> LastIndex (rlog n1) \<and> GetTerm ?p (rlog n1) = ae_prevLogTerm req"
      using ok by (metis not_less word_gt_0)
    ultimately show ?thesis using appended [OF le n1 l] by (simp add: ResetElectionTimer_def)
  qed
qed

context json_sized
begin

lemma step_up_inv:
  assumes "node_inv J n" "log_room (Suc k) (rlog n)" "currentTerm n \<le> t"
    "step_up J now t lead n = Some n'"
  shows "node_inv J n'" "log_room k (rlog n')" "vote_kept n n'" "role_kept n n'" "currentTerm n' = t"
    "entries (rlog n') = entries (rlog n)" "snapshotIndex (rlog n') = snapshotIndex (rlog n)"
    "snapshotTerm (rlog n') = snapshotTerm (rlog n)" "commitIndex n' = commitIndex n"
    "lastApplied n' = lastApplied n" "store n' = store n"
proof -
  have "node_inv J n' \<and> log_room k (rlog n') \<and> vote_kept n n' \<and> role_kept n n' \<and> currentTerm n' = t \<and>
    entries (rlog n') = entries (rlog n) \<and> snapshotIndex (rlog n') = snapshotIndex (rlog n) \<and>
    snapshotTerm (rlog n') = snapshotTerm (rlog n) \<and> commitIndex n' = commitIndex n \<and>
    lastApplied n' = lastApplied n \<and> store n' = store n"
  proof (cases "currentTerm n < t")
    case True
    then have b: "BecomeFollower J now t lead n = Some n'" using assms(4) by (simp add: step_up_def)
    show ?thesis
      using BecomeFollower_inv [OF assms(1,2) b] BecomeFollower_kept [OF b True] BecomeFollower_role [OF b]
        BecomeFollower_fields [OF b] by simp
  next
    case False
    then show ?thesis using assms kept_refl log_room_mono [OF assms(2), of k] by (auto simp: step_up_def)
  qed
  then show "node_inv J n'" "log_room k (rlog n')" "vote_kept n n'" "role_kept n n'" "currentTerm n' = t"
    "entries (rlog n') = entries (rlog n)" "snapshotIndex (rlog n') = snapshotIndex (rlog n)"
    "snapshotTerm (rlog n') = snapshotTerm (rlog n)" "commitIndex n' = commitIndex n"
    "lastApplied n' = lastApplied n" "store n' = store n" by blast+
qed

lemma HandleRequestVote_inv:
  assumes "node_inv J n" "log_room (Suc (Suc k)) (rlog n)" "id_ok (rv_candidateId req)"
    "HandleRequestVote J now req n = Some (n', resp)"
  shows "node_inv J n'" "log_room k (rlog n')" "vote_kept n n'" "role_kept n n'"
    "entries (rlog n') = entries (rlog n)" "vr_term resp = currentTerm n"
    "vr_voteGranted resp \<Longrightarrow> currentTerm n' = rv_term req \<and> votedFor n' = rv_candidateId req"
proof -
  have "node_inv J n' \<and> log_room k (rlog n') \<and> vote_kept n n' \<and> role_kept n n' \<and> entries (rlog n') = entries (rlog n) \<and>
    vr_term resp = currentTerm n \<and>
    (vr_voteGranted resp \<longrightarrow> currentTerm n' = rv_term req \<and> votedFor n' = rv_candidateId req)"
  proof (cases "rv_term req < currentTerm n")
    case True
    then show ?thesis
      using assms kept_refl log_room_mono [OF assms(2), of k] by (auto simp: HandleRequestVote_def)
  next
    case False
    then obtain n1 where n1: "step_up J now (rv_term req) [] n = Some n1"
      using assms(4) by (auto simp: HandleRequestVote_def Let_def split: bind_splits)
    have "currentTerm n \<le> rv_term req" using False by simp
    note up = step_up_inv [OF assms(1,2) this n1]
    show ?thesis
    proof (cases "(votedFor n1 = [] \<or> votedFor n1 = rv_candidateId req) \<and>
        IsLogUpToDate (rv_lastLogIndex req) (rv_lastLogTerm req) n1")
      case True
      let ?m = "ResetElectionTimer now (n1\<lparr>votedFor := rv_candidateId req\<rparr>)"
      have m: "PersistHardState J ?m = Some n'" "resp = \<lparr>vr_term = currentTerm n, vr_voteGranted = True\<rparr>"
        using assms(4) False n1 True by (auto simp: HandleRequestVote_def Let_def split: bind_splits)
      obtain w' where n': "n' = ?m\<lparr>rlog := (rlog n1)\<lparr>rl_wal := w'\<rparr>\<rparr>"
        using m(1) by (rule Persist_frame) (simp add: ResetElectionTimer_def)
      obtain rs where "log_held J (rlog n1) rs" using up(1) by (auto simp: node_inv_def node_durable_def)
      then have "node_durable J n'" "log_room k (rlog n')"
        using Persist_durable [of ?m rs k n'] up(2) assms(3) m(1) by (auto simp: ResetElectionTimer_def)
      moreover have "vote_kept n1 n'" "role_kept n1 n'"
        using True by (auto simp: n' vote_kept_def role_kept_def ResetElectionTimer_def)
      moreover have "node_inv J n'"
        using up(1) assms(3) True calculation(1) by (auto simp: node_inv_def n' ResetElectionTimer_def nodeId_def)
      ultimately show ?thesis
        using vote_kept_trans [OF up(3)] up(4-6) m(2) by (auto simp: n' role_kept_def ResetElectionTimer_def)
    next
      case False2: False
      then have "n' = n1" "resp = \<lparr>vr_term = currentTerm n, vr_voteGranted = False\<rparr>"
        using assms(4) False n1 by (auto simp: HandleRequestVote_def Let_def split: bind_splits)
      then show ?thesis using up log_room_mono [OF up(2), of k] by simp
    qed
  qed
  then show "node_inv J n'" "log_room k (rlog n')" "vote_kept n n'" "role_kept n n'"
    "entries (rlog n') = entries (rlog n)" "vr_term resp = currentTerm n"
    "vr_voteGranted resp \<Longrightarrow> currentTerm n' = rv_term req \<and> votedFor n' = rv_candidateId req" by blast+
qed

lemma HandleAppendEntries_inv:
  assumes "node_inv J n" "log_room (Suc (length (ae_entries req) + k)) (rlog n)" "list_all entry_fit (ae_entries req)"
    "HandleAppendEntries J now req n = Some (n', resp)"
  shows "node_inv J n'" "log_room k (rlog n')" "vote_kept n n'" "role_kept n n'"
proof -
  have "node_inv J n' \<and> log_room k (rlog n') \<and> vote_kept n n' \<and> role_kept n n'"
    using assms(4)
  proof (cases rule: HandleAppendEntries_cases)
    case stale
    then show ?thesis using assms(1) kept_refl log_room_mono [OF assms(2), of k] by simp
  next
    case (mismatch n1)
    note up = step_up_inv [OF assms(1,2) mismatch(1,2)]
    have "node_inv J n'"
      by (rule node_inv_cong [OF up(1)]) (simp_all add: mismatch(3) ResetElectionTimer_def)
    then show ?thesis
      using up(3,4) log_room_mono [OF up(2), of k] mismatch(3)
      by (simp add: ResetElectionTimer_def vote_kept_def role_kept_def)
  next
    case (appended n1 l)
    note up = step_up_inv [OF assms(1,2) appended(1,2)]
    obtain rs where rs: "log_held J (rlog n1) rs" "rr_hardState (replay_all rs) = hard_state n1"
      using up(1) by (auto simp: node_inv_def node_durable_def)
    note held = AppendAll_held [OF rs(1) assms(3) up(2) appended(3)]
    have "list_all entry_fit (entries l)" "entries l \<noteq> []"
      using AppendAll_entries [OF appended(3)] AppendAll_nonempty [OF appended(3)] up(1) assms(3)
      by (auto simp: list_all_iff node_inv_def)
    then have "node_inv J n'"
      using up(1) rs(2) held(1)
      by (intro node_inv_log [OF up(1), of n' "rs @ log_put J (ae_entries req)"])
        (simp_all add: appended(4) replay_hard_entries node_inv_def ResetElectionTimer_def del: log_put.simps)
    then show ?thesis
      using held(2) up(3,4) by (simp add: appended(4) vote_kept_def role_kept_def ResetElectionTimer_def)
  qed
  then show "node_inv J n'" "log_room k (rlog n')" "vote_kept n n'" "role_kept n n'" by blast+
qed

lemma ReplicateToPeer_response_inv:
  assumes "node_inv J n" "log_room (Suc k) (rlog n)" and n'_def: "n' = ReplicateToPeer_response J now p req resp n"
  shows "node_inv J n'" "log_room k (rlog n')" "vote_kept n n'" "role_kept n n'" "entries (rlog n') = entries (rlog n)"
proof -
  have "node_inv J n' \<and> log_room k (rlog n') \<and> vote_kept n n' \<and> role_kept n n' \<and> entries (rlog n') = entries (rlog n)"
  proof (cases "currentTerm n < ar_term resp")
    case True
    obtain m where m: "BecomeFollower J now (ar_term resp) [] n = Some m"
      using BecomeFollower_ok [OF assms(1) log_room_mono [OF assms(2), of 1], of now "ar_term resp" "[]"] by auto
    then have "n' = m" using True by (simp add: n'_def ReplicateToPeer_response_def)
    then show ?thesis
      using BecomeFollower_inv [OF assms(1,2) m] BecomeFollower_kept [OF m True] BecomeFollower_role [OF m]
        BecomeFollower_fields [OF m] by simp
  next
    case False
    then have same: "rlog n' = rlog n \<and> currentTerm n' = currentTerm n \<and> votedFor n' = votedFor n \<and> config n' = config n \<and> role n' = role n"
      by (simp add: n'_def ReplicateToPeer_response_def Let_def AdvanceCommitIndex_frame)
    then have "node_inv J n'" using node_inv_cong [OF assms(1), of n'] by simp
    then show ?thesis using same kept_same [of n' n] log_room_mono [OF assms(2), of k] by simp
  qed
  then show "node_inv J n'" "log_room k (rlog n')" "vote_kept n n'" "role_kept n n'" "entries (rlog n') = entries (rlog n)"
    by blast+
qed

end

section \<open>Applying, proposing and restarting keep the invariant\<close>

lemma ApplyLoop_inner_frame:
  "config (ApplyLoop_inner clock n) = config n \<and> rlog (ApplyLoop_inner clock n) = rlog n \<and>
   currentTerm (ApplyLoop_inner clock n) = currentTerm n \<and> votedFor (ApplyLoop_inner clock n) = votedFor n \<and>
   role (ApplyLoop_inner clock n) = role n \<and> commitIndex (ApplyLoop_inner clock n) = commitIndex n"
proof (induction clock n rule: ApplyLoop_inner.induct)
  case (1 clock n)
  show ?case
  proof (cases "lastApplied n < commitIndex n")
    case True
    show ?thesis
    proof (cases "GetEntry (lastApplied n + 1) (rlog n)")
      case (Inl x)
      with True show ?thesis by (simp add: ApplyLoop_inner.simps [of clock n] Let_def)
    next
      case (Inr e)
      with True 1 [OF True refl Inr] show ?thesis
        by (simp add: ApplyLoop_inner.simps [of clock n] Let_def)
    qed
  next
    case False
    then show ?thesis by (simp add: ApplyLoop_inner.simps [of clock n])
  qed
qed

text \<open>A snapshot that fits its record, which bounds the state to half a gigabyte of text.\<close>

definition snapshot_fits :: "'j json_ops \<Rightarrow> time \<Rightarrow> KVStore \<Rightarrow> bool" where
  "snapshot_fits J now s = (case TakeSnapshot J now s of None \<Rightarrow> True | Some raw \<Rightarrow> utf8_valid raw \<and> length raw < 2 ^ 29)"

lemma entry_fit_sentinel: "entry_fit (LogEntry_default\<lparr>le_term := t, le_index := i, le_opType := OpNoOp\<rparr>)"
  by (simp add: entry_fit_def entry_ok_def LogEntry_default_def OpType_wf_def)

lemma SetSnapshot_entries:
  "set (entries (SetSnapshot i t l)) \<subseteq>
     insert (LogEntry_default\<lparr>le_term := t, le_index := i, le_opType := OpNoOp\<rparr>) (set (entries l))"
  "entries (SetSnapshot i t l) \<noteq> []" "rl_wal (SetSnapshot i t l) = rl_wal l"
  by (auto simp: SetSnapshot_def Let_def dest: in_set_dropD)

context json_sized
begin

lemma rec_ok_snap: "utf8_valid d \<Longrightarrow> length d < 2 ^ 29 \<Longrightarrow> rec_ok J (WSnap i t d)"
  using dsize_obj [of "[(''index'', j_u64 J i), (''term'', j_u64 J t), (''data'', j_str J d)]"]
    dsize_u64 [of i] dsize_u64 [of t] dsize_str [of d]
  by (simp add: rec_ok_def payload_size Snapshot_json_def)

lemma MaybeSnapshot_inv:
  assumes "node_inv J n" "log_room (Suc k) (rlog n)" "snapshot_fits J now (store n)" "MaybeSnapshot J now n = Some n'"
  shows "node_inv J n'" "log_room k (rlog n')" "vote_kept n n'" "role_kept n n'"
proof -
  have "node_inv J n' \<and> log_room k (rlog n') \<and> vote_kept n n' \<and> role_kept n n'"
  proof (cases "cf_snapshotThreshold (config n) < RaftLog_Size (rlog n)")
    case True
    obtain rs w where w: "rl_wal (rlog n) = Some w" "wal_holds J w rs" "list_all (rec_entry J) rs"
        "rr_hardState (replay_all rs) = hard_state n"
      using assms(1) by (auto simp: node_inv_def node_durable_def log_held_def)
    let ?i = "lastApplied n" and ?t = "GetTerm (lastApplied n) (rlog n)"
    obtain raw where raw: "TakeSnapshot J now (store n) = Some raw"
      using assms(4) True by (auto simp: MaybeSnapshot_def Let_def split: bind_splits)
    then have "rec_ok J (WSnap ?i ?t raw)" using assms(3) by (intro rec_ok_snap) (simp_all add: snapshot_fits_def)
    then obtain w' where w': "WriteSnapshot J ?i ?t raw w = Some w'" "wal_holds J w' (rs @ [WSnap ?i ?t raw])" "wal_room k w'"
      using wl.put_holds [OF w(2), of "WSnap ?i ?t raw" k] assms(2) w(1) by (auto simp: log_room_def)
    then have n': "n' = n\<lparr>rlog := SetSnapshot ?i ?t ((rlog n)\<lparr>rl_wal := Some w'\<rparr>)\<rparr>"
      using assms(4) True raw w(1) by (simp add: MaybeSnapshot_def Let_def)
    have held: "log_held J (rlog n') (rs @ [WSnap ?i ?t raw])"
      using w(3) w'(2) by (simp add: n' log_held_def SetSnapshot_entries(3) rec_entry_def)
    have "list_all entry_fit (entries (rlog n'))"
      using SetSnapshot_entries(1) [of ?i ?t "(rlog n)\<lparr>rl_wal := Some w'\<rparr>"] assms(1) entry_fit_sentinel
      by (auto simp: n' list_all_iff node_inv_def)
    then have "node_inv J n'"
      using w(4) assms(1) n' by (intro node_inv_log [OF assms(1) held])
        (auto simp: replay_hard SetSnapshot_entries node_inv_def)
    then show ?thesis
      using w'(3) by (simp add: n' log_room_def SetSnapshot_entries(3) vote_kept_def role_kept_def)
  next
    case False
    then show ?thesis
      using assms kept_refl log_room_mono [OF assms(2), of k] by (simp add: MaybeSnapshot_def)
  qed
  then show "node_inv J n'" "log_room k (rlog n')" "vote_kept n n'" "role_kept n n'" by blast+
qed

lemma ApplyLoop_turn_inv:
  assumes "node_inv J n" "log_room (Suc k) (rlog n)" "snapshot_fits J now (store (ApplyLoop_inner clock n))"
    "ApplyLoop_turn J clock now n = Some n'"
  shows "node_inv J n'" "log_room k (rlog n')" "vote_kept n n'" "role_kept n n'"
proof -
  let ?m = "ApplyLoop_inner clock n"
  note f = ApplyLoop_inner_frame [of clock n]
  have "node_inv J ?m" using node_inv_cong [OF assms(1), of ?m] f by simp
  moreover have "log_room (Suc k) (rlog ?m)" using assms(2) f by simp
  ultimately have m: "node_inv J n'" "log_room k (rlog n')" "vote_kept ?m n'" "role_kept ?m n'"
    using assms(3,4) MaybeSnapshot_inv unfolding ApplyLoop_turn_def by blast+
  then show "node_inv J n'" "log_room k (rlog n')" "vote_kept n n'" "role_kept n n'"
    using f by (simp_all add: vote_kept_def role_kept_def)
qed

lemma propose_entry_fit:
  assumes "propose_entry J key v opt ttl n = Some e" "utf8_valid key" "utf8_valid v" "OpType_wf opt"
    "length key + length v < 2 ^ 22"
  shows "entry_fit e" "le_term e = currentTerm n" "le_index e = LastIndex (rlog n) + 1"
    "le_key e = key" "le_value e = v" "le_opType e = opt" "le_ttl_ms e = ttl"
proof -
  let ?e = "LogEntry_default\<lparr>le_term := currentTerm n, le_index := LastIndex (rlog n) + 1, le_opType := opt,
      le_key := key, le_value := v, le_ttl_ms := ttl\<rparr>"
  obtain c where c: "LogEntry_Serialize J ?e = Some c" "e = ?e\<lparr>le_command := c\<rparr>"
    using assms(1) by (auto simp: propose_entry_def Let_def split: bind_splits)
  have ok: "entry_ok ?e" using assms(2-4) by (simp add: entry_ok_def LogEntry_default_def)
  obtain c' where "LogEntry_Serialize J ?e = Some c'" "utf8_valid c'" using ok by (rule LogEntry_roundtrip)
  with c(1) have "utf8_valid c" by simp
  moreover have "length c \<le> 400 + 6 * (length key + length v)"
    using LogEntry_json_size [of ?e] dump_length c(1) by (simp add: LogEntry_Serialize_def LogEntry_default_def)
  ultimately show "entry_fit e"
    using ok assms(5) by (simp add: c(2) entry_fit_def entry_ok_def)
  show "le_term e = currentTerm n" "le_index e = LastIndex (rlog n) + 1"
    "le_key e = key" "le_value e = v" "le_opType e = opt" "le_ttl_ms e = ttl" by (simp_all add: c(2))
qed

lemma Propose_begin_inv:
  assumes "node_inv J n" "log_room (Suc k) (rlog n)" "utf8_valid key" "utf8_valid v" "OpType_wf opt"
    "length key + length v < 2 ^ 22" "Propose_begin J key v opt ttl n = Some (n', r)"
  shows "node_inv J n'" "log_room k (rlog n')" "vote_kept n n'" "role_kept n n'"
proof -
  have "node_inv J n' \<and> log_room k (rlog n') \<and> vote_kept n n' \<and> role_kept n n'"
  proof (cases "role n = Leader")
    case True
    then obtain e l where e: "propose_entry J key v opt ttl n = Some e" "RaftLog_Append J e (rlog n) = Some l"
        "n' = n\<lparr>rlog := l\<rparr>"
      using assms(7) by (auto simp: Propose_begin_def split: bind_splits)
    note fit = propose_entry_fit(1) [OF e(1) assms(3-6)]
    obtain rs where rs: "log_held J (rlog n) rs" "rr_hardState (replay_all rs) = hard_state n"
      using assms(1) by (auto simp: node_inv_def node_durable_def)
    note held = Append_held [OF rs(1) fit assms(2) e(2)]
    have "node_inv J n'"
      using assms(1) rs(2) held(1) Append_entries [OF e(2)] fit
      by (intro node_inv_log [OF assms(1), of n' "rs @ log_put J [e]"])
        (auto simp: e(3) replay_hard_entries node_inv_def simp del: log_put.simps)
    then show ?thesis using held(2) by (simp add: e(3) vote_kept_def role_kept_def)
  next
    case False
    then show ?thesis
      using assms(1,7) kept_refl log_room_mono [OF assms(2), of k] by (auto simp: Propose_begin_def)
  qed
  then show "node_inv J n'" "log_room k (rlog n')" "vote_kept n n'" "role_kept n n'" by blast+
qed

text \<open>A restart: the node comes back as a follower with the term and vote it had.\<close>

lemma Deserialize_raw: "entry_fit e \<Longrightarrow> LogEntry_Deserialize J (raw_command (raw_of J e)) = Some e"
proof -
  assume "entry_fit e"
  then have "entry_ok e" by (simp add: entry_fit_def)
  then obtain c where "LogEntry_Serialize J e = Some c" "LogEntry_Deserialize J c = Some e" by (rule LogEntry_roundtrip)
  then show ?thesis by (simp add: raw_of_def)
qed

lemma recover_entries_inv:
  assumes "recover_entries J raws l = Some l'" "log_held J l rs" "log_room (length raws + k) l"
    "\<forall>r \<in> set raws. \<exists>e. entry_fit e \<and> r = raw_of J e" "list_all entry_fit (entries l)" "entries l \<noteq> []"
  shows "\<exists>es. log_held J l' (rs @ log_put J es) \<and> log_room k l' \<and> list_all entry_fit (entries l') \<and> entries l' \<noteq> []"
  using assms
proof (induction raws arbitrary: l rs)
  case Nil
  then show ?case by (intro exI [of _ "[]"]) simp
next
  case (Cons raw raws)
  obtain e where e: "entry_fit e" "raw = raw_of J e" using Cons.prems(4) by auto
  then obtain l1 where l1: "RaftLog_Append J e l = Some l1" "recover_entries J raws l1 = Some l'"
    using Cons.prems(1) by (auto simp: Deserialize_raw split: bind_splits)
  have "log_room (Suc (length raws + k)) l" using Cons.prems(3) by simp
  note held = Append_held [OF Cons.prems(2) e(1) this l1(1)]
  obtain es where "log_held J l' ((rs @ log_put J [e]) @ log_put J es)" "log_room k l'" "list_all entry_fit (entries l')"
      "entries l' \<noteq> []"
    using Cons.IH [OF l1(2) held] Cons.prems(4,5) Append_entries [OF l1(1)] e(1) by auto
  then show ?case by (intro exI [of _ "e # es"]) simp
qed

end

lemma replay_entries: "set (rr_entries (foldl replay rr rs)) \<subseteq> set (rr_entries rr) \<union> {raw. WEntry raw \<in> set rs}"
proof (induction rs arbitrary: rr)
  case (Cons r rs)
  have "set (pop_from i es) \<subseteq> set es" for i and es :: "RawLogEntry list"
    by (auto simp: pop_from_def dest: set_dropWhileD)
  then show ?case using Cons.IH [of "replay rr r"] by (cases r) fastforce+
qed simp

lemma replay_all_entries: "set (rr_entries (replay_all rs)) \<subseteq> {raw. WEntry raw \<in> set rs}"
  using replay_entries [of RecoveryResult_default rs] by (simp add: replay_all_def RecoveryResult_default_def)

context json_sized
begin

lemma RaftNode_new_inv:
  assumes "wal_holds J w rs" "list_all (rec_entry J) rs" "wal_room (length (rr_entries (replay_all rs)) + k) w"
    "id_ok (hs_votedFor (rr_hardState (replay_all rs)))" "id_ok (cf_nodeId cf)" "cf_nodeId cf \<noteq> []"
    "RaftNode_new J now cf s (Some w) = Some n"
  shows "node_inv J n" "log_room k (rlog n)" "hard_state n = rr_hardState (replay_all rs)" "role n = Follower"
    "config n = cf"
proof -
  let ?rec = "replay_all rs"
  let ?l0 = "RaftLog_new (Some w)"
  have "\<exists>l0. (l0 = ?l0 \<or> (\<exists>i t. l0 = SetSnapshot i t ?l0)) \<and> recover_entries J (rr_entries ?rec) l0 = Some (rlog n) \<and>
      hard_state n = rr_hardState ?rec \<and> role n = Follower \<and> config n = cf"
  proof (cases "rr_latestSnapshot ?rec")
    case None
    then show ?thesis
      using assms(7) Recover_holds [OF assms(1)]
      by (intro exI [of _ ?l0]) (auto simp: RaftNode_new_def RaftNode_init_def Let_def hard_state_def split: bind_splits)
  next
    case (Some snap)
    then show ?thesis
      using assms(7) Recover_holds [OF assms(1)]
      by (intro exI [of _ "SetSnapshot (rr_snapshotIndex ?rec) (rr_snapshotTerm ?rec) ?l0"])
        (auto simp: RaftNode_new_def RaftNode_init_def Let_def hard_state_def split: bind_splits)
  qed
  then obtain l0 where l0: "l0 = ?l0 \<or> (\<exists>i t. l0 = SetSnapshot i t ?l0)"
      "recover_entries J (rr_entries ?rec) l0 = Some (rlog n)"
    and n: "hard_state n = rr_hardState ?rec" "role n = Follower" "config n = cf" by blast
  have "log_held J l0 rs" "log_room (length (rr_entries ?rec) + k) l0"
    using l0(1) assms(1-3) by (auto simp: log_held_def log_room_def RaftLog_new_def SetSnapshot_entries(3))
  moreover have "list_all entry_fit (entries ?l0)" "entries ?l0 \<noteq> []"
    using entry_fit_sentinel by (simp_all add: RaftLog_new_def)
  then have "list_all entry_fit (entries l0)" "entries l0 \<noteq> []"
    using l0(1) SetSnapshot_entries entry_fit_sentinel by (fastforce simp: list_all_iff)+
  moreover have "\<forall>r \<in> set (rr_entries ?rec). \<exists>e. entry_fit e \<and> r = raw_of J e"
    using replay_all_entries [of rs] assms(2) by (fastforce simp: list_all_iff rec_entry_def)
  ultimately obtain es where l: "log_held J (rlog n) (rs @ log_put J es)" "log_room k (rlog n)"
      "list_all entry_fit (entries (rlog n))" "entries (rlog n) \<noteq> []"
    using recover_entries_inv [OF l0(2)] by blast
  then have "node_durable J n"
    using n unfolding node_durable_def by (intro exI [of _ "rs @ log_put J es"]) (simp add: replay_hard_entries del: log_put.simps)
  moreover have "votedFor n = hs_votedFor (rr_hardState ?rec)" using n(1) by (metis HardState.select_convs(2) hard_state_def)
  ultimately show "node_inv J n"
    using l n assms(4-6) by (auto simp: node_inv_def nodeId_def)
  show "log_room k (rlog n)" "hard_state n = rr_hardState ?rec" "role n = Follower" "config n = cf"
    using l n by simp_all
qed

end

section \<open>Commitment\<close>

text \<open>The condition under which \<open>AdvanceCommitIndex\<close> commits index \<open>i\<close>.\<close>

definition committable :: "RaftNode \<Rightarrow> u64 \<Rightarrow> bool" where
  "committable n i \<longleftrightarrow> GetTerm i (rlog n) = currentTerm n \<and>
     QuorumSize n \<le> 1 + length (filter (\<lambda>(_, match). i \<le> match) (matchIndex n))"

lemma commit_loop_spec:
  "commitIndex n \<le> commitIndex (commit_loop n i) \<and>
   (commitIndex (commit_loop n i) = commitIndex n \<or>
     commitIndex (commit_loop n i) \<le> i \<and> committable n (commitIndex (commit_loop n i))) \<and>
   (\<forall>j. commitIndex (commit_loop n i) < j \<longrightarrow> j \<le> i \<longrightarrow> \<not> committable n j)"
proof (induction n i rule: commit_loop.induct)
  case (1 n i)
  show ?case
  proof (cases "commitIndex n < i \<and> \<not> committable n i")
    case True
    then have eq: "commit_loop n i = commit_loop n (i - 1)"
      by (subst commit_loop.simps) (auto simp: committable_def)
    have IH: "commitIndex n \<le> commitIndex (commit_loop n (i - 1)) \<and>
      (commitIndex (commit_loop n (i - 1)) = commitIndex n \<or>
        commitIndex (commit_loop n (i - 1)) \<le> i - 1 \<and> committable n (commitIndex (commit_loop n (i - 1)))) \<and>
      (\<forall>j. commitIndex (commit_loop n (i - 1)) < j \<longrightarrow> j \<le> i - 1 \<longrightarrow> \<not> committable n j)"
      using "1.IH" True by (auto simp: committable_def)
    have "i \<noteq> 0" using True by auto
    then have less: "unat (i - 1) = unat i - 1" "0 < unat i" by (simp_all add: unat_minus_one unat_gt_0)
    have le: "j \<le> i - 1" if "j \<le> i" "j \<noteq> i" for j
    proof -
      have "unat j \<noteq> unat i" using that(2) by (simp add: word_unat_eq_iff)
      with that(1) less show ?thesis by (simp add: word_le_nat_alt)
    qed
    have "i - 1 \<le> i" using less by (simp add: word_le_nat_alt)
    moreover have "\<not> committable n j" if "commitIndex (commit_loop n (i - 1)) < j" "j \<le> i" for j
      using IH True le that by (cases "j = i") auto
    ultimately show ?thesis using IH unfolding eq by (auto intro: order_trans)
  next
    case False
    show ?thesis
    proof (cases "commitIndex n < i")
      case True
      then have "commit_loop n i = n\<lparr>commitIndex := i\<rparr>"
        using False by (subst commit_loop.simps) (simp add: committable_def)
      then show ?thesis using False True by auto
    next
      case le: False
      then have "commit_loop n i = n" by (subst commit_loop.simps) simp
      then show ?thesis using le by auto
    qed
  qed
qed

section \<open>Winning an election\<close>

lemma election_responses_count:
  assumes "role n = Candidate" "currentTerm n = t" "\<forall>r \<in> set rs. \<forall>resp. r = Some resp \<longrightarrow> vr_term resp \<le> t"
  shows "election_responses J now t rs n votes =
    (n, votes + length (filter (\<lambda>r. \<exists>resp. r = Some resp \<and> vr_voteGranted resp) rs), False)"
  using assms(3)
proof (induction rs arbitrary: votes)
  case (Cons r rs)
  show ?case
  proof (cases r)
    case (Some resp)
    then have "\<not> currentTerm n < vr_term resp" using Cons.prems assms(2) by auto
    then show ?thesis using Cons Some assms(1,2) by (auto simp: StartElection_response_def)
  qed (use Cons in simp)
qed simp

context json_sized
begin

lemma Append_ok:
  assumes "log_held J l rs" "entry_fit e" "log_room 1 l" shows "\<exists>l'. RaftLog_Append J e l = Some l'"
proof -
  obtain w where w: "rl_wal l = Some w" "wal_holds J w rs" using assms(1) by (auto simp: log_held_def)
  then show ?thesis
    using Append_holds [OF w entry_fit_durable [OF assms(2)], of 0] assms(3) by (auto simp: log_room_def)
qed

lemma StartElection_begin_ok:
  assumes "node_inv J n" "log_room 1 (rlog n)" shows "\<exists>n' req. StartElection_begin J now n = Some (n', req)"
proof -
  let ?m = "n\<lparr>currentTerm := currentTerm n + 1, votedFor := nodeId n, role := Candidate\<rparr>"
  obtain rs where rs: "log_held J (rlog n) rs" using assms(1) by (auto simp: node_inv_def node_durable_def)
  then obtain n1 where "PersistHardState J ?m = Some n1"
    using Persist_ok [of ?m rs] assms by (auto simp: node_inv_def)
  then show ?thesis by (simp add: StartElection_begin_def Let_def)
qed

lemma BecomeLeader_ok:
  assumes "node_inv J n" "log_room 1 (rlog n)" shows "\<exists>n'. BecomeLeader J n = Some n'"
proof -
  let ?v = "j_obj J [(''op'', j_str J ''noop'')]"
  have "built J ?v" by (rule built_obj) (auto intro: built_intros)
  then obtain s where "j_dump J ?v = Some s" by (rule dumpE)
  then obtain e where e: "LogEntry_NoOp J (currentTerm n) (LastIndex (rlog n) + 1) = Some e"
    by (simp add: LogEntry_NoOp_def)
  obtain rs where rs: "log_held J (rlog n) rs" using assms(1) by (auto simp: node_inv_def node_durable_def)
  obtain l' where "RaftLog_Append J e (rlog n) = Some l'"
    using Append_ok [OF rs NoOp_fit(1) [OF e] assms(2)] by blast
  moreover obtain ni mi where "reset_progress (LastIndex (rlog n)) (n\<lparr>role := Leader, leaderId := nodeId n\<rparr>) =
      n\<lparr>role := Leader, leaderId := nodeId n, nextIndex := ni, matchIndex := mi\<rparr>"
    using reset_progress_frame by blast
  ultimately show ?thesis using e by (simp add: BecomeLeader_def Let_def)
qed

lemma StartElection_outcome:
  assumes "node_inv J n" "log_room 2 (rlog n)"
    "\<And>req. \<forall>r \<in> set (ask req). \<forall>resp. r = Some resp \<longrightarrow> vr_term resp \<le> rv_term req"
  shows "\<exists>n' n1 req. StartElection_begin J now n = Some (n1, req) \<and> StartElection J now ask n = Some n' \<and>
    currentTerm n' = currentTerm n + 1 \<and> votedFor n' = nodeId n \<and>
    role n' = (if QuorumSize n \<le> 1 + length (filter (\<lambda>r. \<exists>resp. r = Some resp \<and> vr_voteGranted resp) (ask req))
               then Leader else Candidate)"
proof -
  have "log_room 1 (rlog n)" using log_room_mono [OF assms(2), of 1] by simp
  then obtain n1 req where b: "StartElection_begin J now n = Some (n1, req)"
    using StartElection_begin_ok [OF assms(1)] by blast
  have "log_room (Suc 1) (rlog n)" using assms(2) by (simp add: numeral_2_eq_2)
  note n1 = StartElection_begin_inv [OF assms(1) this b]
  let ?g = "length (filter (\<lambda>r. \<exists>resp. r = Some resp \<and> vr_voteGranted resp) (ask req))"
  have r: "election_responses J now (rv_term req) (ask req) n1 1 = (n1, 1 + ?g, False)"
    using n1(3,5,8) assms(3) [of req] by (intro election_responses_count) auto
  have q: "QuorumSize n1 = QuorumSize n" using n1(6) by (simp add: QuorumSize_def)
  have st: "StartElection J now ask n = StartElection_end J (rv_term req) (1 + ?g) n1"
    unfolding StartElection_def b using r by simp
  show ?thesis
  proof (cases "QuorumSize n \<le> 1 + ?g")
    case True
    obtain n' where n': "BecomeLeader J n1 = Some n'" using BecomeLeader_ok [OF n1(1,2)] by blast
    from n' obtain noop where "currentTerm n' = currentTerm n1" "votedFor n' = votedFor n1" "role n' = Leader"
      by (rule BecomeLeader_fields)
    then show ?thesis using b st n' True n1 q by (simp add: StartElection_end_def)
  next
    case False
    then show ?thesis using b st n1 q by (simp add: StartElection_end_def)
  qed
qed

end

section \<open>A restart\<close>

context json_sized
begin

lemma restart_node:
  assumes "node_inv J n" "rl_wal (rlog n) = Some w" "WriteAheadLog_new (w_dir w) m = Inr w'"
    "Recover J w' = Inr rec" "wal_room (length (rr_entries rec) + k) w'"
    "RaftNode_new J now (config n) KVStore_new (Some w') = Some n'"
  shows "node_inv J n'" "log_room k (rlog n')" "currentTerm n' = currentTerm n" "votedFor n' = votedFor n"
    "role n' = Follower" "config n' = config n"
proof -
  obtain rs where rs: "wal_holds J w rs" "list_all (rec_entry J) rs" "rr_hardState (replay_all rs) = hard_state n"
    using assms(1,2) by (auto simp: node_inv_def node_durable_def log_held_def)
  have w': "wal_holds J w' rs" using WriteAheadLog_new_holds [OF rs(1), of m] assms(3) by auto
  then have rec: "rec = replay_all rs" using assms(4) wl.recover_holds by auto
  have vf: "id_ok (hs_votedFor (rr_hardState (replay_all rs)))"
    using assms(1) rs(3) by (simp add: node_inv_def hard_state_def)
  have cf: "id_ok (cf_nodeId (config n))" "cf_nodeId (config n) \<noteq> []"
    using assms(1) by (simp_all add: node_inv_def nodeId_def)
  note r = RaftNode_new_inv [OF w' rs(2) assms(5) [unfolded rec] vf cf assms(6)]
  show "node_inv J n'" "log_room k (rlog n')" "role n' = Follower" "config n' = config n" by (rule r)+
  show "currentTerm n' = currentTerm n" "votedFor n' = votedFor n"
    using r(3) rs(3) by (auto simp: hard_state_def)
qed

lemma fresh_node:
  assumes "wal_holds J w []" "id_ok (cf_nodeId cf)" "cf_nodeId cf \<noteq> []" "wal_room k w"
  shows "RaftNode_new J now cf s (Some w) = Some (RaftNode_init now cf s (Some w))"
    "node_inv J (RaftNode_init now cf s (Some w))" "log_room k (rlog (RaftNode_init now cf s (Some w)))"
proof -
  show n: "RaftNode_new J now cf s (Some w) = Some (RaftNode_init now cf s (Some w))"
    using Recover_holds [OF assms(1)]
    by (simp add: RaftNode_new_def Let_def replay_all_def RecoveryResult_default_def RaftNode_init_def)
  show "node_inv J (RaftNode_init now cf s (Some w))" "log_room k (rlog (RaftNode_init now cf s (Some w)))"
    using RaftNode_new_inv [OF assms(1) _ _ _ assms(2,3) n, of k] assms(4)
    by (simp_all add: replay_all_def RecoveryResult_default_def)
qed

end

definition sample_config :: "string \<Rightarrow> string list \<Rightarrow> RaftConfig" where
  "sample_config i ps = RaftConfig_default\<lparr>cf_nodeId := i,
     cf_peers := map (\<lambda>p. \<lparr>pi_id = p, pi_host = ''localhost'', pi_port = 2380\<rparr>) ps\<rparr>"

definition sample_node :: "wal \<Rightarrow> string \<Rightarrow> string list \<Rightarrow> RaftNode" where
  "sample_node w i ps = RaftNode_init 0 (sample_config i ps) KVStore_new (Some w)"

definition sample_ballot :: "string \<Rightarrow> RequestVoteRequest" where
  "sample_ballot c = \<lparr>rv_term = 1, rv_candidateId = c, rv_lastLogIndex = 0, rv_lastLogTerm = 0\<rparr>"

lemma sample_node_fields:
  "currentTerm (sample_node w i ps) = 0" "votedFor (sample_node w i ps) = []" "role (sample_node w i ps) = Follower"
  "nodeId (sample_node w i ps) = i" "QuorumSize (sample_node w i ps) = (length ps + 1) div 2 + 1"
  "rlog (sample_node w i ps) = RaftLog_new (Some w)" "config (sample_node w i ps) = sample_config i ps"
  by (simp_all add: sample_node_def RaftNode_init_def nodeId_def QuorumSize_def sample_config_def)

lemma sample_node_inv:
  assumes "wal_holds json_text w []" "id_ok i" "i \<noteq> []"
  shows "node_inv json_text (sample_node w i ps)" "log_room 9 (rlog (sample_node w i ps))"
  using jt.fresh_node(2,3) [OF assms(1), of "sample_config i ps" 9] wal_room_length [OF assms(1), of 9] assms(2,3)
  by (simp_all add: sample_node_def sample_config_def)

context json_sized
begin

lemma step_up_ok:
  assumes "node_inv J n" "log_room 1 (rlog n)" shows "\<exists>n'. step_up J now t lead n = Some n'"
  using BecomeFollower_ok [OF assms] by (simp add: step_up_def)

lemma HandleRequestVote_outcome:
  assumes "node_inv J n" "log_room 2 (rlog n)" "id_ok (rv_candidateId req)"
  shows "\<exists>n' resp. HandleRequestVote J now req n = Some (n', resp) \<and>
    (vr_voteGranted resp \<longleftrightarrow> currentTerm n \<le> rv_term req \<and>
       (currentTerm n < rv_term req \<or> votedFor n = [] \<or> votedFor n = rv_candidateId req) \<and>
       IsLogUpToDate (rv_lastLogIndex req) (rv_lastLogTerm req) n)"
proof (cases "rv_term req < currentTerm n")
  case True
  then show ?thesis by (auto simp: HandleRequestVote_def)
next
  case False
  then have le: "currentTerm n \<le> rv_term req" by simp
  have room: "log_room 1 (rlog n)" "log_room (Suc 1) (rlog n)"
    using log_room_mono [OF assms(2), of 1] assms(2) by (simp_all add: numeral_2_eq_2)
  obtain n1 where n1: "step_up J now (rv_term req) [] n = Some n1" using step_up_ok [OF assms(1) room(1)] by blast
  note up = step_up_inv [OF assms(1) room(2) le n1]
  have vf: "votedFor n1 = (if currentTerm n < rv_term req then [] else votedFor n)"
    using n1 by (auto simp: step_up_def BecomeFollower_fields split: if_splits)
  have log: "IsLogUpToDate i t n1 = IsLogUpToDate i t n" for i t
    using up(6-8) by (simp add: IsLogUpToDate_def LastIndex_def LastTerm_def)
  let ?m = "ResetElectionTimer now (n1\<lparr>votedFor := rv_candidateId req\<rparr>)"
  obtain rs where "log_held J (rlog n1) rs" using up(1) by (auto simp: node_inv_def node_durable_def)
  then obtain n2 where n2: "PersistHardState J ?m = Some n2"
    using Persist_ok [of ?m rs] assms(3) up(2) by (auto simp: ResetElectionTimer_def)
  show ?thesis using False le n1 n2 vf by (auto simp: HandleRequestVote_def Let_def log)
qed

end

section \<open>Properties\<close>

text \<open>
  C6: a vote survives a restart. Once a node has granted its vote for a term and is later
  constructed again from its segment files, it has the same term and vote, and refuses every
  other candidate of that term or an earlier one.
\<close>

theorem vote_survives_restart:
  assumes "json_sized J" "node_inv J n" "log_room 2 (rlog n)" "id_ok (rv_candidateId req)" "rv_candidateId req \<noteq> []"
    "HandleRequestVote J now req n = Some (n1, resp)" "vr_voteGranted resp"
    "rl_wal (rlog n1) = Some w" "WriteAheadLog_new (w_dir w) m = Inr w'" "Recover J w' = Inr rec"
    "wal_room (length (rr_entries rec)) w'" "RaftNode_new J now' (config n1) KVStore_new (Some w') = Some n2"
    "rv_term req' \<le> rv_term req" "rv_candidateId req' \<noteq> rv_candidateId req"
    "HandleRequestVote J now'' req' n2 = Some (n3, resp')"
  shows "currentTerm n2 = rv_term req \<and> votedFor n2 = rv_candidateId req \<and> \<not> vr_voteGranted resp'"
proof -
  have "log_room (Suc (Suc 0)) (rlog n)" using assms(3) by (simp add: numeral_2_eq_2)
  note n1 = json_sized.HandleRequestVote_inv [OF assms(1,2) this assms(4,6)]
  have v: "currentTerm n1 = rv_term req" "votedFor n1 = rv_candidateId req" using n1(7) assms(7) by simp_all
  have n2: "currentTerm n2 = rv_term req" "votedFor n2 = rv_candidateId req"
    using json_sized.restart_node(3,4) [OF assms(1) n1(1) assms(8-10) _ assms(12), of 0] assms(11) v by simp_all
  have "\<not> vr_voteGranted resp'"
  proof (cases "rv_term req' < currentTerm n2")
    case True
    then show ?thesis using assms(15) by (auto simp: HandleRequestVote_def)
  next
    case False
    then have "rv_term req' = currentTerm n2" using assms(13) n2(1) by simp
    then show ?thesis
      using assms(5,14,15) n2 by (auto simp: HandleRequestVote_def step_up_def Let_def split: if_splits bind_splits)
  qed
  with n2 show ?thesis by blast
qed

theorem vote_survives_restart_witness:
  "\<exists>w n1 resp w1 w2 n2 n3 resp'.
     HandleRequestVote json_text 5 (sample_ballot ''b'') (sample_node w ''a'' [''b'', ''c'']) = Some (n1, resp) \<and>
     vr_voteGranted resp \<and> rl_wal (rlog n1) = Some w1 \<and> WriteAheadLog_new (w_dir w1) 64 = Inr w2 \<and>
     RaftNode_new json_text 7 (config n1) KVStore_new (Some w2) = Some n2 \<and>
     HandleRequestVote json_text 9 (sample_ballot ''c'') n2 = Some (n3, resp') \<and> votedFor n2 = ''b'' \<and> \<not> vr_voteGranted resp'"
proof -
  let ?h0 = "WHard \<lparr>hs_term = 1, hs_votedFor = []\<rparr>" and ?h1 = "WHard \<lparr>hs_term = 1, hs_votedFor = ''b''\<rparr>"
  obtain w where w: "wal_holds json_text w []" using WriteAheadLog_new_empty [of 64 json_text] by blast
  have room: "wal_room 2 w" using wal_room_length [OF w, of 2] by simp
  have ok: "rec_ok json_text ?h0" "rec_ok json_text ?h1" by (intro jt.rec_ok_hard; simp add: id_ok_def)+
  obtain wa where wa: "wal_write json_text ?h0 w = Some wa" "wal_holds json_text wa [?h0]" "wal_room 1 wa"
    using jt.wl.put_holds [OF w ok(1), of 1] room by (auto simp: numeral_2_eq_2)
  obtain wb where wb: "wal_write json_text ?h1 wa = Some wb" "wal_holds json_text wb [?h0, ?h1]"
    using jt.wl.put_holds [OF wa(2) ok(2), of 0] wa(3) by auto
  obtain wc where wc: "WriteAheadLog_new (w_dir wb) 64 = Inr wc" "wal_holds json_text wc [?h0, ?h1]"
    using WriteAheadLog_new_holds [OF wb(2)] by blast
  have rec: "Recover json_text wc = Inr (replay_all [?h0, ?h1])" by (rule jt.Recover_holds [OF wc(2)])
  let ?n = "sample_node w ''a'' [''b'', ''c'']" and ?n2 = "(RaftNode_init 7 (sample_config ''a'' [''b'', ''c'']) KVStore_new (Some wc))
    \<lparr>currentTerm := 1, votedFor := ''b''\<rparr>"
  obtain n1 resp where n1: "HandleRequestVote json_text 5 (sample_ballot ''b'') ?n = Some (n1, resp)"
    "vr_voteGranted resp" "rl_wal (rlog n1) = Some wb" "config n1 = sample_config ''a'' [''b'', ''c'']"
    using wa(1) wb(1)
    by (auto simp: HandleRequestVote_def sample_ballot_def sample_node_def RaftNode_init_def step_up_def BecomeFollower_def
      follower_state_def PersistHardState_def RaftLog_new_def ResetElectionTimer_def IsLogUpToDate_def LastIndex_def
      LastTerm_def LogEntry_default_def Let_def)
  have n2: "RaftNode_new json_text 7 (config n1) KVStore_new (Some wc) = Some ?n2"
    using rec n1(4) by (simp add: RaftNode_new_def RaftNode_init_def Let_def replay_all_def RecoveryResult_default_def)
  have n3: "HandleRequestVote json_text 9 (sample_ballot ''c'') ?n2 = Some (?n2, \<lparr>vr_term = 1, vr_voteGranted = False\<rparr>)"
    by (simp add: HandleRequestVote_def sample_ballot_def RaftNode_init_def step_up_def Let_def)
  have pre: "node_inv json_text ?n" "log_room 2 (rlog ?n)"
    using sample_node_inv [OF w, of "''a''" "[''b'', ''c'']"] by (auto simp: id_ok_def intro: log_room_mono)
  have room': "wal_room (length (rr_entries (replay_all [?h0, ?h1]))) wc"
    using wal_room_length [OF wc(2), of 0] by (simp add: replay_all_def RecoveryResult_default_def)
  have "votedFor ?n2 = ''b'' \<and> \<not> vr_voteGranted \<lparr>vr_term = 1, vr_voteGranted = False\<rparr>"
    using vote_survives_restart [OF jt.json_sized_axioms pre _ _ n1(1,2,3) wc(1) rec room' n2 _ _ n3]
    by (simp add: sample_ballot_def id_ok_def)
  with n1(1-3) wc(1) n2 n3 show ?thesis by blast
qed

text \<open>
  C7: \<open>AdvanceCommitIndex\<close> moves the commit index forward only, to the largest index whose
  entry has the leader's current term and is stored on a quorum.
\<close>

theorem AdvanceCommitIndex_exact:
  "commitIndex n \<le> commitIndex (AdvanceCommitIndex n) \<and>
   (commitIndex (AdvanceCommitIndex n) = commitIndex n \<or>
     commitIndex (AdvanceCommitIndex n) \<le> LastIndex (rlog n) \<and> committable n (commitIndex (AdvanceCommitIndex n))) \<and>
   {j. commitIndex (AdvanceCommitIndex n) < j \<and> j \<le> LastIndex (rlog n) \<and> committable n j} = {}"
  using commit_loop_spec [of n "LastIndex (rlog n)"] by (auto simp: AdvanceCommitIndex_def)

text \<open>
  C14: when no peer answers with a higher term, an election ends with the node as the leader of
  the next term exactly if its own vote and the granted ones make a quorum, whatever the
  peers that fail to answer.
\<close>

theorem StartElection_elects:
  assumes "json_sized J" "node_inv J n" "log_room 2 (rlog n)"
    "\<And>req. \<forall>r \<in> set (ask req). \<forall>resp. r = Some resp \<longrightarrow> vr_term resp \<le> rv_term req"
  shows "\<exists>n' n1 req. StartElection_begin J now n = Some (n1, req) \<and> StartElection J now ask n = Some n' \<and>
    currentTerm n' = currentTerm n + 1 \<and> votedFor n' = nodeId n \<and>
    role n' = (if QuorumSize n \<le> 1 + length (filter (\<lambda>r. \<exists>resp. r = Some resp \<and> vr_voteGranted resp) (ask req))
               then Leader else Candidate)"
  using json_sized.StartElection_outcome [OF assms] .

theorem StartElection_elects_witness:
  "\<exists>w n'. StartElection json_text 5 (\<lambda>req. [Some \<lparr>vr_term = rv_term req, vr_voteGranted = True\<rparr>, None])
       (sample_node w ''a'' [''b'', ''c'']) = Some n' \<and> role n' = Leader \<and> currentTerm n' = 1"
proof -
  obtain w where "wal_holds json_text w []" using WriteAheadLog_new_empty [of 64 json_text] by blast
  then have w: "node_inv json_text (sample_node w ''a'' [''b'', ''c''])"
      "log_room 2 (rlog (sample_node w ''a'' [''b'', ''c'']))"
    using sample_node_inv [of w "''a''" "[''b'', ''c'']"] by (auto simp: id_ok_def intro: log_room_mono)
  show ?thesis
    using StartElection_elects [OF jt.json_sized_axioms w, of "\<lambda>req. [Some \<lparr>vr_term = rv_term req, vr_voteGranted = True\<rparr>, None]" 5]
    by (intro exI [of _ w]) (auto simp: sample_node_fields)
qed



end
