(* ===== verification/Cluster.thy ===== *)
theory Cluster
  imports RaftNode
begin

text \<open>
  The nodes of a cluster and the messages between them, composed from the operations of
  \<open>raft/RaftNode.cpp\<close>: one rule of the step relation per section of code a node runs under
  its mutex. Messages are never removed, so they may be delayed, reordered, repeated and
  lost; a response carries the request it answers, which the transport matches by sequence
  number. A node may stop at any time between two operations and be constructed again from
  its segment files. The sets \<open>ballots\<close> and \<open>elected\<close> record history for the proofs and
  influence no step.
\<close>

section \<open>State\<close>

datatype msg =
    VoteReq string string RequestVoteRequest
  | VoteResp string string RequestVoteRequest RequestVoteResponse
  | AppReq string string AppendEntriesRequest
  | AppResp string string AppendEntriesRequest AppendEntriesResponse

text \<open>
  The local variables of a running \<open>StartElection\<close>: the request, the votes counted and the
  peers whose futures are still to be waited for; \<open>el_granted\<close> is history.
\<close>

record election =
  el_req :: RequestVoteRequest
  el_votes :: nat
  el_pending :: "string list"
  el_granted :: "string list"

record cluster =
  nodes :: "string \<Rightarrow> RaftNode"
  msgs :: "msg set"
  elections :: "string \<Rightarrow> election option"
  ballots :: "(string \<times> u64 \<times> string) set"
  elected :: "(u64 \<times> string) set"

definition config_for :: "string list \<Rightarrow> string \<Rightarrow> RaftConfig \<Rightarrow> bool" where
  "config_for ids i cf \<longleftrightarrow>
     cf_nodeId cf = i \<and> distinct (map pi_id (cf_peers cf)) \<and> set (map pi_id (cf_peers cf)) = set ids - {i}"

definition ids_ok :: "string list \<Rightarrow> bool" where
  "ids_ok ids \<longleftrightarrow> distinct ids \<and> list_all (\<lambda>i. id_ok i \<and> i \<noteq> []) ids"

text \<open>Every node starts on an empty directory.\<close>

definition initial :: "'j json_ops \<Rightarrow> string list \<Rightarrow> cluster \<Rightarrow> bool" where
  "initial J ids s \<longleftrightarrow>
     msgs s = {} \<and> (\<forall>i. elections s i = None) \<and> ballots s = {} \<and> elected s = {} \<and>
     (\<forall>i \<in> set ids. \<exists>now cf m w n. config_for ids i cf \<and> WriteAheadLog_new [] m = Inr w \<and>
        RaftNode_new J now cf KVStore_new (Some w) = Some n \<and> nodes s i = RaftNode_Start n)"

definition set_node :: "string \<Rightarrow> RaftNode \<Rightarrow> cluster \<Rightarrow> cluster" where
  "set_node i n s = s\<lparr>nodes := (nodes s)(i := n)\<rparr>"

definition send :: "msg set \<Rightarrow> cluster \<Rightarrow> cluster" where
  "send ms s = s\<lparr>msgs := msgs s \<union> ms\<rparr>"

text \<open>History: node \<open>i\<close> has voted as its current term and vote say.\<close>

definition add_ballot :: "string \<Rightarrow> cluster \<Rightarrow> cluster" where
  "add_ballot i s = s\<lparr>ballots := insert (i, currentTerm (nodes s i), votedFor (nodes s i)) (ballots s)\<rparr>"

section \<open>Steps\<close>

text \<open>
  Guards beyond those of the code: term and segment numbers do not reach \<open>2\<^sup>6\<^sup>4 - 1\<close>, a
  client's key and value are UTF-8 and below four megabytes together (other requests end
  the process or overflow a record), and the state fits a snapshot record.
\<close>

inductive live_step :: "'j json_ops \<Rightarrow> string list \<Rightarrow> cluster \<Rightarrow> cluster \<Rightarrow> bool" for J ids where
  start_election:
    "i \<in> set ids \<Longrightarrow> elections s i = None \<Longrightarrow> election_due now timeout (nodes s i) \<Longrightarrow>
     currentTerm (nodes s i) \<noteq> - 1 \<Longrightarrow> log_room 1 (rlog (nodes s i)) \<Longrightarrow>
     StartElection_begin J now (nodes s i) = Some (n', req) \<Longrightarrow>
     live_step J ids s ((send ((\<lambda>p. VoteReq i p req) ` set (peers n')) (add_ballot i (set_node i n' s)))
       \<lparr>elections := (elections s)(i := Some \<lparr>el_req = req, el_votes = 1, el_pending = peers n', el_granted = []\<rparr>)\<rparr>)"
| vote:
    "i \<in> set ids \<Longrightarrow> VoteReq c i req \<in> msgs s \<Longrightarrow> log_room 2 (rlog (nodes s i)) \<Longrightarrow>
     HandleRequestVote J now req (nodes s i) = Some (n', resp) \<Longrightarrow>
     live_step J ids s (send {VoteResp i c req resp}
       (if vr_voteGranted resp then add_ballot i (set_node i n' s) else set_node i n' s))"
| vote_response:
    "i \<in> set ids \<Longrightarrow> elections s i = Some e \<Longrightarrow> el_pending e = p # ps \<Longrightarrow>
     VoteResp p i (el_req e) resp \<in> msgs s \<Longrightarrow> log_room 1 (rlog (nodes s i)) \<Longrightarrow>
     StartElection_response J now (rv_term (el_req e)) resp (nodes s i) (el_votes e) = (n', votes, stop) \<Longrightarrow>
     live_step J ids s ((set_node i n' s)\<lparr>elections := (elections s)(i := (if stop then None else
       Some (e\<lparr>el_votes := votes, el_pending := ps,
         el_granted := (if votes = el_votes e then el_granted e else p # el_granted e)\<rparr>)))\<rparr>)"
| vote_timeout:
    "i \<in> set ids \<Longrightarrow> elections s i = Some e \<Longrightarrow> el_pending e = p # ps \<Longrightarrow>
     live_step J ids s (s\<lparr>elections := (elections s)(i := Some (e\<lparr>el_pending := ps\<rparr>))\<rparr>)"
| end_election:
    "i \<in> set ids \<Longrightarrow> elections s i = Some e \<Longrightarrow> el_pending e = [] \<Longrightarrow> log_room 1 (rlog (nodes s i)) \<Longrightarrow>
     StartElection_end J (rv_term (el_req e)) (el_votes e) (nodes s i) = Some n' \<Longrightarrow>
     live_step J ids s ((set_node i n' s)\<lparr>elections := (elections s)(i := None),
       elected := (if role n' = Leader \<and> role (nodes s i) \<noteq> Leader then insert (currentTerm n', i) (elected s)
                   else elected s)\<rparr>)"
| replicate_request:
    "i \<in> set ids \<Longrightarrow> p \<in> set (peers (nodes s i)) \<Longrightarrow> ReplicateToPeer_request p (nodes s i) = Some req \<Longrightarrow>
     live_step J ids s (send {AppReq i p req} s)"
| append:
    "i \<in> set ids \<Longrightarrow> AppReq l i req \<in> msgs s \<Longrightarrow> log_room (length (ae_entries req) + 1) (rlog (nodes s i)) \<Longrightarrow>
     HandleAppendEntries J now req (nodes s i) = Some (n', resp) \<Longrightarrow>
     live_step J ids s (send {AppResp i l req resp} (set_node i n' s))"
| replicate_response:
    "i \<in> set ids \<Longrightarrow> AppResp p i req resp \<in> msgs s \<Longrightarrow> ae_term req = currentTerm (nodes s i) \<Longrightarrow> log_room 1 (rlog (nodes s i)) \<Longrightarrow>
     live_step J ids s (set_node i (ReplicateToPeer_response J now p req resp (nodes s i)) s)"
| apply_committed:
    "i \<in> set ids \<Longrightarrow> log_room 1 (rlog (nodes s i)) \<Longrightarrow>
     snapshot_fits J now (store (ApplyLoop_inner clock (nodes s i))) \<Longrightarrow>
     ApplyLoop_turn J clock now (nodes s i) = Some n' \<Longrightarrow> live_step J ids s (set_node i n' s)"
| propose:
    "i \<in> set ids \<Longrightarrow> log_room 1 (rlog (nodes s i)) \<Longrightarrow> utf8_valid key \<Longrightarrow> utf8_valid v \<Longrightarrow> OpType_wf opt \<Longrightarrow>
     length key + length v < 2 ^ 22 \<Longrightarrow>
     Propose_begin J key v opt ttl (nodes s i) = Some (n', r) \<Longrightarrow> live_step J ids s (set_node i n' s)"
| local_store:
    "i \<in> set ids \<Longrightarrow> live_step J ids s (set_node i ((nodes s i)\<lparr>store := st\<rparr>) s)"

text \<open>
  The answer to a request may also come when the term of the request is over, as long as the
  caller still waits for it.
\<close>

inductive late_step :: "'j json_ops \<Rightarrow> string list \<Rightarrow> cluster \<Rightarrow> cluster \<Rightarrow> bool" for J ids where
  late_response:
    "i \<in> set ids \<Longrightarrow> AppResp p i req resp \<in> msgs s \<Longrightarrow> ae_term req \<noteq> currentTerm (nodes s i) \<Longrightarrow> log_room 1 (rlog (nodes s i)) \<Longrightarrow>
     late_step J ids s (set_node i (ReplicateToPeer_response J now p req resp (nodes s i)) s)"

text \<open>A node may stop and be constructed again from its segment files.\<close>

inductive restart_step :: "'j json_ops \<Rightarrow> string list \<Rightarrow> cluster \<Rightarrow> cluster \<Rightarrow> bool" for J ids where
  restart:
    "i \<in> set ids \<Longrightarrow> rl_wal (rlog (nodes s i)) = Some w \<Longrightarrow> WriteAheadLog_new (w_dir w) m = Inr w' \<Longrightarrow>
     Recover J w' = Inr rec \<Longrightarrow> wal_room (length (rr_entries rec)) w' \<Longrightarrow>
     RaftNode_new J now (config (nodes s i)) KVStore_new (Some w') = Some n' \<Longrightarrow>
     restart_step J ids s ((set_node i (RaftNode_Start n') s)\<lparr>elections := (elections s)(i := None)\<rparr>)"

inductive step :: "'j json_ops \<Rightarrow> string list \<Rightarrow> cluster \<Rightarrow> cluster \<Rightarrow> bool" for J ids where
  live: "live_step J ids s s' \<Longrightarrow> step J ids s s'"
| late: "late_step J ids s s' \<Longrightarrow> step J ids s s'"
| restarted: "restart_step J ids s s' \<Longrightarrow> step J ids s s'"

inductive reachable :: "'j json_ops \<Rightarrow> string list \<Rightarrow> cluster \<Rightarrow> bool" for J ids where
  start: "initial J ids s \<Longrightarrow> reachable J ids s"
| next_state: "reachable J ids s \<Longrightarrow> step J ids s s' \<Longrightarrow> reachable J ids s'"

lemma set_node_simps [simp]:
  "nodes (set_node i n s) = (nodes s)(i := n)" "msgs (set_node i n s) = msgs s"
  "elections (set_node i n s) = elections s" "ballots (set_node i n s) = ballots s"
  "elected (set_node i n s) = elected s"
  by (simp_all add: set_node_def)

lemma send_simps [simp]:
  "nodes (send ms s) = nodes s" "msgs (send ms s) = msgs s \<union> ms" "elections (send ms s) = elections s"
  "ballots (send ms s) = ballots s" "elected (send ms s) = elected s"
  by (simp_all add: send_def)

lemma add_ballot_simps [simp]:
  "nodes (add_ballot i s) = nodes s" "msgs (add_ballot i s) = msgs s" "elections (add_ballot i s) = elections s"
  "ballots (add_ballot i s) = insert (i, currentTerm (nodes s i), votedFor (nodes s i)) (ballots s)"
  "elected (add_ballot i s) = elected s"
  by (simp_all add: add_ballot_def)

section \<open>Quorums\<close>

text \<open>
  Any two quorums share a member, so with one vote per member and term there is at most
  one winner.
\<close>

locale quorums =
  fixes quorum :: "'a set \<Rightarrow> bool"
  assumes intersect: "quorum A \<Longrightarrow> quorum B \<Longrightarrow> A \<inter> B \<noteq> {}"
begin

lemma one_winner:
  assumes "\<And>v c c'. vote v c \<Longrightarrow> vote v c' \<Longrightarrow> c = c'" "quorum A" "quorum B" "\<forall>v \<in> A. vote v c" "\<forall>v \<in> B. vote v c'"
  shows "c = c'"
  using intersect [OF assms(2,3)] assms(1,4,5) by blast

end

definition majority :: "string list \<Rightarrow> string set \<Rightarrow> bool" where
  "majority ids A \<longleftrightarrow> A \<subseteq> set ids \<and> length ids div 2 + 1 \<le> card A"

interpretation mj: quorums "majority ids" for ids
proof
  fix A B assume "majority ids A" "majority ids B"
  then have sub: "A \<subseteq> set ids" "B \<subseteq> set ids" "length ids < card A + card B" by (auto simp: majority_def)
  show "A \<inter> B \<noteq> {}"
  proof
    assume "A \<inter> B = {}"
    then have "card A + card B = card (A \<union> B)"
      using sub(1,2) by (intro card_Un_disjoint [symmetric]) (auto intro: finite_subset)
    also have "\<dots> \<le> card (set ids)" using sub by (intro card_mono) auto
    also have "\<dots> \<le> length ids" by (rule card_length)
    finally show False using sub(3) by simp
  qed
qed

section \<open>The invariant\<close>

definition nodes_inv :: "'j json_ops \<Rightarrow> string list \<Rightarrow> cluster \<Rightarrow> bool" where
  "nodes_inv J ids s \<longleftrightarrow> (\<forall>i \<in> set ids. node_inv J (nodes s i) \<and> config_for ids i (config (nodes s i)))"

definition msgs_inv :: "string list \<Rightarrow> cluster \<Rightarrow> bool" where
  "msgs_inv ids s \<longleftrightarrow>
     (\<forall>l i req. AppReq l i req \<in> msgs s \<longrightarrow> list_all entry_fit (ae_entries req)) \<and>
     (\<forall>c i req. VoteReq c i req \<in> msgs s \<longrightarrow> c \<in> set ids \<and> rv_candidateId req = c) \<and>
     (\<forall>j c req resp. VoteResp j c req resp \<in> msgs s \<longrightarrow> vr_voteGranted resp \<longrightarrow> (j, rv_term req, c) \<in> ballots s)"

text \<open>A vote is never taken back: the voter's term is past the ballot's, or the vote stands.\<close>

definition ballots_inv :: "string list \<Rightarrow> cluster \<Rightarrow> bool" where
  "ballots_inv ids s \<longleftrightarrow>
     (\<forall>j t c. (j, t, c) \<in> ballots s \<longrightarrow> j \<in> set ids \<and> c \<noteq> [] \<and> t \<le> currentTerm (nodes s j) \<and>
        (t = currentTerm (nodes s j) \<longrightarrow> votedFor (nodes s j) = c)) \<and>
     (\<forall>j t c c'. (j, t, c) \<in> ballots s \<longrightarrow> (j, t, c') \<in> ballots s \<longrightarrow> c = c')"

definition election_inv :: "string list \<Rightarrow> cluster \<Rightarrow> string \<Rightarrow> election \<Rightarrow> bool" where
  "election_inv ids s i e \<longleftrightarrow>
     el_votes e = 1 + length (el_granted e) \<and> distinct (el_granted e @ el_pending e) \<and>
     set (el_granted e @ el_pending e) \<subseteq> set ids - {i} \<and>
     (\<forall>g \<in> insert i (set (el_granted e)). (g, rv_term (el_req e), i) \<in> ballots s)"

definition elections_inv :: "string list \<Rightarrow> cluster \<Rightarrow> bool" where
  "elections_inv ids s \<longleftrightarrow> (\<forall>i \<in> set ids. \<forall>e. elections s i = Some e \<longrightarrow> election_inv ids s i e)"

definition leaders_inv :: "string list \<Rightarrow> cluster \<Rightarrow> bool" where
  "leaders_inv ids s \<longleftrightarrow>
     (\<forall>i \<in> set ids. role (nodes s i) = Leader \<longrightarrow> (currentTerm (nodes s i), i) \<in> elected s) \<and>
     (\<forall>t i. (t, i) \<in> elected s \<longrightarrow> (\<exists>A. majority ids A \<and> (\<forall>j \<in> A. (j, t, i) \<in> ballots s)))"

definition cluster_inv :: "'j json_ops \<Rightarrow> string list \<Rightarrow> cluster \<Rightarrow> bool" where
  "cluster_inv J ids s \<longleftrightarrow>
     nodes_inv J ids s \<and> msgs_inv ids s \<and> ballots_inv ids s \<and> elections_inv ids s \<and> leaders_inv ids s"

lemmas cluster_inv_defs = nodes_inv_def msgs_inv_def ballots_inv_def elections_inv_def election_inv_def leaders_inv_def

lemma config_for_peers:
  assumes "config_for ids i (config n)" "distinct ids" "i \<in> set ids"
  shows "nodeId n = i" "distinct (peers n)" "set (peers n) = set ids - {i}" "QuorumSize n = length ids div 2 + 1"
proof -
  show p: "nodeId n = i" "distinct (peers n)" "set (peers n) = set ids - {i}"
    using assms(1) by (simp_all add: config_for_def nodeId_def peers_def)
  have "length (peers n) = card (set ids - {i})" using p(2,3) distinct_card by metis
  also have "\<dots> = length ids - 1" using assms(2,3) distinct_card [OF assms(2)] by simp
  finally have "length (cf_peers (config n)) + 1 = length ids"
    using assms(3) by (cases ids) (auto simp: peers_def)
  then show "QuorumSize n = length ids div 2 + 1" by (simp add: QuorumSize_def)
qed

lemma ballots_inv_node:
  assumes "ballots_inv ids s" "vote_kept (nodes s i) n'" shows "ballots_inv ids (set_node i n' s)"
proof -
  have "j \<in> set ids \<and> c \<noteq> [] \<and> t \<le> currentTerm (nodes (set_node i n' s) j) \<and>
      (t = currentTerm (nodes (set_node i n' s) j) \<longrightarrow> votedFor (nodes (set_node i n' s) j) = c)"
    if b: "(j, t, c) \<in> ballots s" for j t c
  proof -
    have "j \<in> set ids" "c \<noteq> []" "t \<le> currentTerm (nodes s j)" "t = currentTerm (nodes s j) \<longrightarrow> votedFor (nodes s j) = c"
      using assms(1) b by (auto simp: ballots_inv_def)
    with assms(2) show ?thesis by (cases "j = i") (auto simp: vote_kept_def)
  qed
  with assms(1) show ?thesis by (simp add: ballots_inv_def)
qed

text \<open>
  A step is a change of one node that keeps its vote and makes no leader, new messages, new
  ballots and a change of the local variables of an election; each of these alone keeps the
  invariant.
\<close>

lemma set_node_inv:
  assumes "cluster_inv J ids s" "i \<in> set ids" "node_inv J n'" "vote_kept (nodes s i) n'"
    "role n' = Leader \<Longrightarrow> role (nodes s i) = Leader \<and> currentTerm n' = currentTerm (nodes s i)"
  shows "cluster_inv J ids (set_node i n' s)"
proof -
  have inv: "nodes_inv J ids s" "msgs_inv ids s" "ballots_inv ids s" "elections_inv ids s" "leaders_inv ids s"
    using assms(1) by (auto simp: cluster_inv_def)
  have "nodes_inv J ids (set_node i n' s)" using inv(1) assms(2-4) by (auto simp: nodes_inv_def vote_kept_def)
  moreover have "leaders_inv ids (set_node i n' s)" using inv(5) assms(2,5) by (auto simp: leaders_inv_def)
  ultimately show ?thesis
    using inv(2,4) ballots_inv_node [OF inv(3) assms(4)]
    by (simp add: cluster_inv_def msgs_inv_def elections_inv_def election_inv_def)
qed

lemma kept_node_inv:
  assumes "cluster_inv J ids s" "i \<in> set ids" "node_inv J n'" "vote_kept (nodes s i) n'" "role_kept (nodes s i) n'"
  shows "cluster_inv J ids (set_node i n' s)"
  using assms by (intro set_node_inv) (auto simp: role_kept_def)

lemma send_inv:
  assumes "cluster_inv J ids s"
    and "\<And>l k req. AppReq l k req \<in> ms \<Longrightarrow> list_all entry_fit (ae_entries req)"
    and "\<And>c k req. VoteReq c k req \<in> ms \<Longrightarrow> c \<in> set ids \<and> rv_candidateId req = c"
    and "\<And>j c req resp. VoteResp j c req resp \<in> ms \<Longrightarrow> vr_voteGranted resp \<Longrightarrow> (j, rv_term req, c) \<in> ballots s"
  shows "cluster_inv J ids (send ms s)"
proof -
  have "msgs_inv ids (send ms s)" using assms unfolding cluster_inv_def msgs_inv_def by auto
  with assms(1) show ?thesis
    by (simp add: cluster_inv_def nodes_inv_def ballots_inv_def elections_inv_def election_inv_def leaders_inv_def)
qed

lemma add_ballot_inv:
  assumes "cluster_inv J ids s" "i \<in> set ids" "votedFor (nodes s i) \<noteq> []"
  shows "cluster_inv J ids (add_ballot i s)"
proof -
  have inv: "nodes_inv J ids s" "msgs_inv ids s" "ballots_inv ids s" "elections_inv ids s" "leaders_inv ids s"
    using assms(1) by (auto simp: cluster_inv_def)
  have "c = votedFor (nodes s i)" if "(i, currentTerm (nodes s i), c) \<in> ballots s" for c
    using inv(3) that by (auto simp: ballots_inv_def)
  then have "ballots_inv ids (add_ballot i s)" using inv(3) assms(2,3) unfolding ballots_inv_def by auto
  moreover have "leaders_inv ids (add_ballot i s)"
    using inv(5) unfolding leaders_inv_def add_ballot_simps by (metis insertI2)
  moreover have "msgs_inv ids (add_ballot i s)" using inv(2) unfolding msgs_inv_def by auto
  moreover have "elections_inv ids (add_ballot i s)"
    using inv(4) unfolding elections_inv_def election_inv_def by auto
  ultimately show ?thesis using inv(1) by (simp add: cluster_inv_def nodes_inv_def)
qed

lemma drop_election_inv:
  assumes "cluster_inv J ids s" shows "cluster_inv J ids (s\<lparr>elections := (elections s)(i := None)\<rparr>)"
  using assms by (simp add: cluster_inv_def cluster_inv_defs)

lemma set_election_inv:
  assumes "cluster_inv J ids s" "election_inv ids s i e"
  shows "cluster_inv J ids (s\<lparr>elections := (elections s)(i := Some e)\<rparr>)"
  using assms by (simp add: cluster_inv_def cluster_inv_defs)

lemma collect_loop_set: "e \<in> set (collect_loop l b i) \<Longrightarrow> e \<in> set (entries l)"
proof (induction l b i rule: collect_loop.induct)
  case (1 l b i)
  have eq: "collect_loop l b i = (if i \<le> LastIndex l \<and> i < b
      then (case GetEntry i l of Inl _ \<Rightarrow> [] | Inr e \<Rightarrow> e # collect_loop l b (i + 1)) else [])"
    by (rule collect_loop.simps)
  show ?case
  proof (cases "i \<le> LastIndex l \<and> i < b")
    case True
    show ?thesis
    proof (cases "GetEntry i l")
      case (Inr e')
      have "e = e' \<or> e \<in> set (collect_loop l b (i + 1))"
        using "1.prems" unfolding eq if_P [OF True] Inr by simp
      moreover have "e' \<in> set (entries l)" using Inr by (auto simp: GetEntry_def Let_def split: if_splits)
      ultimately show ?thesis using "1.IH" [OF True Inr] by blast
    next
      case (Inl x) with "1.prems" show ?thesis unfolding eq if_P [OF True] Inl by simp
    qed
  next
    case False with "1.prems" show ?thesis unfolding eq if_not_P [OF False] by simp
  qed
qed

context json_sized
begin

lemma cluster_node:
  assumes "cluster_inv J ids s" "ids_ok ids" "i \<in> set ids"
  shows "node_inv J (nodes s i)" "config_for ids i (config (nodes s i))" "nodeId (nodes s i) = i" "id_ok i" "i \<noteq> []"
    "distinct ids"
  using assms by (auto simp: cluster_inv_def nodes_inv_def config_for_def nodeId_def ids_ok_def list_all_iff)

lemma start_election_inv:
  assumes inv: "cluster_inv J ids s" "ids_ok ids" and i: "i \<in> set ids" and t: "currentTerm (nodes s i) \<noteq> - 1"
    and room: "log_room 1 (rlog (nodes s i))" and b: "StartElection_begin J now (nodes s i) = Some (n', req)"
  shows "cluster_inv J ids ((send ((\<lambda>p. VoteReq i p req) ` set (peers n')) (add_ballot i (set_node i n' s)))
       \<lparr>elections := (elections s)(i := Some \<lparr>el_req = req, el_votes = 1, el_pending = peers n', el_granted = []\<rparr>)\<rparr>)"
proof -
  note n = cluster_node [OF inv i]
  note n' = StartElection_begin_inv [OF n(1) _ b, of 0, simplified, OF room [simplified]]
  have "currentTerm (nodes s i) < currentTerm n'"
    using n'(3) not_max64 [OF t] by (simp add: word_less_nat_alt unat_word_ariths)
  then have kept: "vote_kept (nodes s i) n'" using n'(6) by (simp add: vote_kept_def)
  have req: "rv_term req = currentTerm n'" "rv_candidateId req = i" "votedFor n' = i" using n' n(3) by simp_all
  have cf: "config_for ids i (config n')" using n(2) n'(6) by simp
  note p = config_for_peers [OF cf n(6) i]
  define s1 where "s1 = add_ballot i (set_node i n' s)"
  have "cluster_inv J ids (set_node i n' s)" by (rule set_node_inv [OF inv(1) i n'(1) kept]) (simp add: n'(5))
  then have "cluster_inv J ids s1" unfolding s1_def using i n(5) req by (intro add_ballot_inv) simp_all
  then have s2: "cluster_inv J ids (send ((\<lambda>p. VoteReq i p req) ` set (peers n')) s1)"
    using i req by (intro send_inv) auto
  have "election_inv ids (send ((\<lambda>p. VoteReq i p req) ` set (peers n')) s1) i
      \<lparr>el_req = req, el_votes = 1, el_pending = peers n', el_granted = []\<rparr>"
    using p req by (simp add: election_inv_def s1_def)
  from set_election_inv [OF s2 this] show ?thesis
    by (simp add: s1_def)
qed

lemma vote_inv:
  assumes inv: "cluster_inv J ids s" "ids_ok ids" and i: "i \<in> set ids" and m: "VoteReq c i req \<in> msgs s"
    and room: "log_room 2 (rlog (nodes s i))" and b: "HandleRequestVote J now req (nodes s i) = Some (n', resp)"
  shows "cluster_inv J ids (send {VoteResp i c req resp}
    (if vr_voteGranted resp then add_ballot i (set_node i n' s) else set_node i n' s))"
proof -
  note n = cluster_node [OF inv i]
  have c: "c \<in> set ids" "rv_candidateId req = c" using inv(1) m by (auto simp: cluster_inv_def msgs_inv_def)
  have cok: "id_ok (rv_candidateId req)" "c \<noteq> []" using cluster_node [OF inv c(1)] c(2) by simp_all
  have room': "log_room (Suc (Suc 0)) (rlog (nodes s i))" using room by (simp add: numeral_2_eq_2)
  note n' = HandleRequestVote_inv [OF n(1) room' cok(1) b]
  have s1: "cluster_inv J ids (set_node i n' s)" by (rule kept_node_inv [OF inv(1) i n'(1,3,4)])
  show ?thesis
  proof (cases "vr_voteGranted resp")
    case False
    then show ?thesis using send_inv [OF s1, of "{VoteResp i c req resp}"] by simp
  next
    case True
    then have v: "currentTerm n' = rv_term req" "votedFor n' = c" using n'(7) c by simp_all
    have "cluster_inv J ids (add_ballot i (set_node i n' s))"
      using i v cok(2) by (intro add_ballot_inv [OF s1]) simp_all
    then have "cluster_inv J ids (send {VoteResp i c req resp} (add_ballot i (set_node i n' s)))"
      using v by (intro send_inv) auto
    then show ?thesis using True by simp
  qed
qed

lemma vote_response_inv:
  assumes inv: "cluster_inv J ids s" "ids_ok ids" and i: "i \<in> set ids"
    and e: "elections s i = Some e" "el_pending e = p # ps" and m: "VoteResp p i (el_req e) resp \<in> msgs s"
    and room: "log_room 1 (rlog (nodes s i))"
    and b: "StartElection_response J now (rv_term (el_req e)) resp (nodes s i) (el_votes e) = (n', votes, stop)"
  shows "cluster_inv J ids ((set_node i n' s)\<lparr>elections := (elections s)(i := (if stop then None else
       Some (e\<lparr>el_votes := votes, el_pending := ps,
         el_granted := (if votes = el_votes e then el_granted e else p # el_granted e)\<rparr>)))\<rparr>)"
proof -
  note n = cluster_node [OF inv i]
  note n' = StartElection_response_inv [OF n(1) _ b, of 0, simplified, OF room [simplified]]
  have kept: "role_kept (nodes s i) n'" using n'(5) by (auto simp: role_kept_def)
  have s1: "cluster_inv J ids (set_node i n' s)" by (rule kept_node_inv [OF inv(1) i n'(1,3) kept])
  have ei: "election_inv ids s i e" using inv(1) i e by (simp add: cluster_inv_def elections_inv_def)
  have "election_inv ids (set_node i n' s) i (e\<lparr>el_votes := votes, el_pending := ps,
         el_granted := (if votes = el_votes e then el_granted e else p # el_granted e)\<rparr>)"
  proof (cases "votes = el_votes e")
    case True with ei e show ?thesis by (auto simp: election_inv_def)
  next
    case False
    then have g: "votes = el_votes e + 1" "vr_voteGranted resp" using n'(5) by auto
    then have "(p, rv_term (el_req e), i) \<in> ballots s"
      using inv(1) m by (auto simp: cluster_inv_def msgs_inv_def)
    with ei e g show ?thesis by (auto simp: election_inv_def)
  qed
  from set_election_inv [OF s1 this] drop_election_inv [OF s1, of i] show ?thesis by (cases stop) simp_all
qed

lemma end_election_inv:
  assumes inv: "cluster_inv J ids s" "ids_ok ids" and i: "i \<in> set ids"
    and e: "elections s i = Some e" "el_pending e = []" and room: "log_room 1 (rlog (nodes s i))"
    and b: "StartElection_end J (rv_term (el_req e)) (el_votes e) (nodes s i) = Some n'"
  shows "cluster_inv J ids ((set_node i n' s)\<lparr>elections := (elections s)(i := None),
       elected := (if role n' = Leader \<and> role (nodes s i) \<noteq> Leader then insert (currentTerm n', i) (elected s)
                   else elected s)\<rparr>)" (is "cluster_inv J ids ?s")
proof -
  note n = cluster_node [OF inv i]
  note n' = StartElection_end_inv [OF n(1) _ b, of 0, simplified, OF room [simplified]]
  have all: "nodes_inv J ids s" "msgs_inv ids s" "ballots_inv ids s" "elections_inv ids s" "leaders_inv ids s"
    using inv(1) by (auto simp: cluster_inv_def)
  have kept: "vote_kept (nodes s i) n'" using n'(3-5) by (simp add: vote_kept_def)
  have ei: "election_inv ids s i e" using all(4) i e by (simp add: elections_inv_def)
  have won: "\<exists>A. majority ids A \<and> (\<forall>j \<in> A. (j, currentTerm n', i) \<in> ballots s)"
    if "role n' = Leader" "role (nodes s i) \<noteq> Leader"
  proof -
    have w: "currentTerm n' = rv_term (el_req e)" "length ids div 2 + 1 \<le> el_votes e"
      using n'(3,6) that config_for_peers(4) [OF n(2,6) i] by auto
    let ?A = "insert i (set (el_granted e))"
    have "i \<notin> set (el_granted e)" using ei by (auto simp: election_inv_def)
    then have "card ?A = el_votes e" using ei by (simp add: election_inv_def distinct_card)
    then have "majority ids ?A" using ei w i by (auto simp: majority_def election_inv_def)
    moreover have "\<forall>j \<in> ?A. (j, currentTerm n', i) \<in> ballots s" using ei w by (auto simp: election_inv_def)
    ultimately show ?thesis by blast
  qed
  have "nodes_inv J ids ?s" using all(1) n'(1,5) by (auto simp: nodes_inv_def)
  moreover have "msgs_inv ids ?s" using all(2) by (simp add: msgs_inv_def)
  moreover have "ballots_inv ids ?s" using ballots_inv_node [OF all(3) kept] by (simp add: ballots_inv_def)
  moreover have "elections_inv ids ?s" using all(4) by (simp add: elections_inv_def election_inv_def)
  moreover have "leaders_inv ids ?s"
    using all(5) i n'(6) won n'(3) by (auto simp: leaders_inv_def)
  ultimately show ?thesis by (simp add: cluster_inv_def)
qed

lemma restart_inv:
  assumes inv: "cluster_inv J ids s" "ids_ok ids" and i: "i \<in> set ids"
    and w: "rl_wal (rlog (nodes s i)) = Some w" "WriteAheadLog_new (w_dir w) m = Inr w'"
      "Recover J w' = Inr rec" "wal_room (length (rr_entries rec)) w'"
    and b: "RaftNode_new J now (config (nodes s i)) KVStore_new (Some w') = Some n'"
  shows "cluster_inv J ids ((set_node i (RaftNode_Start n') s)\<lparr>elections := (elections s)(i := None)\<rparr>)"
proof -
  note n = cluster_node [OF inv i]
  have room: "wal_room (length (rr_entries rec) + 0) w'" using w(4) by simp
  note r = restart_node [OF n(1) w(1-3) room b]
  have "node_inv J (RaftNode_Start n')" using r(1) by (auto simp: RaftNode_Start_def intro: node_inv_cong)
  moreover have "vote_kept (nodes s i) (RaftNode_Start n')" "role_kept (nodes s i) (RaftNode_Start n')"
    using r(3-6) by (auto simp: vote_kept_def role_kept_def RaftNode_Start_def)
  ultimately have "cluster_inv J ids (set_node i (RaftNode_Start n') s)"
    by (rule kept_node_inv [OF inv(1) i])
  from drop_election_inv [OF this, of i] show ?thesis by simp
qed

lemma response_inv:
  assumes "cluster_inv J ids s" "ids_ok ids" "i \<in> set ids" "log_room 1 (rlog (nodes s i))"
  shows "cluster_inv J ids (set_node i (ReplicateToPeer_response J now p req resp (nodes s i)) s)"
proof -
  have room: "log_room (Suc 0) (rlog (nodes s i))" using assms(4) by simp
  note n' = ReplicateToPeer_response_inv [OF cluster_node(1) [OF assms(1-3)] room refl]
  show ?thesis by (rule kept_node_inv [OF assms(1,3) n'(1,3,4)])
qed

lemma live_step_inv:
  assumes "live_step J ids s s'" "cluster_inv J ids s" "ids_ok ids"
  shows "cluster_inv J ids s'"
  using assms(1)
proof cases
  case (start_election i now timeout n' req)
  then show ?thesis using start_election_inv [OF assms(2,3)] by blast
next
  case (vote i c req now n' resp)
  then show ?thesis using vote_inv [OF assms(2,3)] by blast
next
  case (vote_response i e p ps resp now n' votes stop)
  then show ?thesis using vote_response_inv [OF assms(2,3)] by blast
next
  case (vote_timeout i e p ps)
  have "election_inv ids s i e" using assms(2) vote_timeout by (simp add: cluster_inv_def elections_inv_def)
  then have "election_inv ids s i (e\<lparr>el_pending := ps\<rparr>)" using vote_timeout by (auto simp: election_inv_def)
  then show ?thesis using set_election_inv [OF assms(2)] vote_timeout by simp
next
  case (end_election i e n')
  then show ?thesis using end_election_inv [OF assms(2,3)] by blast
next
  case (replicate_request i p req)
  have "list_all entry_fit (ae_entries req)"
    using cluster_node(1) [OF assms(2,3) replicate_request(2)] replicate_request(4) collect_loop_set
    by (auto simp: node_inv_def list_all_iff ReplicateToPeer_request_def Let_def split: if_splits)
  then show ?thesis unfolding replicate_request(1) by (intro send_inv [OF assms(2)]) auto
next
  case (append i l req now n' resp)
  have fit: "list_all entry_fit (ae_entries req)" using assms(2) append by (auto simp: cluster_inv_def msgs_inv_def)
  have room: "log_room (Suc (length (ae_entries req) + 0)) (rlog (nodes s i))" using append by simp
  note n' = HandleAppendEntries_inv [OF cluster_node(1) [OF assms(2,3) append(2)] room fit append(5)]
  have "cluster_inv J ids (set_node i n' s)" by (rule kept_node_inv [OF assms(2) append(2) n'(1,3,4)])
  then show ?thesis unfolding append(1) by (rule send_inv) auto
next
  case (replicate_response i p req resp now)
  show ?thesis unfolding replicate_response(1) by (rule response_inv [OF assms(2,3) replicate_response(2,5)])
next
  case (apply_committed i now clock n')
  have room: "log_room (Suc 0) (rlog (nodes s i))" using apply_committed by simp
  note n' = ApplyLoop_turn_inv [OF cluster_node(1) [OF assms(2,3) apply_committed(2)] room apply_committed(4,5)]
  show ?thesis unfolding apply_committed(1) by (rule kept_node_inv [OF assms(2) apply_committed(2) n'(1,3,4)])
next
  case (propose i key v opt ttl n' r)
  have room: "log_room (Suc 0) (rlog (nodes s i))" using propose by simp
  note n' = Propose_begin_inv [OF cluster_node(1) [OF assms(2,3) propose(2)] room propose(4-8)]
  show ?thesis unfolding propose(1) by (rule kept_node_inv [OF assms(2) propose(2) n'(1,3,4)])
next
  case (local_store i st)
  have "node_inv J ((nodes s i)\<lparr>store := st\<rparr>)"
    using cluster_node(1) [OF assms(2,3) local_store(2)] by (rule node_inv_cong) simp_all
  then show ?thesis
    unfolding local_store(1) by (rule kept_node_inv [OF assms(2) local_store(2)]) (simp_all add: vote_kept_def role_kept_def)
qed

lemma step_inv:
  assumes "step J ids s s'" "cluster_inv J ids s" "ids_ok ids"
  shows "cluster_inv J ids s'"
  using assms(1)
proof cases
  case live
  then show ?thesis by (rule live_step_inv [OF _ assms(2,3)])
next
  case late
  then show ?thesis by cases (simp add: response_inv [OF assms(2,3)])
next
  case restarted
  then show ?thesis by cases (use restart_inv [OF assms(2,3)] in blast)
qed

lemma initial_inv:
  assumes "initial J ids s" "ids_ok ids" shows "cluster_inv J ids s"
proof -
  have n: "node_inv J (nodes s i) \<and> config_for ids i (config (nodes s i)) \<and> role (nodes s i) = Follower" if i: "i \<in> set ids" for i
  proof -
    obtain now cf m w n where n: "config_for ids i cf" "WriteAheadLog_new [] m = Inr w"
        "RaftNode_new J now cf KVStore_new (Some w) = Some n" "nodes s i = RaftNode_Start n"
      using assms(1) i unfolding initial_def by blast
    have w: "wal_holds J w []" using WriteAheadLog_new_empty [of m J] n(2) by auto
    have id: "id_ok (cf_nodeId cf)" "cf_nodeId cf \<noteq> []"
      using assms(2) i n(1) by (auto simp: ids_ok_def config_for_def list_all_iff)
    have r: "node_inv J n" "role n = Follower" "config n = cf"
      using RaftNode_new_inv [OF w _ _ _ id n(3), of 0] unsigned_less [of "w_currentSegment w"]
      by (simp_all add: wal_room_def replay_all_def RecoveryResult_default_def)
    have "node_inv J (RaftNode_Start n)" using r(1) by (rule node_inv_cong) (simp_all add: RaftNode_Start_def)
    then show ?thesis using n r by (simp add: RaftNode_Start_def)
  qed
  then show ?thesis using assms(1) by (simp add: cluster_inv_def cluster_inv_defs initial_def)
qed

lemma reachable_inv: "reachable J ids s \<Longrightarrow> ids_ok ids \<Longrightarrow> cluster_inv J ids s"
  by (induction rule: reachable.induct) (auto intro: initial_inv step_inv)

lemma one_leader_per_term:
  assumes "reachable J ids s" "ids_ok ids" "(t, i) \<in> elected s" "(t, j) \<in> elected s"
  shows "i = j"
proof -
  have inv: "leaders_inv ids s" "ballots_inv ids s" using reachable_inv [OF assms(1,2)] by (auto simp: cluster_inv_def)
  have won: "\<exists>A. majority ids A \<and> (\<forall>v \<in> A. (v, t, c) \<in> ballots s)" if "(t, c) \<in> elected s" for c
    using inv(1) that by (simp add: leaders_inv_def)
  have once: "c = c'" if "(v, t, c) \<in> ballots s" "(v, t, c') \<in> ballots s" for v c c'
    using inv(2) that unfolding ballots_inv_def by blast
  obtain A where A: "majority ids A" "\<forall>v \<in> A. (v, t, i) \<in> ballots s" using won [OF assms(3)] by blast
  obtain B where B: "majority ids B" "\<forall>v \<in> B. (v, t, j) \<in> ballots s" using won [OF assms(4)] by blast
  show ?thesis by (rule mj.one_winner [of "\<lambda>v c. (v, t, c) \<in> ballots s", OF once A(1) B(1) A(2) B(2)])
qed

end

section \<open>Properties\<close>

text \<open>
  C1: election safety. In every run of a cluster, with messages lost, delayed, reordered or
  repeated and nodes that restart from their segment files, at most one node is ever elected
  in a term.
\<close>

theorem election_safety:
  assumes "json_sized J" "ids_ok ids" "reachable J ids s" "(t, i) \<in> elected s" "(t, j) \<in> elected s"
  shows "i = j"
  using json_sized.one_leader_per_term [OF assms(1,3,2,4,5)] .

lemma single_run:
  "\<exists>s0 s1 s2. initial json_text [''a''] s0 \<and> live_step json_text [''a''] s0 s1 \<and> live_step json_text [''a''] s1 s2 \<and>
     (1, ''a'') \<in> elected s2 \<and> role (nodes s2 ''a'') = Leader \<and>
     length (entries (rlog (nodes s1 ''a''))) = 1 \<and> length (entries (rlog (nodes s2 ''a''))) = 2 \<and>
     config (nodes s1 ''a'') = sample_config ''a'' [] \<and> config (nodes s2 ''a'') = sample_config ''a'' []"
proof -
  let ?ids = "[''a'']"
  obtain w where w: "WriteAheadLog_new [] 64 = Inr w" "wal_holds json_text w []"
    using WriteAheadLog_new_empty [of 64 json_text] by blast
  have ids: "ids_ok ?ids" by (simp add: ids_ok_def id_ok_def)
  let ?n = "RaftNode_Start (sample_node w ''a'' [])"
  let ?s0 = "\<lparr>nodes = (\<lambda>_. ?n), msgs = {}, elections = (\<lambda>_. None), ballots = {}, elected = {}\<rparr>"
  have inv: "node_inv json_text (sample_node w ''a'' [])" "log_room 2 (rlog ?n)"
    using sample_node_inv [OF w(2), of "''a''" "[]"] by (auto simp: id_ok_def RaftNode_Start_def intro: log_room_mono)
  have inv': "node_inv json_text ?n" using inv(1) by (rule node_inv_cong) (simp_all add: RaftNode_Start_def)
  have cf: "config_for ?ids ''a'' (sample_config ''a'' [])" by (simp add: config_for_def sample_config_def)
  have "RaftNode_new json_text 0 (sample_config ''a'' []) KVStore_new (Some w) = Some (sample_node w ''a'' [])"
    using jt.fresh_node(1) [OF w(2), of "sample_config ''a'' []" 0] wal_room_length [OF w(2), of 0]
    by (simp add: sample_node_def sample_config_def id_ok_def)
  then have i0: "initial json_text ?ids ?s0"
    using w(1) cf unfolding initial_def by simp blast
  have room: "log_room (Suc 1) (rlog ?n)" "log_room 1 (rlog ?n)" 
    using log_room_mono [OF inv(2), of "Suc 1"] log_room_mono [OF inv(2), of 1] by simp_all
  obtain n1 req where n1: "StartElection_begin json_text 5 ?n = Some (n1, req)"
    using jt.StartElection_begin_ok [OF inv' room(2)] by blast
  note b = jt.StartElection_begin_inv [OF inv' room(1) n1]
  have f: "currentTerm ?n = 0" "config ?n = sample_config ''a'' []" "role ?n = Follower" "running ?n" "lastHeartbeat ?n = 0"
    by (simp_all add: RaftNode_Start_def sample_node_def RaftNode_init_def)
  define s1 where "s1 = (send ((\<lambda>p. VoteReq ''a'' p req) ` set (peers n1)) (add_ballot ''a'' (set_node ''a'' n1 ?s0)))
       \<lparr>elections := (elections ?s0)(''a'' := Some \<lparr>el_req = req, el_votes = 1, el_pending = peers n1, el_granted = []\<rparr>)\<rparr>"
  have l1: "live_step json_text ?ids ?s0 s1"
    unfolding s1_def by (rule live_step.start_election [where now = 5 and timeout = 5]) (use n1 room f in \<open>simp_all add: election_due_def\<close>)
  obtain n2 where l: "BecomeLeader json_text n1 = Some n2" using jt.BecomeLeader_ok [OF b(1,2)] by blast
  then have n2: "currentTerm n2 = 1" "role n2 = Leader" using b(3) f(1) by (auto elim!: BecomeLeader_fields)
  have p: "peers n1 = []" "QuorumSize n1 = 1" using b(6) f(2) by (simp_all add: peers_def QuorumSize_def sample_config_def)
  have e: "StartElection_end json_text (rv_term req) 1 n1 = Some n2" using l b(5,8) p by (simp add: StartElection_end_def)
  define s2 where "s2 = (set_node ''a'' n2 s1)\<lparr>elections := (elections s1)(''a'' := None),
       elected := (if role n2 = Leader \<and> role (nodes s1 ''a'') \<noteq> Leader then insert (currentTerm n2, ''a'') (elected s1)
                   else elected s1)\<rparr>"
  have l2: "live_step json_text ?ids s1 s2"
    unfolding s2_def by (rule live_step.end_election [where e = "\<lparr>el_req = req, el_votes = 1, el_pending = [], el_granted = []\<rparr>"])
      (use e p b(2) in \<open>simp_all add: s1_def\<close>)
  have "(1, ''a'') \<in> elected s2" "role (nodes s2 ''a'') = Leader" using n2 b(5) by (simp_all add: s2_def s1_def)
  moreover have "length (entries (rlog n2)) = 2"
    using l b(7) by (elim BecomeLeader_fields) (simp add: Append_entries RaftNode_Start_def sample_node_def RaftNode_init_def RaftLog_new_def)
  then have "length (entries (rlog (nodes s1 ''a''))) = 1" "length (entries (rlog (nodes s2 ''a''))) = 2"
    using b(7) by (simp_all add: s1_def s2_def RaftNode_Start_def sample_node_def RaftNode_init_def RaftLog_new_def)
  moreover have "config (nodes s1 ''a'') = sample_config ''a'' []" "config (nodes s2 ''a'') = sample_config ''a'' []"
    using b(6) f(2) l by (auto simp: s1_def s2_def elim!: BecomeLeader_fields)
  ultimately show ?thesis using i0 l1 l2 by blast
qed

lemma single_elected:
  "\<exists>s. reachable json_text [''a''] s \<and> (1, ''a'') \<in> elected s"
proof -
  obtain s0 s1 s2 where s: "initial json_text [''a''] s0" "live_step json_text [''a''] s0 s1" "live_step json_text [''a''] s1 s2"
    "(1, ''a'') \<in> elected s2" using single_run by blast
  have "reachable json_text [''a''] s2"
    by (rule reachable.next_state [OF reachable.next_state [OF reachable.start [OF s(1)] step.live [OF s(2)]] step.live [OF s(3)]])
  then show ?thesis using s(4) by blast
qed

theorem election_safety_witness:
  "\<exists>s. reachable json_text [''a''] s \<and> {j. (1, j) \<in> elected s} = {''a''}"
proof -
  obtain s where s: "reachable json_text [''a''] s" "(1, ''a'') \<in> elected s" using single_elected by blast
  have "ids_ok [''a'']" by (simp add: ids_ok_def id_ok_def)
  note one = election_safety [OF jt.json_sized_axioms this s(1) _ s(2)]
  have "{j. (1, j) \<in> elected s} = {''a''}" using s(2) by (blast dest: one)
  with s(1) show ?thesis by blast
qed

text \<open>
  C8: what a node would find on its disk is what it works with. In every reachable state of
  the cluster the write-ahead log of every node holds records whose replay gives exactly its
  current term and vote and whose entries can all be read back, the log in memory is not
  empty, and a node that is not a follower has voted for itself.
\<close>

theorem disk_matches_memory:
  assumes "json_sized J" "ids_ok ids" "reachable J ids s" "i \<in> set ids"
  shows "\<exists>w rs. rl_wal (rlog (nodes s i)) = Some w \<and> wal_holds J w rs \<and>
      rr_hardState (replay_all rs) = \<lparr>hs_term = currentTerm (nodes s i), hs_votedFor = votedFor (nodes s i)\<rparr> \<and>
      list_all (rec_entry J) rs \<and> entries (rlog (nodes s i)) \<noteq> [] \<and>
      (role (nodes s i) \<noteq> Follower \<longrightarrow> votedFor (nodes s i) = i)"
proof -
  have "node_inv J (nodes s i)" "config_for ids i (config (nodes s i))"
    using json_sized.reachable_inv [OF assms(1,3,2)] assms(4) by (auto simp: cluster_inv_def nodes_inv_def)
  then show ?thesis
    by (auto simp: node_inv_def node_durable_def log_held_def hard_state_def config_for_def nodeId_def)
qed

theorem disk_matches_memory_witness:
  "\<exists>s w rs. reachable json_text [''a''] s \<and> rl_wal (rlog (nodes s ''a'')) = Some w \<and> wal_holds json_text w rs \<and>
     hs_term (rr_hardState (replay_all rs)) = currentTerm (nodes s ''a'') \<and> (1, ''a'') \<in> elected s"
proof -
  obtain s where s: "reachable json_text [''a''] s" "(1, ''a'') \<in> elected s" using single_elected by blast
  have "ids_ok [''a'']" by (simp add: ids_ok_def id_ok_def)
  from disk_matches_memory [OF jt.json_sized_axioms this s(1), of "''a''"] s show ?thesis by fastforce
qed

end
