(* ===== verification/LogMatching.thy ===== *)
theory LogMatching
  imports Cluster "HOL-Library.Sublist"
begin

text \<open>
  Log matching for the cluster of \<open>Cluster\<close>. The proof keeps the history of a run: the log of the
  leader of each term. Every log of a node is made of prefixes of these, every request carries a
  piece of one, and no step breaks that.
\<close>

section \<open>Histories\<close>

text \<open>
  The history of a run gives for each term the log of its leader, as far as it has grown; it is
  empty for a term without a leader. A log matches the history if every prefix that ends in an
  entry of some term is a prefix of the log of the leader of that term.
\<close>

type_synonym history = "u64 \<Rightarrow> LogEntry list"

definition sentinel :: LogEntry where
  "sentinel = LogEntry_default\<lparr>le_term := 0, le_index := 0, le_opType := OpNoOp\<rparr>"

definition matches :: "history \<Rightarrow> LogEntry list \<Rightarrow> bool" where
  "matches h L \<longleftrightarrow> L \<noteq> [] \<and> hd L = sentinel \<and>
     (\<forall>k < length L. k < length (h (le_term (L ! k))) \<and> take (Suc k) L = take (Suc k) (h (le_term (L ! k))))"

definition extends :: "history \<Rightarrow> history \<Rightarrow> bool" where
  "extends h h' \<longleftrightarrow> (\<forall>t. \<exists>ys. h' t = h t @ ys)"

definition indexed :: "LogEntry list \<Rightarrow> bool" where
  "indexed L \<longleftrightarrow> length L \<le> 2 ^ 64 \<and> (\<forall>k < length L. le_index (L ! k) = of_nat k)"

lemma matches_extends:
  assumes "matches h L" "extends h h'" shows "matches h' L"
proof -
  have "k < length (h' t) \<and> take (Suc k) (h' t) = take (Suc k) (h t)" if "k < length (h t)" for k t
  proof -
    obtain ys where "h' t = h t @ ys" using assms(2) unfolding extends_def by blast
    then show ?thesis using that by simp
  qed
  then show ?thesis using assms(1) by (simp add: matches_def)
qed

lemma matches_snoc:
  assumes "matches h L" "h (le_term e) = [] \<or> h (le_term e) = L"
  shows "extends h (h(le_term e := L @ [e]))" "matches (h(le_term e := L @ [e])) (L @ [e])"
proof -
  let ?h = "h(le_term e := L @ [e])"
  show e: "extends h ?h" unfolding extends_def
  proof
    fix t show "\<exists>ys. ?h t = h t @ ys" using assms(2) by (cases "t = le_term e") auto
  qed
  have m: "matches ?h L" by (rule matches_extends [OF assms(1) e])
  have "k < length (?h (le_term ((L @ [e]) ! k))) \<and> take (Suc k) (L @ [e]) = take (Suc k) (?h (le_term ((L @ [e]) ! k)))"
    if "k < length (L @ [e])" for k
  proof (cases "k < length L")
    case True
    then have "(L @ [e]) ! k = L ! k" "take (Suc k) (L @ [e]) = take (Suc k) L" by (simp_all add: nth_append)
    then show ?thesis using m True unfolding matches_def by metis
  next
    case False
    then have "k = length L" using that by simp
    then show ?thesis by simp
  qed
  then show "matches ?h (L @ [e])" using m unfolding matches_def by simp
qed

lemma matches_take: "matches h L \<Longrightarrow> 0 < k \<Longrightarrow> matches h (take k L)"
  unfolding matches_def by (auto simp: min_def hd_take)

lemma matches_common:
  assumes "matches h L" "matches h M" "k < length L" "k < length M" "le_term (L ! k) = le_term (M ! k)"
  shows "take (Suc k) L = take (Suc k) M"
  using assms unfolding matches_def by metis

lemma indexed_take: "indexed L \<Longrightarrow> indexed (take k L)"
  by (auto simp: indexed_def)

lemma indexed_wf: "log_wf l \<Longrightarrow> snapshotIndex l = 0 \<Longrightarrow> indexed (entries l)"
  by (simp add: log_wf_def indexed_def)

section \<open>Merging\<close>

lemma merge_cases:
  assumes "\<And>j. j < length os \<Longrightarrow> j < length ns \<Longrightarrow> le_term (os ! j) = le_term (ns ! j) \<Longrightarrow> os ! j = ns ! j"
  shows "merge os ns = ns \<or> merge os ns = os \<and> take (length ns) os = ns"
  using assms
proof (induction os ns rule: merge.induct)
  case (3 e os n ns)
  show ?case
  proof (cases "le_term e = le_term n")
    case True
    then have "e = n" using "3.prems" [of 0] by simp
    have "merge os ns = ns \<or> merge os ns = os \<and> take (length ns) os = ns"
      by (rule "3.IH" [OF True]) (use "3.prems" [of "Suc _"] in simp)
    then show ?thesis using True \<open>e = n\<close> by auto
  qed simp
qed auto

lemma merge_same: "take (length ns) os = ns \<Longrightarrow> merge os ns = os"
  by (induction os ns rule: merge.induct) auto

lemma merge_matches:
  assumes "matches h L" "matches h H" "P < length L" "P + n < length H" "take (Suc P) L = take (Suc P) H"
    "es = take n (drop (Suc P) H)"
  defines "L' \<equiv> take (Suc P) L @ merge (drop (Suc P) L) es"
  shows "matches h L'" "take (Suc P + n) L' = take (Suc P + n) H" "L' = L \<or> L' = take (Suc P + n) H"
    "c < length L \<Longrightarrow> take (Suc c) L = take (Suc c) H \<Longrightarrow> take (Suc c) L' = take (Suc c) H"
proof -
  have n: "length es = n" using assms(4,6) by simp
  have "merge (drop (Suc P) L) es = es \<or> merge (drop (Suc P) L) es = drop (Suc P) L \<and> take (length es) (drop (Suc P) L) = es"
  proof (rule merge_cases)
    fix j assume j: "j < length (drop (Suc P) L)" "j < length es" "le_term (drop (Suc P) L ! j) = le_term (es ! j)"
    have "le_term (L ! (Suc P + j)) = le_term (H ! (Suc P + j))" using j n assms(4,6) by simp
    then have "take (Suc (Suc P + j)) L = take (Suc (Suc P + j)) H"
      by (intro matches_common [OF assms(1,2)]) (use j n assms(4) in simp_all)
    then have "L ! (Suc P + j) = H ! (Suc P + j)" by (metis lessI nth_take)
    then show "drop (Suc P) L ! j = es ! j" using j n assms(4,6) by simp
  qed
  moreover have H: "take (Suc P + n) H = take (Suc P) H @ es" unfolding assms(6) by (rule take_add)
  ultimately have c: "L' = take (Suc P + n) H \<or> L' = L \<and> take (Suc P + n) L = take (Suc P + n) H"
    unfolding L'_def using n take_add [of "Suc P" n L] append_take_drop_id [of "Suc P" L] assms(5) by auto
  then show "L' = L \<or> L' = take (Suc P + n) H" by blast
  show "take (Suc P + n) L' = take (Suc P + n) H" using c by auto
  show "take (Suc c) L' = take (Suc c) H" if a: "c < length L" "take (Suc c) L = take (Suc c) H"
  proof (cases "Suc P + n \<le> c")
    case True
    have "take (Suc P + n) L = take (Suc P + n) H" using arg_cong [OF a(2), of "take (Suc P + n)"] True by (simp add: min_def)
    then have "take (length es) (drop (Suc P) L) = es" using n assms(6) by (metis add_diff_cancel_left' drop_take)
    then have "L' = L" unfolding L'_def by (simp add: merge_same)
    then show ?thesis using a(2) by simp
  next
    case False
    then have "Suc c \<le> Suc P + n" by simp
    then show ?thesis using \<open>take (Suc P + n) L' = take (Suc P + n) H\<close> by (metis min.absorb1 take_take)
  qed
  show "matches h L'" using c assms(1) matches_take [OF assms(2), of "Suc P + n"] by auto
qed

section \<open>Operations that keep the log\<close>

definition same_log :: "RaftNode \<Rightarrow> RaftNode \<Rightarrow> bool" where
  "same_log n n' \<longleftrightarrow> entries (rlog n') = entries (rlog n) \<and> snapshotIndex (rlog n') = snapshotIndex (rlog n) \<and>
     snapshotTerm (rlog n') = snapshotTerm (rlog n)"

lemma same_log_refl: "same_log n n"
  by (simp add: same_log_def)

lemma BecomeFollower_same: "BecomeFollower J now t lead n = Some n' \<Longrightarrow> same_log n n'"
  by (simp add: same_log_def BecomeFollower_fields)

lemma step_up_same: "step_up J now t lead n = Some n' \<Longrightarrow> same_log n n'"
  by (auto simp: step_up_def same_log_refl intro: BecomeFollower_same split: if_splits)

lemma PersistHardState_same: "PersistHardState J n = Some n' \<Longrightarrow> same_log n n'"
  by (erule Persist_frame) (simp add: same_log_def)

lemma StartElection_begin_same:
  assumes "StartElection_begin J now n = Some (n', req)" shows "same_log n n'"
proof -
  obtain n1 where "PersistHardState J (n\<lparr>currentTerm := currentTerm n + 1, votedFor := nodeId n, role := Candidate\<rparr>) = Some n1"
      "n' = n1\<lparr>lastHeartbeat := now\<rparr>"
    using assms by (auto simp: StartElection_begin_def Let_def split: bind_splits)
  then show ?thesis using PersistHardState_same by (fastforce simp: same_log_def)
qed

lemma StartElection_response_same:
  "StartElection_response J now t resp n votes = (n', votes', stop) \<Longrightarrow> same_log n n'"
  by (auto simp: StartElection_response_def same_log_refl follower_state_simps intro: BecomeFollower_same split: if_splits option.splits)
    (simp add: same_log_def follower_state_simps)

lemma HandleRequestVote_same:
  assumes "HandleRequestVote J now req n = Some (n', resp)" shows "same_log n n'"
proof (cases "rv_term req < currentTerm n")
  case True
  then show ?thesis using assms by (simp add: HandleRequestVote_def same_log_refl)
next
  case False
  then obtain n1 where n1: "step_up J now (rv_term req) [] n = Some n1"
    "n' = n1 \<or> PersistHardState J (ResetElectionTimer now (n1\<lparr>votedFor := rv_candidateId req\<rparr>)) = Some n'"
    using assms by (auto simp: HandleRequestVote_def Let_def split: bind_splits if_splits)
  then show ?thesis
    using step_up_same [OF n1(1)] PersistHardState_same [of J "ResetElectionTimer now (n1\<lparr>votedFor := rv_candidateId req\<rparr>)" n']
    by (auto simp: same_log_def ResetElectionTimer_def)
qed

lemma ReplicateToPeer_response_same: "same_log n (ReplicateToPeer_response J now p req resp n)"
  using BecomeFollower_same [of J now "ar_term resp" "[]" n]
  by (auto simp: ReplicateToPeer_response_def Let_def same_log_def AdvanceCommitIndex_frame follower_state_simps split: option.splits)

lemma ApplyLoop_turn_same:
  assumes "ApplyLoop_turn J clock now n = Some n'" "RaftLog_Size (rlog n) \<le> cf_snapshotThreshold (config n)"
  shows "same_log n n'"
  using assms ApplyLoop_inner_frame [of clock n] by (simp add: ApplyLoop_turn_def MaybeSnapshot_def same_log_def)

lemma Propose_begin_cases:
  assumes "Propose_begin J key v opt ttl n = Some (n', r)"
  obtains "n' = n" | e where "role n = Leader" "le_term e = currentTerm n" "le_index e = LastIndex (rlog n) + 1"
    "RaftLog_Append J e (rlog n) = Some (rlog n')" "role n' = role n" "currentTerm n' = currentTerm n"
  using assms by (auto simp: Propose_begin_def propose_entry_def LogEntry_default_def Let_def split: if_splits bind_splits) force

section \<open>The invariant\<close>

definition hist_ok :: "history \<Rightarrow> (u64 \<times> string) set \<Rightarrow> bool" where
  "hist_ok h E \<longleftrightarrow> h 0 = [sentinel] \<and>
     (\<forall>t. h t \<noteq> [] \<longrightarrow> matches h (h t) \<and> indexed (h t) \<and> (t = 0 \<or> t \<in> fst ` E))"

definition node_ok :: "history \<Rightarrow> RaftNode \<Rightarrow> bool" where
  "node_ok h n \<longleftrightarrow> log_wf (rlog n) \<and> snapshotIndex (rlog n) = 0 \<and> matches h (entries (rlog n)) \<and>
     (role n = Leader \<longrightarrow> entries (rlog n) = h (currentTerm n)) \<and> (role n \<noteq> Follower \<longrightarrow> currentTerm n \<noteq> 0)"

text \<open>
  The entries of a request are a piece of the log of the leader that sent it, unless it names a
  previous entry that no log has.
\<close>

definition piece_ok :: "history \<Rightarrow> AppendEntriesRequest \<Rightarrow> bool" where
  "piece_ok h req \<longleftrightarrow>
     (let H = h (ae_term req); P = unat (ae_prevLogIndex req); n = length (ae_entries req)
      in P + n < length H \<and> ae_entries req = take n (drop (Suc P) H) \<and> ae_prevLogTerm req = le_term (H ! P) \<or>
         ae_prevLogTerm req = 0 \<and> P \<noteq> 0)"

definition elected_ok :: "string list \<Rightarrow> cluster \<Rightarrow> bool" where
  "elected_ok ids s \<longleftrightarrow> (\<forall>t i. (t, i) \<in> elected s \<longrightarrow> t \<noteq> 0 \<and> i \<in> set ids \<and> t \<le> currentTerm (nodes s i) \<and>
     (t = currentTerm (nodes s i) \<longrightarrow> role (nodes s i) \<noteq> Candidate))"

definition requests_ok :: "history \<Rightarrow> cluster \<Rightarrow> bool" where
  "requests_ok h s \<longleftrightarrow> (\<forall>l p req. AppReq l p req \<in> msgs s \<longrightarrow> (ae_term req, l) \<in> elected s \<and> p \<noteq> l \<and> piece_ok h req)"

definition log_inv :: "history \<Rightarrow> string list \<Rightarrow> cluster \<Rightarrow> bool" where
  "log_inv h ids s \<longleftrightarrow> hist_ok h (elected s) \<and> (\<forall>i \<in> set ids. node_ok h (nodes s i)) \<and> elected_ok ids s \<and> requests_ok h s"

lemmas log_inv_defs = log_inv_def elected_ok_def requests_ok_def

lemma piece_ok_extends:
  assumes "piece_ok h req" "extends h h'" shows "piece_ok h' req"
proof -
  obtain ys where "h' (ae_term req) = h (ae_term req) @ ys" using assms(2) unfolding extends_def by blast
  then show ?thesis using assms(1) by (auto simp: piece_ok_def Let_def nth_append)
qed

lemma node_ok_extends:
  "node_ok h n \<Longrightarrow> extends h h' \<Longrightarrow> h' (currentTerm n) = h (currentTerm n) \<or> role n \<noteq> Leader \<Longrightarrow> node_ok h' n"
  by (auto simp: node_ok_def intro: matches_extends)

lemma node_ok_same:
  assumes "node_ok h n" "same_log n n'" "role_kept n n'" shows "node_ok h n'"
  using assms log_wf_cong [of "rlog n'" "rlog n"] by (auto simp: node_ok_def same_log_def role_kept_def)

lemma elected_ok_node:
  assumes "elected_ok ids s"
    "currentTerm (nodes s i) < currentTerm n' \<or> currentTerm n' = currentTerm (nodes s i) \<and> (role n' = Candidate \<longrightarrow> role (nodes s i) = Candidate)"
  shows "elected_ok ids (set_node i n' s)"
proof -
  have "t \<noteq> 0 \<and> j \<in> set ids \<and> t \<le> currentTerm (nodes (set_node i n' s) j) \<and>
      (t = currentTerm (nodes (set_node i n' s) j) \<longrightarrow> role (nodes (set_node i n' s) j) \<noteq> Candidate)" if "(t, j) \<in> elected s" for t j
  proof -
    have "t \<noteq> 0 \<and> j \<in> set ids \<and> t \<le> currentTerm (nodes s j) \<and> (t = currentTerm (nodes s j) \<longrightarrow> role (nodes s j) \<noteq> Candidate)"
      using assms(1) that by (simp add: elected_ok_def)
    then show ?thesis using assms(2) by (cases "j = i") auto
  qed
  then show ?thesis by (simp add: elected_ok_def)
qed

lemma log_inv_node:
  assumes "log_inv h ids s" "i \<in> set ids" "node_ok h n'"
    "currentTerm (nodes s i) < currentTerm n' \<or> currentTerm n' = currentTerm (nodes s i) \<and> (role n' = Candidate \<longrightarrow> role (nodes s i) = Candidate)"
  shows "log_inv h ids (set_node i n' s)"
proof -
  have "elected_ok ids (set_node i n' s)" using assms(1) by (intro elected_ok_node [OF _ assms(4)]) (simp add: log_inv_def)
  then show ?thesis using assms(1,3) by (auto simp: log_inv_def requests_ok_def)
qed

lemma kept_terms:
  assumes "role_kept n n'" "vote_kept n n'"
  shows "currentTerm n < currentTerm n' \<or> currentTerm n' = currentTerm n \<and> (role n' = Candidate \<longrightarrow> role n = Candidate)"
  using assms by (auto simp: role_kept_def vote_kept_def)

lemma log_inv_same:
  assumes "log_inv h ids s" "i \<in> set ids" "same_log (nodes s i) n'" "role_kept (nodes s i) n'" "vote_kept (nodes s i) n'"
  shows "log_inv h ids (set_node i n' s)"
  using assms(1,2) by (intro log_inv_node [OF assms(1,2) _ kept_terms [OF assms(4,5)]] node_ok_same [OF _ assms(3,4)]) (simp add: log_inv_def)

lemma log_inv_cong:
  "log_inv h ids s \<Longrightarrow> nodes s' = nodes s \<Longrightarrow> elected s' = elected s \<Longrightarrow>
   (\<And>l p req. AppReq l p req \<in> msgs s' \<Longrightarrow> AppReq l p req \<in> msgs s) \<Longrightarrow> log_inv h ids s'"
  by (simp add: log_inv_def elected_ok_def requests_ok_def) blast

section \<open>Growth of a leader's log\<close>

lemma hist_ok_snoc:
  assumes "hist_ok h E" "matches h L" "h (le_term e) = [] \<or> h (le_term e) = L" "indexed (L @ [e])"
    "le_term e \<noteq> 0" "le_term e \<in> fst ` E'" "E \<subseteq> E'"
  shows "hist_ok (h(le_term e := L @ [e])) E'"
proof -
  let ?h = "h(le_term e := L @ [e])"
  note x = matches_snoc [OF assms(2,3)]
  have "matches ?h (?h t) \<and> indexed (?h t) \<and> (t = 0 \<or> t \<in> fst ` E')" if "?h t \<noteq> []" for t
  proof (cases "t = le_term e")
    case True
    then show ?thesis using x(2) assms(4,6) by simp
  next
    case False
    then have "matches h (h t)" "indexed (h t)" "t = 0 \<or> t \<in> fst ` E" using that assms(1) by (auto simp: hist_ok_def)
    then show ?thesis using False matches_extends [OF _ x(1)] assms(7) by auto
  qed
  then show ?thesis using assms(1,5) unfolding hist_ok_def by simp
qed

lemma indexed_snoc:
  assumes "log_wf l" "snapshotIndex l = 0" "length (entries l) < 2 ^ 64" "le_index e = LastIndex l + 1"
  shows "indexed (entries l @ [e])" "LastIndex l \<noteq> - 1"
proof -
  have ne: "entries l \<noteq> []" using assms(1) by (simp add: log_wf_def)
  have l: "unat (LastIndex l) = length (entries l) - 1" using LastIndex_wf(2) [OF assms(1)] assms(2) by simp
  show "LastIndex l \<noteq> - 1"
  proof
    assume "LastIndex l = - 1"
    then have "length (entries l) - 1 = 2 ^ 64 - 1" using l by (simp add: unsigned_minus_1_eq_mask mask_eq_exp_minus_1)
    then show False using assms(3) ne by simp
  qed
  have "le_index e = of_nat (length (entries l))"
    using LastIndex_wf(1) [OF assms(1)] assms(2,4) ne by (cases "entries l") simp_all
  then show "indexed (entries l @ [e])"
    using indexed_wf [OF assms(1,2)] assms(3) by (auto simp: indexed_def nth_append less_Suc_eq)
qed

text \<open>A leader appends an entry of its term, or a new leader begins its log with what it has and such an entry.\<close>

lemma leader_append:
  assumes "log_inv h ids s" "i \<in> set ids" "RaftLog_Append J e (rlog (nodes s i)) = Some (rlog n')"
    "le_index e = LastIndex (rlog (nodes s i)) + 1" "length (entries (rlog (nodes s i))) < 2 ^ 64"
    "le_term e = currentTerm (nodes s i)" "currentTerm n' = currentTerm (nodes s i)" "role n' = Leader"
    "role (nodes s i) \<noteq> Follower" "h (le_term e) = [] \<or> h (le_term e) = entries (rlog (nodes s i))"
    "\<And>j. j \<in> set ids \<Longrightarrow> j \<noteq> i \<Longrightarrow> role (nodes s j) = Leader \<Longrightarrow> currentTerm (nodes s j) \<noteq> le_term e"
    "E' = insert (le_term e, i) (elected s)"
  defines "h' \<equiv> h(le_term e := entries (rlog (nodes s i)) @ [e])"
  shows "extends h h'" "log_inv h' ids ((set_node i n' s)\<lparr>elected := E'\<rparr>)"
proof -
  let ?n = "nodes s i"
  have n: "node_ok h ?n" using assms(1,2) by (simp add: log_inv_def)
  then have wf: "log_wf (rlog ?n)" "snapshotIndex (rlog ?n) = 0" "matches h (entries (rlog ?n))" "currentTerm ?n \<noteq> 0"
    using assms(9) by (auto simp: node_ok_def)
  note ix = indexed_snoc [OF wf(1,2) assms(5,4)]
  note ap = Append_wf [OF wf(1) assms(4) ix(2) assms(3)]
  note m = matches_snoc [OF wf(3) assms(10)]
  show x: "extends h h'" unfolding h'_def by (rule m(1))
  have i: "hist_ok h (elected s)" "elected_ok ids s" "requests_ok h s" "\<And>j. j \<in> set ids \<Longrightarrow> node_ok h (nodes s j)"
    using assms(1) by (simp_all add: log_inv_def)
  have "le_term e \<noteq> 0" "le_term e \<in> fst ` E'" "elected s \<subseteq> E'" using assms(6,12) wf(4) by (simp_all add: subset_insertI)
  then have hist: "hist_ok h' E'" unfolding h'_def by (rule hist_ok_snoc [OF i(1) wf(3) assms(10) ix(1)])
  have new: "node_ok h' n'" using ap(1-3) wf(2,4) m(2) assms(6-8) unfolding node_ok_def h'_def by simp
  have other: "node_ok h' (nodes s j)" if "j \<in> set ids" "j \<noteq> i" for j
  proof (rule node_ok_extends [OF i(4) [OF that(1)] x])
    show "h' (currentTerm (nodes s j)) = h (currentTerm (nodes s j)) \<or> role (nodes s j) \<noteq> Leader"
      using assms(11) [OF that] unfolding h'_def by auto
  qed
  have el: "elected_ok ids ((set_node i n' s)\<lparr>elected := E'\<rparr>)"
    using i(2) assms(2,6-8) wf(4) unfolding elected_ok_def assms(12) by simp
  have "requests_ok h' ((set_node i n' s)\<lparr>elected := E'\<rparr>)"
    using i(3) piece_ok_extends [OF _ x] unfolding requests_ok_def assms(12) by simp
  with hist new other el show "log_inv h' ids ((set_node i n' s)\<lparr>elected := E'\<rparr>)" by (simp add: log_inv_def)
qed

section \<open>Followers\<close>

lemma follows_indexed:
  "indexed H \<Longrightarrow> P + n < length H \<Longrightarrow> follows (of_nat P) (take n (drop (Suc P) H))"
proof (induction n arbitrary: P)
  case (Suc n)
  have d: "drop (Suc P) H = H ! Suc P # drop (Suc (Suc P)) H" using Suc.prems(2) by (intro Cons_nth_drop_Suc [symmetric]) simp
  have "le_index (H ! Suc P) = of_nat (Suc P)" using Suc.prems unfolding indexed_def by (auto simp del: of_nat_Suc)
  moreover have "follows (of_nat (Suc P)) (take n (drop (Suc (Suc P)) H))" by (rule Suc.IH) (use Suc.prems in simp_all)
  ultimately show ?case unfolding d by (simp add: add.commute)
qed simp

lemma term_zero:
  assumes "matches h L" "h 0 = [sentinel]" "k < length L" "le_term (L ! k) = 0" shows "k = 0"
  using assms unfolding matches_def by force

lemma AppendAll_piece:
  assumes "log_wf l" "snapshotIndex l = 0" "matches h (entries l)" "hist_ok h E" "piece_ok h req"
    "ae_prevLogIndex req = 0 \<or> ae_prevLogIndex req \<le> LastIndex l \<and> GetTerm (ae_prevLogIndex req) l = ae_prevLogTerm req"
    "RaftLog_AppendAll J (ae_entries req) l = Some l'"
  defines "H \<equiv> h (ae_term req)" and "m \<equiv> unat (ae_prevLogIndex req) + length (ae_entries req)"
  shows "log_wf l'" "snapshotIndex l' = 0" "matches h (entries l')" "m < length H" "take (Suc m) (entries l') = take (Suc m) H"
    "entries l' = entries l \<or> entries l' = take (Suc m) H"
    "\<And>c. c < length (entries l) \<Longrightarrow> take (Suc c) (entries l) = take (Suc c) H \<Longrightarrow> take (Suc c) (entries l') = take (Suc c) H"
proof -
  let ?p = "ae_prevLogIndex req" and ?L = "entries l"
  let ?P = "unat ?p" and ?n = "length (ae_entries req)"
  have h0: "h 0 = [sentinel]" using assms(4) by (simp add: hist_ok_def)
  have P: "?p \<le> LastIndex l" "?P < length ?L"
  proof -
    show 1: "?p \<le> LastIndex l" using assms(6) by auto
    then show "?P < length ?L" using Offset_in_range [OF assms(1), of ?p] assms(2) by (simp add: Offset_def)
  qed
  have t: "?p \<noteq> 0 \<Longrightarrow> le_term (?L ! ?P) = ae_prevLogTerm req"
    using assms(6) P(1) GetTerm_wf [OF assms(1), of ?p] assms(2) by (auto simp: Offset_def)
  have p: "?P + ?n < length H" "ae_entries req = take ?n (drop (Suc ?P) H)" "ae_prevLogTerm req = le_term (H ! ?P)"
    using assms(5) t term_zero [OF assms(3) h0 P(2)] unfolding piece_ok_def Let_def H_def by (auto simp: unat_eq_0)
  then have H: "matches h H" "indexed H" using assms(4) unfolding hist_ok_def H_def by (metis list.size(3) not_less_zero)+
  have "take (Suc ?P) ?L = take (Suc ?P) H"
  proof (cases "?p = 0")
    case True
    then show ?thesis using assms(3) H(1) by (cases ?L; cases H) (auto simp: matches_def)
  next
    case False
    then show ?thesis using matches_common [OF assms(3) H(1) P(2)] p(1,3) t by simp
  qed
  note m = merge_matches [OF assms(3) H(1) P(2) p(1) this p(2)]
  have "follows ?p (ae_entries req)" using follows_indexed [OF H(2) p(1)] p(2) by simp
  moreover have "?P + ?n < 2 ^ 64" using p(1) H(2) unfolding indexed_def by linarith
  ultimately have e: "entries l' = take (Suc ?P) ?L @ merge (drop (Suc ?P) ?L) (ae_entries req)" "log_wf l'" "snapshotIndex l' = 0"
    using AppendAll_merge [OF assms(1) _ P(1) _ _ assms(7)] assms(2) by (simp_all add: Offset_def)
  show "log_wf l'" "snapshotIndex l' = 0" using e by simp_all
  show "matches h (entries l')" "m < length H" "take (Suc m) (entries l') = take (Suc m) H"
    "entries l' = entries l \<or> entries l' = take (Suc m) H" using m(1-3) p(1) unfolding e(1) m_def by simp_all
  show "take (Suc c) (entries l') = take (Suc c) H" if "c < length (entries l)" "take (Suc c) (entries l) = take (Suc c) H" for c
    using m(4) [OF that] unfolding e(1) .
qed

lemma HandleAppendEntries_log:
  assumes "node_ok h n" "hist_ok h E" "piece_ok h req" "HandleAppendEntries J now req n = Some (n', resp)"
    "role n = Leader \<longrightarrow> ae_term req \<noteq> currentTerm n" "role_kept n n'"
  defines "H \<equiv> h (ae_term req)" and "m \<equiv> unat (ae_prevLogIndex req) + length (ae_entries req)"
  shows "node_ok h n'" "ar_success resp \<Longrightarrow> m < length H \<and> take (Suc m) (entries (rlog n')) = take (Suc m) H"
    "entries (rlog n') = entries (rlog n) \<or> ar_success resp \<and> entries (rlog n') = take (Suc m) H"
    "\<And>c. c < length (entries (rlog n)) \<Longrightarrow> take (Suc c) (entries (rlog n)) = take (Suc c) H \<Longrightarrow> take (Suc c) (entries (rlog n')) = take (Suc c) H"
proof -
  have n: "log_wf (rlog n)" "snapshotIndex (rlog n) = 0" "matches h (entries (rlog n))" using assms(1) by (simp_all add: node_ok_def)
  have "node_ok h n' \<and> (ar_success resp \<longrightarrow> m < length H \<and> take (Suc m) (entries (rlog n')) = take (Suc m) H) \<and>
    (entries (rlog n') = entries (rlog n) \<or> ar_success resp \<and> entries (rlog n') = take (Suc m) H) \<and>
    (\<forall>c < length (entries (rlog n)). take (Suc c) (entries (rlog n)) = take (Suc c) H \<longrightarrow> take (Suc c) (entries (rlog n')) = take (Suc c) H)"
    using assms(4)
  proof (cases rule: HandleAppendEntries_cases)
    case stale
    then show ?thesis using assms(1) by (simp add: AppendEntriesResponse_new_def)
  next
    case (mismatch n1)
    then have "same_log n n'" using step_up_same by (fastforce simp: same_log_def ResetElectionTimer_def)
    then show ?thesis using node_ok_same [OF assms(1) _ assms(6)] mismatch(4) by (simp add: same_log_def)
  next
    case (appended n1 l)
    have s: "same_log n n1" using appended(2) by (rule step_up_same)
    then have n1: "log_wf (rlog n1)" "snapshotIndex (rlog n1) = 0" "matches h (entries (rlog n1))"
      using n log_wf_cong [of "rlog n1" "rlog n"] by (simp_all add: same_log_def)
    note a = AppendAll_piece [OF n1 assms(2,3) appended(6,3), folded H_def m_def]
    have l: "rlog n' = l" "role n' = role n1" "currentTerm n' = currentTerm n1" using appended(4) by (simp_all add: ResetElectionTimer_def)
    have "role n' \<noteq> Leader"
    proof
      assume r: "role n' = Leader"
      then have "role n = Leader" using assms(6) by (simp add: role_kept_def)
      then have "currentTerm n < ae_term req" using assms(5) appended(1) by simp
      then have "role n1 = Follower" using appended(2) by (simp add: step_up_def BecomeFollower_fields)
      then show False using r l(2) by simp
    qed
    then have "node_ok h n'" using a(1-3) l assms(1,6) by (auto simp: node_ok_def role_kept_def)
    moreover have "entries (rlog n') = entries (rlog n) \<or> entries (rlog n') = take (Suc m) H"
      using a(6) l(1) s by (simp add: same_log_def)
    moreover have "\<forall>c < length (entries (rlog n)). take (Suc c) (entries (rlog n)) = take (Suc c) H \<longrightarrow> take (Suc c) (entries (rlog n')) = take (Suc c) H"
      using a(7) s l(1) by (simp add: same_log_def)
    ultimately show ?thesis using a(4,5) l appended(5) by simp
  qed
  then show "node_ok h n'" "ar_success resp \<Longrightarrow> m < length H \<and> take (Suc m) (entries (rlog n')) = take (Suc m) H"
    "entries (rlog n') = entries (rlog n) \<or> ar_success resp \<and> entries (rlog n') = take (Suc m) H"
    "\<And>c. c < length (entries (rlog n)) \<Longrightarrow> take (Suc c) (entries (rlog n)) = take (Suc c) H \<Longrightarrow> take (Suc c) (entries (rlog n')) = take (Suc c) H" by blast+
qed

section \<open>Requests\<close>

lemma collect_loop_prefix:
  assumes "log_wf l" "snapshotIndex l = 0"
  shows "prefix (collect_loop l b i) (drop (unat i) (entries l))"
  using assms
proof (induction l b i rule: collect_loop.induct)
  case (1 l b i)
  show ?case
  proof (cases "i \<le> LastIndex l \<and> i < b")
    case True
    have o: "Offset l i = unat i" "unat i < length (entries l)"
      using Offset_in_range [OF 1(2), of i] 1(3) True by (simp_all add: Offset_def)
    then have g: "GetEntry i l = Inr (entries l ! unat i)" by (simp add: GetEntry_def)
    have "unat (i + 1) = Suc (unat i)" using True unat_next by blast
    then have "prefix (collect_loop l b (i + 1)) (drop (Suc (unat i)) (entries l))" using 1(1) [OF True g 1(2,3)] by simp
    moreover have "drop (unat i) (entries l) = entries l ! unat i # drop (Suc (unat i)) (entries l)"
      using o(2) by (rule Cons_nth_drop_Suc [symmetric])
    ultimately show ?thesis using True g by (simp add: collect_loop.simps [of l b i])
  qed (auto simp: collect_loop.simps [of l b i])
qed

lemma request_piece:
  assumes "node_ok h n" "ReplicateToPeer_request p n = Some req" "length (entries (rlog n)) < 2 ^ 64"
  shows "piece_ok h req" "role n = Leader" "ae_term req = currentTerm n"
proof -
  let ?l = "rlog n" and ?L = "entries (rlog n)"
  define i where "i = (case map_of (nextIndex n) p of Some i \<Rightarrow> i | None \<Rightarrow> LastIndex ?l + 1)"
  show r: "role n = Leader" "ae_term req = currentTerm n"
    using assms(2) by (auto simp: ReplicateToPeer_request_def Let_def split: if_splits)
  have wf: "log_wf ?l" "snapshotIndex ?l = 0" and H: "h (ae_term req) = ?L" using assms(1) r by (simp_all add: node_ok_def)
  have q: "ae_prevLogIndex req = i - 1" "ae_prevLogTerm req = GetTerm (i - 1) ?l" "ae_entries req = collect_loop ?l (i + 100) i"
    using assms(2) r(1) by (auto simp: ReplicateToPeer_request_def Let_def i_def)
  have ne: "?L \<noteq> []" using wf(1) by (simp add: log_wf_def)
  have o: "unat (i - 1) < length ?L \<longleftrightarrow> i - 1 \<le> LastIndex ?l" using Offset_in_range [OF wf(1), of "i - 1"] wf(2) by (simp add: Offset_def)
  show "piece_ok h req"
  proof (cases "unat (i - 1) < length ?L")
    case False
    then have "0 < unat (i - 1)" using ne by (cases ?L) auto
    then have "ae_prevLogTerm req = 0" "unat (ae_prevLogIndex req) \<noteq> 0"
      using False GetTerm_wf [OF wf(1), of "i - 1"] wf(2) o q(1,2) by simp_all
    then show ?thesis by (simp add: piece_ok_def Let_def)
  next
    case True
    have i: "unat i = Suc (unat (i - 1))"
    proof (cases "i = 0")
      case True
      then show ?thesis using \<open>unat (i - 1) < length ?L\<close> assms(3) by (simp add: unsigned_minus_1_eq_mask mask_eq_exp_minus_1)
    qed (simp add: unat_minus_one unat_gt_0)
    have t: "ae_prevLogTerm req = le_term (?L ! unat (i - 1))"
      using True GetTerm_wf [OF wf(1), of "i - 1"] wf(2) o q(2) by (simp add: Offset_def)
    have pre: "prefix (ae_entries req) (drop (Suc (unat (i - 1))) ?L)" using collect_loop_prefix [OF wf, of "i + 100" i] i q(3) by simp
    then have "length (ae_entries req) \<le> length ?L - Suc (unat (i - 1))" using prefix_length_le by fastforce
    moreover have "ae_entries req = take (length (ae_entries req)) (drop (Suc (unat (i - 1))) ?L)"
      using pre by (auto simp: prefix_def)
    ultimately show ?thesis using True t q(1) unfolding piece_ok_def Let_def H by auto
  qed
qed

section \<open>The protocol\<close>

text \<open>
  What a step means for the logs, the terms and the votes: most steps leave all logs alone and
  only raise terms; a node campaigns, grants a vote, becomes a leader, extends its log as a
  leader, or accepts a piece of a leader's log and acknowledges it.
\<close>

abbreviation logs :: "cluster \<Rightarrow> string \<Rightarrow> LogEntry list" where
  "logs s \<equiv> (\<lambda>j. entries (rlog (nodes s j)))"

abbreviation terms :: "cluster \<Rightarrow> string \<Rightarrow> u64" where
  "terms s \<equiv> (\<lambda>j. currentTerm (nodes s j))"

definition last_acked :: "AppendEntriesRequest \<Rightarrow> nat" where
  "last_acked req = unat (ae_prevLogIndex req) + length (ae_entries req)"

definition acks :: "msg set \<Rightarrow> (string \<times> u64 \<times> nat) set" where
  "acks M = {(j, ae_term req, last_acked req) | j req. \<exists>l resp. AppResp j l req resp \<in> M \<and> ar_success resp}"

definition campaigns :: "msg set \<Rightarrow> (string \<times> RequestVoteRequest) set" where
  "campaigns M = {(c, req). \<exists>p. VoteReq c p req \<in> M}"

definition current :: "RequestVoteRequest \<Rightarrow> LogEntry list \<Rightarrow> bool" where
  "current req L \<longleftrightarrow> le_term (last L) < rv_lastLogTerm req \<or>
     le_term (last L) = rv_lastLogTerm req \<and> length L \<le> Suc (unat (rv_lastLogIndex req))"

inductive protocol :: "string list \<Rightarrow> history \<Rightarrow> cluster \<Rightarrow> history \<Rightarrow> cluster \<Rightarrow> bool" for ids h s where
  quiet: "logs s' = logs s \<Longrightarrow> (\<And>j. terms s j \<le> terms s' j) \<Longrightarrow> acks (msgs s') = acks (msgs s) \<Longrightarrow>
    campaigns (msgs s') = campaigns (msgs s) \<Longrightarrow> ballots s' = ballots s \<Longrightarrow> elected s' = elected s \<Longrightarrow> protocol ids h s h s'"
| campaign: "i \<in> set ids \<Longrightarrow> logs s' = logs s \<Longrightarrow> terms s' = (terms s)(i := rv_term req) \<Longrightarrow> terms s i < rv_term req \<Longrightarrow>
    unat (rv_lastLogIndex req) = length (logs s i) - 1 \<Longrightarrow> rv_lastLogTerm req = le_term (last (logs s i)) \<Longrightarrow>
    acks (msgs s') = acks (msgs s) \<Longrightarrow> campaigns (msgs s') \<subseteq> insert (i, req) (campaigns (msgs s)) \<Longrightarrow>
    ballots s' = insert (i, rv_term req, i) (ballots s) \<Longrightarrow> elected s' = elected s \<Longrightarrow> protocol ids h s h s'"
| grant: "i \<in> set ids \<Longrightarrow> (c, req) \<in> campaigns (msgs s) \<Longrightarrow> logs s' = logs s \<Longrightarrow> terms s' = (terms s)(i := rv_term req) \<Longrightarrow>
    terms s i \<le> rv_term req \<Longrightarrow> current req (logs s i) \<Longrightarrow> acks (msgs s') = acks (msgs s) \<Longrightarrow> campaigns (msgs s') = campaigns (msgs s) \<Longrightarrow>
    ballots s' = insert (i, rv_term req, c) (ballots s) \<Longrightarrow> elected s' = elected s \<Longrightarrow> protocol ids h s h s'"
| lead: "i \<in> set ids \<Longrightarrow> le_term e = terms s i \<Longrightarrow> le_term e \<notin> fst ` elected s \<Longrightarrow> h (le_term e) = [] \<Longrightarrow>
    logs s' = (logs s)(i := logs s i @ [e]) \<Longrightarrow> terms s' = terms s \<Longrightarrow> acks (msgs s') = acks (msgs s) \<Longrightarrow>
    campaigns (msgs s') = campaigns (msgs s) \<Longrightarrow> ballots s' = ballots s \<Longrightarrow> elected s' = insert (le_term e, i) (elected s) \<Longrightarrow>
    protocol ids h s (h(le_term e := logs s i @ [e])) s'"
| extend: "i \<in> set ids \<Longrightarrow> le_term e = terms s i \<Longrightarrow> (le_term e, i) \<in> elected s \<Longrightarrow> h (le_term e) = logs s i \<Longrightarrow>
    logs s' = (logs s)(i := logs s i @ [e]) \<Longrightarrow> terms s' = terms s \<Longrightarrow> acks (msgs s') = acks (msgs s) \<Longrightarrow>
    campaigns (msgs s') = campaigns (msgs s) \<Longrightarrow> ballots s' = ballots s \<Longrightarrow> elected s' = elected s \<Longrightarrow>
    protocol ids h s (h(le_term e := logs s i @ [e])) s'"
| accept: "i \<in> set ids \<Longrightarrow> (t, l) \<in> elected s \<Longrightarrow> i \<noteq> l \<Longrightarrow> terms s i \<le> t \<Longrightarrow> terms s' = (terms s)(i := t) \<Longrightarrow>
    logs s' = (logs s)(i := L) \<Longrightarrow> m < length (h t) \<Longrightarrow> take (Suc m) L = take (Suc m) (h t) \<Longrightarrow> L = logs s i \<or> L = take (Suc m) (h t) \<Longrightarrow>
    (\<And>c. c < length (logs s i) \<Longrightarrow> take (Suc c) (logs s i) = take (Suc c) (h t) \<Longrightarrow> take (Suc c) L = take (Suc c) (h t)) \<Longrightarrow>
    acks (msgs s') = insert (i, t, m) (acks (msgs s)) \<Longrightarrow> campaigns (msgs s') = campaigns (msgs s) \<Longrightarrow> ballots s' = ballots s \<Longrightarrow>
    elected s' = elected s \<Longrightarrow> protocol ids h s h s'"

lemma acks_Un: "acks (M \<union> N) = acks M \<union> acks N"
  unfolding acks_def by blast

lemma campaigns_Un: "campaigns (M \<union> N) = campaigns M \<union> campaigns N"
  unfolding campaigns_def by blast

lemma acks_simps:
  "acks ((\<lambda>p. VoteReq i p vr) ` P) = {}" "acks (insert (VoteResp a b vr vresp) M) = acks M" "acks (insert (AppReq a b req) M) = acks M"
  "acks (insert (AppResp j l req resp) M) = (if ar_success resp then insert (j, ae_term req, last_acked req) (acks M) else acks M)"
  unfolding acks_def by auto

lemma campaigns_simps:
  "campaigns ((\<lambda>p. VoteReq i p vr) ` P) = (if P = {} then {} else {(i, vr)})"
  "campaigns (insert (VoteResp a b vr vresp) M) = campaigns M" "campaigns (insert (AppReq a b req) M) = campaigns M"
  "campaigns (insert (AppResp j l req resp) M) = campaigns M"
  unfolding campaigns_def by auto

lemmas protocol_simps = acks_Un campaigns_Un acks_simps campaigns_simps

lemma nodes_upd: "(\<lambda>j. f (nodes (set_node i n s) j)) = (\<lambda>j. f (nodes s j))(i := f n)"
  by (rule ext) simp

lemma protocol_extends:
  assumes "protocol ids h s h' s'" shows "extends h h'"
  using assms by cases (auto simp: extends_def)


lemma HandleAppendEntries_success:
  assumes "HandleAppendEntries J now req n = Some (n', resp)" "ar_success resp"
  shows "currentTerm n \<le> ae_term req" "currentTerm n' = ae_term req" "ar_term resp = currentTerm n"
proof -
  have "currentTerm n \<le> ae_term req \<and> currentTerm n' = ae_term req \<and> ar_term resp = currentTerm n"
    using assms(1)
  proof (cases rule: HandleAppendEntries_cases)
    case (appended n1 l)
    have "currentTerm n1 = ae_term req" using appended(1,2) by (auto simp: step_up_def BecomeFollower_fields split: if_splits)
    then show ?thesis using appended(1,4,5) by (simp add: ResetElectionTimer_def AppendEntriesResponse_new_def)
  qed (use assms(2) in \<open>simp_all add: AppendEntriesResponse_new_def\<close>)
  then show "currentTerm n \<le> ae_term req" "currentTerm n' = ae_term req" "ar_term resp = currentTerm n" by simp_all
qed

section \<open>Runs\<close>

definition short :: "string list \<Rightarrow> cluster \<Rightarrow> bool" where
  "short ids s \<longleftrightarrow> (\<forall>i \<in> set ids. RaftLog_Size (rlog (nodes s i)) \<le> cf_snapshotThreshold (config (nodes s i)) \<and>
     length (logs s i) < 2 ^ 63)"

lemma short_length:
  assumes "short ids s" "i \<in> set ids" shows "length (logs s i) < 2 ^ 64"
proof -
  have "length (logs s i) < 2 ^ 63" using assms by (simp add: short_def)
  then show ?thesis by simp
qed

context json_sized
begin

lemma new_leader_term:
  assumes "reachable J ids s'" "ids_ok ids" "log_inv h ids s" "elected s \<subseteq> elected s'" "(t, i) \<in> elected s'"
    "role (nodes s i) = Candidate" "currentTerm (nodes s i) = t" "i \<in> set ids"
  shows "t \<notin> fst ` elected s" "h t = []"
proof -
  show 1: "t \<notin> fst ` elected s"
  proof
    assume "t \<in> fst ` elected s"
    then obtain j where j: "(t, j) \<in> elected s" by auto
    then have "j = i" using one_leader_per_term [OF assms(1,2) _ assms(5)] assms(4) by blast
    then show False using j assms(3,6,7) by (auto simp: log_inv_def elected_ok_def)
  qed
  have "t \<noteq> 0" using assms(3,6,7,8) by (auto simp: log_inv_def node_ok_def)
  then show "h t = []" using 1 assms(3) by (auto simp: log_inv_def hist_ok_def)
qed

lemma leader_elected: "cluster_inv J ids s \<Longrightarrow> i \<in> set ids \<Longrightarrow> role (nodes s i) = Leader \<Longrightarrow> (currentTerm (nodes s i), i) \<in> elected s"
  by (simp add: cluster_inv_def leaders_inv_def)

lemma end_election_log:
  assumes "reachable J ids s'" "reachable J ids s" "ids_ok ids" "log_inv h ids s" "short ids s" "i \<in> set ids"
    "StartElection_end J t votes (nodes s i) = Some n'" "nodes s' = nodes (set_node i n' s)" "msgs s' = msgs s"
    "elected s' = (if role n' = Leader \<and> role (nodes s i) \<noteq> Leader then insert (currentTerm n', i) (elected s) else elected s)"
    "ballots s' = ballots s"
  shows "\<exists>h'. protocol ids h s h' s' \<and> log_inv h' ids s'"
proof (cases "n' = nodes s i")
  case True
  then have "log_inv h ids s'" using log_inv_cong [OF assms(4), of s'] assms(8-10) by (simp add: set_node_def)
  moreover have "protocol ids h s h s'" using True assms(8-11) by (intro quiet) (simp_all add: set_node_def)
  ultimately show ?thesis by blast
next
  case False
  then have c: "role (nodes s i) = Candidate" "currentTerm (nodes s i) = t" "BecomeLeader J (nodes s i) = Some n'"
    using assms(7) by (auto simp: StartElection_end_def split: if_splits)
  from c(3) obtain e where e: "LogEntry_NoOp J (currentTerm (nodes s i)) (LastIndex (rlog (nodes s i)) + 1) = Some e"
    "RaftLog_Append J e (rlog (nodes s i)) = Some (rlog n')" "currentTerm n' = currentTerm (nodes s i)" "role n' = Leader"
    by (rule BecomeLeader_fields)
  note et = NoOp_fit [OF e(1)]
  have el: "elected s' = insert (le_term e, i) (elected s)" using assms(10) e(3,4) et(2) c(1) by simp
  have new: "le_term e \<notin> fst ` elected s" "h (le_term e) = []"
  proof -
    have "elected s \<subseteq> elected s'" "(le_term e, i) \<in> elected s'" unfolding el by blast+
    note new_leader_term [OF assms(1,3,4) this c(1) et(2) [symmetric] assms(6)]
    then show "le_term e \<notin> fst ` elected s" "h (le_term e) = []" by blast+
  qed
  note len = short_length [OF assms(5,6)]
  have other: "currentTerm (nodes s j) \<noteq> le_term e" if "j \<in> set ids" "role (nodes s j) = Leader" for j
  proof
    assume "currentTerm (nodes s j) = le_term e"
    then have "(le_term e, j) \<in> elected s" using leader_elected [OF reachable_inv [OF assms(2,3)] that] by simp
    then show False using new(1) by (metis fst_conv image_eqI)
  qed
  have "role (nodes s i) \<noteq> Follower" using c(1) by simp
  note la = leader_append [OF assms(4,6) e(2) et(3) len et(2) e(3,4) this disjI1 [OF new(2)] other el]
  have "log_inv (h(le_term e := entries (rlog (nodes s i)) @ [e])) ids s'"
    by (rule log_inv_cong [OF la(2)]) (use assms(8,9) in simp_all)
  moreover have "protocol ids h s (h(le_term e := logs s i @ [e])) s'"
    by (rule protocol.lead [where i = i and e = e and s = s and s' = s'])
      (use assms(6,8,9,11) et(2) new e(3) el Append_entries [OF e(2)] in \<open>simp_all add: fun_eq_iff\<close>)
  ultimately show ?thesis by blast
qed

lemma propose_log:
  assumes "reachable J ids s" "ids_ok ids" "log_inv h ids s" "short ids s" "i \<in> set ids"
    "Propose_begin J key v opt ttl (nodes s i) = Some (n', r)"
  shows "\<exists>h'. protocol ids h s h' (set_node i n' s) \<and> log_inv h' ids (set_node i n' s)"
  using assms(6)
proof (cases rule: Propose_begin_cases)
  case 1
  then have "log_inv h ids (set_node i n' s)" using log_inv_cong [OF assms(3)] by (simp add: set_node_def)
  moreover have "protocol ids h s h (set_node i n' s)" using 1 by (intro quiet) (simp_all add: set_node_def)
  ultimately show ?thesis by blast
next
  case (2 e)
  note len = short_length [OF assms(4,5)]
  note el = leader_elected [OF reachable_inv [OF assms(1,2)]]
  have other: "currentTerm (nodes s j) \<noteq> le_term e" if "j \<in> set ids" "j \<noteq> i" "role (nodes s j) = Leader" for j
    using one_leader_per_term [OF assms(1,2) el [OF that(1,3)]] el [OF assms(5) 2(1)] that(2) 2(2) by auto
  have h: "h (le_term e) = entries (rlog (nodes s i))" using assms(3,5) 2(1,2) by (simp add: log_inv_def node_ok_def)
  have "role (nodes s i) \<noteq> Follower" "role n' = Leader" using 2 by simp_all
  note la = leader_append [OF assms(3,5) 2(4,3) len 2(2,6) this(2,1) disjI2 [OF h] other refl]
  have "insert (le_term e, i) (elected s) = elected s" using el [OF assms(5) 2(1)] 2(2) by auto
  then have "log_inv (h(le_term e := entries (rlog (nodes s i)) @ [e])) ids (set_node i n' s)"
    by (intro log_inv_cong [OF la(2)]) simp_all
  moreover have "protocol ids h s (h(le_term e := logs s i @ [e])) (set_node i n' s)"
    by (rule protocol.extend [where i = i and e = e and s = s and s' = "set_node i n' s"])
      (use assms(5) h el [OF assms(5) 2(1)] 2(2,6) Append_entries [OF 2(4)] in \<open>simp_all add: fun_eq_iff\<close>)
  ultimately show ?thesis by blast
qed


end

text \<open>
  The runs in which no log outgrows the threshold for snapshots, and a log that a restarted node
  recovers is related by \<open>C\<close> to the log it had: a prefix of it, or all of it. The flag says whether
  answers may be handled when the term of the request is over.
\<close>

definition logs_related :: "(LogEntry list \<Rightarrow> LogEntry list \<Rightarrow> bool) \<Rightarrow> string list \<Rightarrow> cluster \<Rightarrow> cluster \<Rightarrow> bool" where
  "logs_related C ids s s' \<longleftrightarrow> (\<forall>i \<in> set ids. C (entries (rlog (nodes s' i))) (entries (rlog (nodes s i))) \<and>
     snapshotIndex (rlog (nodes s' i)) = snapshotIndex (rlog (nodes s i)) \<and> snapshotTerm (rlog (nodes s' i)) = snapshotTerm (rlog (nodes s i)))"

inductive run :: "'j json_ops \<Rightarrow> string list \<Rightarrow> bool \<Rightarrow> (LogEntry list \<Rightarrow> LogEntry list \<Rightarrow> bool) \<Rightarrow> cluster \<Rightarrow> bool" for J ids b C where
  run_initial: "initial J ids s \<Longrightarrow> run J ids b C s"
| run_live: "run J ids b C s \<Longrightarrow> live_step J ids s s' \<Longrightarrow> short ids s' \<Longrightarrow> run J ids b C s'"
| run_late: "run J ids b C s \<Longrightarrow> b \<Longrightarrow> late_step J ids s s' \<Longrightarrow> short ids s' \<Longrightarrow> run J ids b C s'"
| run_restart: "run J ids b C s \<Longrightarrow> restart_step J ids s s' \<Longrightarrow> logs_related C ids s s' \<Longrightarrow> short ids s' \<Longrightarrow> run J ids b C s'"

lemma run_reachable: "run J ids b C s \<Longrightarrow> reachable J ids s"
  by (induction rule: run.induct) (auto intro: reachable.intros step.intros)

lemma succ64: "x < x + 1" "x + 1 \<noteq> 0" if "x \<noteq> (- 1 :: u64)"
proof -
  have "unat (x + 1) = unat x + 1" using not_max64 [OF that] by (simp add: unat_word_ariths)
  then show "x < x + 1" "x + 1 \<noteq> 0" by (simp_all add: word_less_nat_alt unat_eq_0 flip: unat_eq_0)
qed

context json_sized
begin

lemma vote_kept_term: "vote_kept n n' \<Longrightarrow> currentTerm n \<le> currentTerm n'"
  by (auto simp: vote_kept_def)

lemma vote_protocol:
  assumes "log_inv h ids s" "cluster_inv J ids s" "ids_ok ids"
    "s' = send {VoteResp i c req resp} (if vr_voteGranted resp then add_ballot i (set_node i n' s) else set_node i n' s)"
    "i \<in> set ids" "VoteReq c i req \<in> msgs s" "log_room 2 (rlog (nodes s i))" "HandleRequestVote J now req (nodes s i) = Some (n', resp)"
  shows "protocol ids h s h s'"
proof -
  have c: "rv_candidateId req = c" "c \<in> set ids" using assms(2,6) by (auto simp: cluster_inv_def msgs_inv_def)
  have room: "log_room (Suc (Suc 0)) (rlog (nodes s i))" using assms(7) by (simp add: numeral_2_eq_2)
  have id: "id_ok (rv_candidateId req)" using c assms(3) by (auto simp: ids_ok_def list_all_iff)
  note nd = cluster_node(1) [OF assms(2,3,5)]
  note v = HandleRequestVote_inv [OF nd room id assms(8)]
  show ?thesis
  proof (cases "vr_voteGranted resp")
    case False
    then show ?thesis using v(5) vote_kept_term [OF v(3)] by (intro quiet) (auto simp: assms(4) protocol_simps fun_eq_iff)
  next
    case True
    have g: "currentTerm (nodes s i) \<le> rv_term req" "IsLogUpToDate (rv_lastLogIndex req) (rv_lastLogTerm req) (nodes s i)"
      using HandleRequestVote_outcome [OF nd assms(7) id, of now] True assms(8) by auto
    have L: "unat (LastIndex (rlog (nodes s i))) = length (logs s i) - 1" "logs s i \<noteq> []"
      using assms(1,5) LastIndex_wf(2) by (auto simp: log_inv_def node_ok_def matches_def)
    show ?thesis
    proof (rule protocol.grant [where i = i and c = c and req = req])
      show "current req (logs s i)"
        using g(2) L by (auto simp: current_def IsLogUpToDate_def Let_def LastTerm_def word_le_nat_alt split: if_splits)
      show "(c, req) \<in> campaigns (msgs s)" using assms(6) by (auto simp: campaigns_def)
      show "ballots s' = insert (i, rv_term req, c) (ballots s)" using v(7) True c(1) by (simp add: assms(4))
    qed (use assms(5) g(1) v(5,7) True in \<open>simp_all add: assms(4) protocol_simps fun_eq_iff\<close>)
  qed
qed

lemma response_log:
  assumes "log_inv h ids s" "cluster_inv J ids s" "ids_ok ids" "i \<in> set ids" "log_room 1 (rlog (nodes s i))"
  shows "protocol ids h s h (set_node i (ReplicateToPeer_response J now p req resp (nodes s i)) s)"
    "log_inv h ids (set_node i (ReplicateToPeer_response J now p req resp (nodes s i)) s)"
proof -
  have room: "log_room (Suc 0) (rlog (nodes s i))" using assms(5) by simp
  note r = ReplicateToPeer_response_inv [OF cluster_node(1) [OF assms(2-4)] room refl]
  show "log_inv h ids (set_node i (ReplicateToPeer_response J now p req resp (nodes s i)) s)"
    by (rule log_inv_same [OF assms(1,4) ReplicateToPeer_response_same r(4,3)])
  show "protocol ids h s h (set_node i (ReplicateToPeer_response J now p req resp (nodes s i)) s)"
    using r(5) vote_kept_term [OF r(3)] by (intro quiet) (auto simp: fun_eq_iff)
qed

lemma live_step_log:
  assumes "live_step J ids s s'" "reachable J ids s" "ids_ok ids" "log_inv h ids s" "short ids s"
  shows "\<exists>h'. protocol ids h s h' s' \<and> log_inv h' ids s'"
proof -
  have inv: "cluster_inv J ids s" by (rule reachable_inv [OF assms(2,3)])
  note nd = cluster_node(1) [OF inv assms(3)]
  have r': "reachable J ids s'" using assms(1,2) by (blast intro: reachable.next_state step.live)
  have keep: ?thesis if "log_inv h ids s'" "protocol ids h s h s'" using that by blast
  have node: "logs (set_node i n s) = logs s" "\<And>j. terms s j \<le> terms (set_node i n s) j"
    if "same_log (nodes s i) n" "currentTerm (nodes s i) \<le> currentTerm n" for i n
    using that by (auto simp: same_log_def fun_eq_iff)
  show ?thesis using assms(1)
  proof cases
    case (start_election i now timeout n' req)
    have room: "log_room (Suc 0) (rlog (nodes s i))" using start_election by simp
    note b = StartElection_begin_inv [OF nd [OF start_election(2)] room start_election(7)]
    have t: "currentTerm (nodes s i) < currentTerm n'" "currentTerm n' \<noteq> 0"
      using succ64 [OF start_election(5)] b(3) by simp_all
    have n: "node_ok h (nodes s i)" using assms(4) start_election(2) by (simp add: log_inv_def)
    have "node_ok h n'"
      using n StartElection_begin_same [OF start_election(7)] b(5) t(2) log_wf_cong [of "rlog n'" "rlog (nodes s i)"]
      by (simp add: node_ok_def same_log_def)
    then have "log_inv h ids (set_node i n' s)" by (rule log_inv_node [OF assms(4) start_election(2) _ disjI1 [OF t(1)]])
    then have "log_inv h ids s'" unfolding start_election(1) by (rule log_inv_cong) auto
    moreover have "protocol ids h s h s'"
    proof (rule protocol.campaign [where i = i and req = req])
      show "unat (rv_lastLogIndex req) = length (logs s i) - 1" using b(10) LastIndex_wf(2) n by (simp add: node_ok_def)
      show "rv_lastLogTerm req = le_term (last (logs s i))" using b(11) by (simp add: LastTerm_def)
      have "votedFor n' = i" using b(4) cluster_node(3) [OF inv assms(3) start_election(2)] by simp
      then show "ballots s' = insert (i, rv_term req, i) (ballots s)" unfolding start_election(1) by (simp add: b(8))
      show "logs s' = logs s" "terms s' = (terms s)(i := rv_term req)" using b(7,8) by (auto simp: start_election(1) fun_eq_iff)
      show "terms s i < rv_term req" using t(1) b(8) by simp
    qed (use start_election(2) in \<open>auto simp: start_election(1) protocol_simps\<close>)
    ultimately show ?thesis by (rule keep)
  next
    case (vote i c req now n' resp)
    have room: "log_room (Suc (Suc 0)) (rlog (nodes s i))" using vote by (simp add: numeral_2_eq_2)
    have "id_ok (rv_candidateId req)" using inv assms(3) vote(3) by (auto simp: cluster_inv_def msgs_inv_def ids_ok_def list_all_iff)
    note v = HandleRequestVote_inv [OF nd [OF vote(2)] room this vote(5)]
    have "log_inv h ids (set_node i n' s)" by (rule log_inv_same [OF assms(4) vote(2) HandleRequestVote_same [OF vote(5)] v(4,3)])
    then have "log_inv h ids s'" unfolding vote(1) by (rule log_inv_cong) (auto split: if_splits)
    then show ?thesis by (rule keep) (rule vote_protocol [OF assms(4) inv assms(3) vote])
  next
    case (vote_response i e p ps resp now n' votes stop)
    have room: "log_room (Suc 0) (rlog (nodes s i))" using vote_response by simp
    note v = StartElection_response_inv [OF nd [OF vote_response(2)] room vote_response(7)]
    have "role_kept (nodes s i) n'" using v(5) by (auto simp: role_kept_def)
    from log_inv_same [OF assms(4) vote_response(2) StartElection_response_same [OF vote_response(7)] this v(3)]
    have "log_inv h ids s'" unfolding vote_response(1) by (rule log_inv_cong) auto
    moreover have "protocol ids h s h s'"
      using node [OF StartElection_response_same [OF vote_response(7)] vote_kept_term [OF v(3)]] by (intro quiet) (simp_all add: vote_response(1))
    ultimately show ?thesis by (rule keep)
  next
    case (vote_timeout i e p ps)
    have "log_inv h ids s'" using assms(4) unfolding vote_timeout(1) by (rule log_inv_cong) auto
    moreover have "protocol ids h s h s'" by (rule quiet) (simp_all add: vote_timeout(1))
    ultimately show ?thesis by (rule keep)
  next
    case (end_election i e n')
    show ?thesis by (rule end_election_log [OF r' assms(2-5) end_election(2) end_election(6)]) (simp_all add: end_election(1))
  next
    case (replicate_request i p req)
    have n: "node_ok h (nodes s i)" using assms(4) replicate_request(2) by (simp add: log_inv_def)
    note len = short_length [OF assms(5) replicate_request(2)]
    note q = request_piece [OF n replicate_request(4) len]
    have "(ae_term req, i) \<in> elected s" using leader_elected [OF inv replicate_request(2) q(2)] q(3) by simp
    moreover have "p \<noteq> i" using cluster_node [OF inv assms(3) replicate_request(2)] replicate_request(3)
      config_for_peers(3) [of ids i "nodes s i"] assms(3) replicate_request(2) by (auto simp: ids_ok_def)
    ultimately have "log_inv h ids s'" using assms(4) q(1) unfolding replicate_request(1) log_inv_def elected_ok_def requests_ok_def by auto
    moreover have "protocol ids h s h s'" by (rule quiet) (simp_all add: replicate_request(1) protocol_simps)
    ultimately show ?thesis by (rule keep)
  next
    case (append i l req now n' resp)
    have fit: "list_all entry_fit (ae_entries req)" using inv append by (auto simp: cluster_inv_def msgs_inv_def)
    have room: "log_room (Suc (length (ae_entries req) + 0)) (rlog (nodes s i))" using append by simp
    note a = HandleAppendEntries_inv [OF nd [OF append(2)] room fit append(5)]
    have m: "(ae_term req, l) \<in> elected s" "i \<noteq> l" "piece_ok h req" using assms(4) append(3) by (auto simp: log_inv_def requests_ok_def)
    have ld: "role (nodes s i) = Leader \<longrightarrow> ae_term req \<noteq> currentTerm (nodes s i)"
      using one_leader_per_term [OF assms(2,3) m(1)] leader_elected [OF inv append(2)] m(2) by auto
    have n: "node_ok h (nodes s i)" "hist_ok h (elected s)" using assms(4) append(2) by (simp_all add: log_inv_def)
    note al = HandleAppendEntries_log [OF n m(3) append(5) ld a(4)]
    from log_inv_node [OF assms(4) append(2) al(1) kept_terms [OF a(4,3)]] have "log_inv h ids s'" unfolding append(1) by (rule log_inv_cong) auto
    moreover have "protocol ids h s h s'"
    proof (cases "ar_success resp")
      case False
      then show ?thesis using al(3) vote_kept_term [OF a(3)] by (intro quiet) (auto simp: append(1) protocol_simps fun_eq_iff)
    next
      case True
      note su = HandleAppendEntries_success [OF append(5) True]
      show ?thesis
      proof (rule protocol.accept [where i = i and l = l and t = "ae_term req" and m = "last_acked req" and L = "entries (rlog n')"])
        show "take (Suc c) (entries (rlog n')) = take (Suc c) (h (ae_term req))"
          if "c < length (logs s i)" "take (Suc c) (logs s i) = take (Suc c) (h (ae_term req))" for c using al(4) [OF that] .
        show "entries (rlog n') = logs s i \<or> entries (rlog n') = take (Suc (last_acked req)) (h (ae_term req))"
          using al(3) by (auto simp: last_acked_def)
      qed (use append(2) m(1,2) su al(2) [OF True] True in \<open>simp_all add: append(1) protocol_simps fun_eq_iff last_acked_def\<close>)
    qed
    ultimately show ?thesis by (rule keep)
  next
    case (replicate_response i p req resp now)
    show ?thesis unfolding replicate_response(1)
      using response_log [OF assms(4) inv assms(3) replicate_response(2,5)] by blast
  next
    case (apply_committed i now clock n')
    have room: "log_room (Suc 0) (rlog (nodes s i))" using apply_committed by simp
    note a = ApplyLoop_turn_inv [OF nd [OF apply_committed(2)] room apply_committed(4,5)]
    have "RaftLog_Size (rlog (nodes s i)) \<le> cf_snapshotThreshold (config (nodes s i))" using assms(5) apply_committed(2) by (simp add: short_def)
    note same = ApplyLoop_turn_same [OF apply_committed(5) this]
    have "log_inv h ids s'" unfolding apply_committed(1) by (rule log_inv_same [OF assms(4) apply_committed(2) same a(4,3)])
    moreover have "protocol ids h s h s'"
      using node [OF same vote_kept_term [OF a(3)]] by (intro quiet) (simp_all add: apply_committed(1))
    ultimately show ?thesis by (rule keep)
  next
    case (propose i key v opt ttl n' r)
    show ?thesis unfolding propose(1) by (rule propose_log [OF assms(2-5) propose(2) propose(8)])
  next
    case (local_store i st)
    have "log_inv h ids s'" unfolding local_store(1)
      by (rule log_inv_same [OF assms(4) local_store(2)]) (simp_all add: same_log_def vote_kept_def role_kept_def)
    moreover have "protocol ids h s h s'" by (rule quiet) (simp_all add: local_store(1) fun_eq_iff)
    ultimately show ?thesis by (rule keep)
  qed
qed

lemma initial_log:
  assumes "initial J ids s" "ids_ok ids"
  shows "log_inv (\<lambda>t. if t = 0 then [sentinel] else []) ids s" "short ids s"
proof -
  let ?h = "\<lambda>t. if t = 0 then [sentinel] else []"
  have ml: "matches ?h [sentinel]" by (simp add: matches_def sentinel_def)
  have n: "\<exists>w. rlog (nodes s i) = RaftLog_new w \<and> role (nodes s i) = Follower" if i: "i \<in> set ids" for i
  proof -
    obtain now cf m w n where n: "config_for ids i cf" "WriteAheadLog_new [] m = Inr w"
        "RaftNode_new J now cf KVStore_new (Some w) = Some n" "nodes s i = RaftNode_Start n"
      using assms(1) i unfolding initial_def by blast
    have w: "wal_holds J w []" using WriteAheadLog_new_empty [of m J] n(2) by auto
    have id: "id_ok (cf_nodeId cf)" "cf_nodeId cf \<noteq> []"
      using assms(2) i n(1) by (auto simp: ids_ok_def config_for_def list_all_iff)
    have "n = RaftNode_init now cf KVStore_new (Some w)" using fresh_node(1) [OF w id, of 0 now KVStore_new] n(3) wal_room_length [OF w, of 0] by simp
    then have "rlog (nodes s i) = RaftLog_new (Some w)" "role (nodes s i) = Follower"
      using n(4) by (simp_all add: RaftNode_Start_def RaftNode_init_def)
    then show ?thesis by blast
  qed
  have e: "entries (RaftLog_new w) = [sentinel]" "snapshotIndex (RaftLog_new w) = 0" for w by (simp_all add: RaftLog_new_def sentinel_def)
  have nk: "node_ok ?h (nodes s i)" if "i \<in> set ids" for i
  proof -
    obtain w where w: "rlog (nodes s i) = RaftLog_new w" "role (nodes s i) = Follower" using n [OF \<open>i \<in> set ids\<close>] by blast
    show ?thesis unfolding node_ok_def w e using log_wf_new ml by simp
  qed
  have "hist_ok ?h (elected s)" using ml by (simp add: hist_ok_def indexed_def sentinel_def)
  moreover have "msgs s = {}" "elected s = {}" using assms(1) by (simp_all add: initial_def)
  ultimately show "log_inv ?h ids s" using nk unfolding log_inv_def elected_ok_def requests_ok_def by simp
  show "short ids s" unfolding short_def
  proof
    fix i assume "i \<in> set ids"
    then obtain w where "rlog (nodes s i) = RaftLog_new w" using n by blast
    then have "entries (rlog (nodes s i)) = [sentinel]" using e(1) by simp
    then show "RaftLog_Size (rlog (nodes s i)) \<le> cf_snapshotThreshold (config (nodes s i)) \<and> length (logs s i) < 2 ^ 63"
      by (simp add: RaftLog_Size_def)
  qed
qed

end

lemma matches_prefix: "matches h L \<Longrightarrow> prefix M L \<Longrightarrow> M \<noteq> [] \<Longrightarrow> matches h M"
  using matches_take [of h L "length M"] by (auto simp: prefix_def)

lemma log_wf_prefix:
  assumes "log_wf l" "prefix (entries l') (entries l)" "entries l' \<noteq> []" "snapshotIndex l' = snapshotIndex l" "snapshotTerm l' = snapshotTerm l"
  shows "log_wf l'"
  using assms by (auto simp: log_wf_def prefix_def nth_append split: if_splits)

lemma recover_entries_snapshot: "recover_entries J raws l = Some l' \<Longrightarrow> snapshotIndex l' = snapshotIndex l"
  by (induction raws arbitrary: l) (auto dest: log_write_frame(2) simp: RaftLog_Append_def split: bind_splits)

lemma RaftNode_new_commit:
  assumes "RaftNode_new J now cf st (Some w) = Some n" shows "commitIndex n = snapshotIndex (rlog n)"
  using assms recover_entries_snapshot
  by (fastforce simp: RaftNode_new_def RaftNode_init_def RaftLog_new_def SetSnapshot_def Let_def split: sum.splits option.splits bind_splits)

context json_sized
begin

lemma restart_log:
  assumes "restart_step J ids s s'" "logs_related C ids s s'" "\<And>L L'. C L' L \<Longrightarrow> prefix L' L" "reachable J ids s" "ids_ok ids"
    "log_inv h ids s"
  shows "log_inv h ids s' \<and> (\<exists>i \<in> set ids. \<exists>n. role n = Follower \<and> commitIndex n = snapshotIndex (rlog n) \<and>
      currentTerm n = currentTerm (nodes s i) \<and> s' = (set_node i n s)\<lparr>elections := (elections s)(i := None)\<rparr>)"
  using assms(1)
proof cases
  case (restart i w m w' rec now n')
  have inv: "cluster_inv J ids s" by (rule reachable_inv [OF assms(4,5)])
  have room: "wal_room (length (rr_entries rec) + 0) w'" using restart by simp
  note r = restart_node [OF cluster_node(1) [OF inv assms(5) restart(2)] restart(3-5) room restart(7)]
  let ?l = "rlog (RaftNode_Start n')" and ?n = "nodes s i"
  have l: "prefix (entries ?l) (entries (rlog ?n))" "snapshotIndex ?l = snapshotIndex (rlog ?n)" "snapshotTerm ?l = snapshotTerm (rlog ?n)"
    using assms(2,3) restart(1,2) by (auto simp: logs_related_def dest!: bspec [of _ _ i])
  have ne: "entries ?l \<noteq> []" using r(1) by (simp add: node_inv_def RaftNode_Start_def)
  have n: "node_ok h ?n" using assms(6) restart(2) by (simp add: log_inv_def)
  then have "node_ok h (RaftNode_Start n')"
    using log_wf_prefix [OF _ l(1) ne l(2,3)] matches_prefix [OF _ l(1) ne] l(2) r(5) by (simp add: node_ok_def RaftNode_Start_def)
  then have "log_inv h ids (set_node i (RaftNode_Start n') s)"
    by (rule log_inv_node [OF assms(6) restart(2)]) (use r(3,5) in \<open>simp add: RaftNode_Start_def\<close>)
  then have "log_inv h ids s'" unfolding restart(1) by (rule log_inv_cong) auto
  moreover have "role (RaftNode_Start n') = Follower" "currentTerm (RaftNode_Start n') = currentTerm ?n"
    "commitIndex (RaftNode_Start n') = snapshotIndex ?l"
    using r(3,5) RaftNode_new_commit [OF restart(7)] by (simp_all add: RaftNode_Start_def)
  ultimately show ?thesis using restart(1,2) by blast
qed

lemma late_step_log:
  assumes "late_step J ids s s'" "reachable J ids s" "ids_ok ids" "log_inv h ids s"
  shows "protocol ids h s h s'" "log_inv h ids s'"
  using assms(1) by (cases, simp add: response_log [OF assms(4) reachable_inv [OF assms(2,3)] assms(3)])+

lemma run_short: "run J ids b C s \<Longrightarrow> ids_ok ids \<Longrightarrow> short ids s"
  by (cases rule: run.cases) (auto intro: initial_log)

lemma run_log:
  assumes "run J ids b C s" "\<And>L L'. C L' L \<Longrightarrow> prefix L' L" "ids_ok ids"
  shows "\<exists>h. log_inv h ids s"
  using assms(1)
proof (induction rule: run.induct)
  case (run_initial s)
  then show ?case using initial_log(1) [OF _ assms(3)] by blast
next
  case (run_live s s')
  then show ?case using live_step_log [OF _ run_reachable assms(3) _ run_short [OF _ assms(3)]] by blast
next
  case (run_late s s')
  then show ?case using late_step_log(2) [OF _ run_reachable assms(3)] by blast
next
  case (run_restart s s')
  then show ?case using restart_log [OF _ _ assms(2) run_reachable assms(3)] by blast
qed

end

lemma logs_match:
  assumes "log_inv h ids s" "i \<in> set ids" "j \<in> set ids" "idx \<le> LastIndex (rlog (nodes s i))" "idx \<le> LastIndex (rlog (nodes s j))"
    "GetTerm idx (rlog (nodes s i)) = GetTerm idx (rlog (nodes s j))" "k \<le> idx"
  shows "GetEntry k (rlog (nodes s i)) = GetEntry k (rlog (nodes s j))"
proof -
  let ?l = "rlog (nodes s i)" and ?l' = "rlog (nodes s j)"
  have n: "log_wf ?l" "snapshotIndex ?l = 0" "matches h (entries ?l)" "log_wf ?l'" "snapshotIndex ?l' = 0" "matches h (entries ?l')"
    using assms(1-3) by (simp_all add: log_inv_def node_ok_def)
  have o: "unat idx < length (entries ?l)" "unat idx < length (entries ?l')"
    using Offset_in_range [OF n(1), of idx] Offset_in_range [OF n(4), of idx] n(2,5) assms(4,5) by (simp_all add: Offset_def)
  have "le_term (entries ?l ! unat idx) = le_term (entries ?l' ! unat idx)"
    using assms(4-6) GetTerm_wf [OF n(1), of idx] GetTerm_wf [OF n(4), of idx] n(2,5) by (simp add: Offset_def)
  then have "take (Suc (unat idx)) (entries ?l) = take (Suc (unat idx)) (entries ?l')" by (rule matches_common [OF n(3,6) o])
  moreover have "unat k \<le> unat idx" using assms(7) by (simp add: word_le_nat_alt)
  ultimately have "entries ?l ! unat k = entries ?l' ! unat k" by (metis le_imp_less_Suc nth_take)
  then show ?thesis using \<open>unat k \<le> unat idx\<close> o n(2,5) by (simp add: GetEntry_def Offset_def)
qed

end
