(* ===== verification/LeaderCompleteness.thy ===== *)
theory LeaderCompleteness
  imports LogMatching
begin

text \<open>
  Leader completeness: an entry of a leader's term that a majority has acknowledged is in the log
  of every later leader. The proof is over the steps \<open>protocol\<close> that \<open>LogMatching\<close> extracts from the
  operations of the nodes.
\<close>

section \<open>Terms in logs\<close>

definition terms_ok :: "history \<Rightarrow> bool" where
  "terms_ok h \<longleftrightarrow> (\<forall>t. sorted (map le_term (h t)) \<and> (\<forall>e \<in> set (h t). le_term e \<le> t))"

definition log_terms :: "string list \<Rightarrow> cluster \<Rightarrow> bool" where
  "log_terms ids s \<longleftrightarrow> (\<forall>i \<in> set ids. \<forall>e \<in> set (logs s i). le_term e \<le> terms s i)"

lemma matches_last:
  assumes "matches h L"
  shows "L = take (length L) (h (le_term (last L)))" "length L \<le> length (h (le_term (last L)))" "L \<noteq> []"
proof -
  show ne: "L \<noteq> []" using assms by (simp add: matches_def)
  then have k: "length L - 1 < length L" "last L = L ! (length L - 1)" "Suc (length L - 1) = length L" by (simp_all add: last_conv_nth)
  then have "length L - 1 < length (h (le_term (last L)))" "take (length L) L = take (length L) (h (le_term (last L)))"
    using assms unfolding matches_def by metis+
  then show "L = take (length L) (h (le_term (last L)))" "length L \<le> length (h (le_term (last L)))" by simp_all
qed

lemma matches_sorted:
  assumes "matches h L" "terms_ok h" shows "sorted (map le_term L)"
proof -
  have "sorted (map le_term (take (length L) (h (le_term (last L)))))"
    using assms(2) by (simp add: terms_ok_def take_map [symmetric] sorted_wrt_take)
  then show ?thesis using matches_last(1) [OF assms(1)] by simp
qed

lemma sorted_terms: "sorted (map le_term L) \<Longrightarrow> j \<le> k \<Longrightarrow> k < length L \<Longrightarrow> le_term (L ! j) \<le> le_term (L ! k)"
  using sorted_nth_mono [of "map le_term L" j k] by simp

lemma protocol_terms:
  assumes "protocol ids h s h' s'" "log_inv h ids s" "terms_ok h" "log_terms ids s"
  shows "terms_ok h'" "log_terms ids s'"
proof -
  have m: "matches h (logs s i)" if "i \<in> set ids" for i using assms(2) that by (simp add: log_inv_def node_ok_def)
  have grow: "terms_ok (h(le_term e := logs s i @ [e]))" "\<forall>x \<in> set (logs s i @ [e]). le_term x \<le> terms s i"
    if "i \<in> set ids" "le_term e = terms s i" for i e
  proof -
    have b: "\<forall>x \<in> set (logs s i). le_term x \<le> le_term e" using assms(4) that by (simp add: log_terms_def)
    then have "sorted (map le_term (logs s i @ [e]))" using matches_sorted [OF m [OF that(1)] assms(3)] by (simp add: sorted_append)
    with b show "terms_ok (h(le_term e := logs s i @ [e]))" using assms(3) by (auto simp: terms_ok_def)
    show "\<forall>x \<in> set (logs s i @ [e]). le_term x \<le> terms s i" using b that(2) by auto
  qed
  have "terms_ok h' \<and> log_terms ids s'"
    using assms(1)
  proof cases
    case quiet
    have "log_terms ids s'" using assms(4) order_trans [OF _ quiet(3)] unfolding log_terms_def fun_cong [OF quiet(2)] by blast
    then show ?thesis using assms(3) quiet(1) by simp
  next
    case (campaign i req)
    have "log_terms ids s'" using assms(4) campaign(5) unfolding log_terms_def fun_cong [OF campaign(3)] fun_cong [OF campaign(4)] by fastforce
    then show ?thesis using assms(3) campaign(1) by simp
  next
    case (grant i c req)
    have "log_terms ids s'" using assms(4) grant(6) unfolding log_terms_def fun_cong [OF grant(4)] fun_cong [OF grant(5)] by fastforce
    then show ?thesis using assms(3) grant(1) by simp
  next
    case (lead i e)
    have "log_terms ids s'" using assms(4) grow(2) [OF lead(2,3)] unfolding log_terms_def fun_cong [OF lead(6)] fun_cong [OF lead(7)] by simp
    then show ?thesis using grow(1) [OF lead(2,3)] lead(1) by simp
  next
    case (extend i e)
    have "log_terms ids s'" using assms(4) grow(2) [OF extend(2,3)] unfolding log_terms_def fun_cong [OF extend(6)] fun_cong [OF extend(7)] by simp
    then show ?thesis using grow(1) [OF extend(2,3)] extend(1) by simp
  next
    case (accept i t l L m)
    have "le_term e \<le> t" if "e \<in> set L" for e
    proof (cases "L = logs s i")
      case True
      then show ?thesis using assms(4) that accept(2,5) order_trans unfolding log_terms_def by blast
    next
      case False
      then have "e \<in> set (h t)" using accept(10) that in_set_takeD by metis
      then show ?thesis using assms(3) by (simp add: terms_ok_def)
    qed
    then have "log_terms ids s'" using assms(4) unfolding log_terms_def fun_cong [OF accept(6)] fun_cong [OF accept(7)] by simp
    then show ?thesis using assms(3) accept(1) by simp
  qed
  then show "terms_ok h'" "log_terms ids s'" by simp_all
qed

section \<open>Acknowledged entries\<close>

text \<open>A log carries the log of the leader of term \<open>t\<close> up to position \<open>m\<close>.\<close>

definition carries :: "history \<Rightarrow> u64 \<Rightarrow> nat \<Rightarrow> LogEntry list \<Rightarrow> bool" where
  "carries h t m L \<longleftrightarrow> m < length L \<and> take (Suc m) L = take (Suc m) (h t)"

definition deviates :: "history \<Rightarrow> u64 \<Rightarrow> nat \<Rightarrow> u64 \<Rightarrow> bool" where
  "deviates h t m t' \<longleftrightarrow> h t' \<noteq> [] \<and> \<not> carries h t m (h t')"

text \<open>A node has acknowledged the log of the leader of a term up to a position, or is that leader.\<close>

definition acked :: "history \<Rightarrow> cluster \<Rightarrow> string \<Rightarrow> u64 \<Rightarrow> nat \<Rightarrow> bool" where
  "acked h s j t m \<longleftrightarrow> m < length (h t) \<and> ((t, j) \<in> elected s \<or> (\<exists>m' \<ge> m. (j, t, m') \<in> acks (msgs s)))"

definition acks_ok :: "history \<Rightarrow> string list \<Rightarrow> cluster \<Rightarrow> bool" where
  "acks_ok h ids s \<longleftrightarrow> (\<forall>j t m. (j, t, m) \<in> acks (msgs s) \<longrightarrow> m < length (h t) \<and> t \<le> terms s j \<and> j \<in> set ids)"

definition kept_acks :: "history \<Rightarrow> string list \<Rightarrow> cluster \<Rightarrow> bool" where
  "kept_acks h ids s \<longleftrightarrow> (\<forall>j \<in> set ids. \<forall>t m. acked h s j t m \<longrightarrow>
     carries h t m (logs s j) \<or> (\<exists>t'. t < t' \<and> t' \<le> terms s j \<and> deviates h t m t'))"

definition one_leader :: "cluster \<Rightarrow> bool" where
  "one_leader s \<longleftrightarrow> (\<forall>t i j. (t, i) \<in> elected s \<longrightarrow> (t, j) \<in> elected s \<longrightarrow> i = j)"

lemma take_extends: "extends h h' \<Longrightarrow> m < length (h t) \<Longrightarrow> take (Suc m) (h' t) = take (Suc m) (h t) \<and> m < length (h' t)"
  unfolding extends_def by (metis Suc_leI length_append take_append trans_less_add1 append_Nil2 diff_is_0_eq' take_0)

lemma take_longer: "take (Suc m) L = take (Suc m) H \<Longrightarrow> m < length H \<Longrightarrow> m < length L"
  by (metis Suc_le_eq length_take min.absorb2 min.cobounded1)

lemma carries_extends: "extends h h' \<Longrightarrow> m < length (h t) \<Longrightarrow> carries h' t m L = carries h t m L"
  using take_extends by (simp add: carries_def)

lemma carries_append: "carries h t m L \<Longrightarrow> carries h t m (L @ M)"
  by (simp add: carries_def)

lemma carries_trans:
  assumes "carries h t m L" "take (Suc m) L = take (Suc m) L'" shows "carries h t m L'"
proof -
  have "length (take (Suc m) L') = Suc m" using assms by (metis carries_def Suc_leI length_take min.absorb2)
  then show ?thesis using assms by (simp add: carries_def)
qed

lemma carries_down: "carries h t m L \<Longrightarrow> m' \<le> m \<Longrightarrow> carries h t m' L"
proof -
  assume a: "carries h t m L" "m' \<le> m"
  have "take (Suc m') (take (Suc m) L) = take (Suc m') (take (Suc m) (h t))" using a(1) by (simp add: carries_def)
  then show "carries h t m' L" using a by (simp add: carries_def min_absorb1)
qed

lemma deviates_protocol:
  assumes "protocol ids h s h' s'" "terms_ok h'" "t < t'" "m < length (h t)" "deviates h t m t'"
  shows "deviates h' t m t'"
proof -
  note x = protocol_extends [OF assms(1)]
  have d: "h t' \<noteq> []" "\<not> carries h t m (h t')" using assms(5) by (simp_all add: deviates_def)
  have ne: "h' t' \<noteq> []" using x d(1) unfolding extends_def by (metis append_is_Nil_conv)
  have c: "carries h' t m L = carries h t m L" for L by (rule carries_extends [OF x assms(4)])
  have "\<not> carries h t m (h' t')" using assms(1)
  proof cases
    case (lead i e)
    then show ?thesis using d by auto
  next
    case (extend i e)
    show ?thesis
    proof (cases "t' = le_term e")
      case True
      show ?thesis
      proof
        assume k: "carries h t m (h' t')"
        have h': "h' t' = h t' @ [e]" using extend(1,5) True by simp
        show False
        proof (cases "m < length (h t')")
          case True
          then show False using k d(2) h' by (simp add: carries_def)
        next
          case False
          then have m: "m = length (h t')" using k h' by (simp add: carries_def)
          have "h t ! m = h' t' ! m" using k by (metis carries_def lessI nth_take)
          then have "e \<in> set (h t)" using assms(4) m h' by (metis nth_append_length nth_mem)
          moreover have "h' t = h t" using extend(1) True assms(3) by auto
          ultimately show False using assms(2,3) True unfolding terms_ok_def by (metis leD)
        qed
      qed
    qed (use extend(1) d in simp)
  qed (use d in simp_all)
  then show ?thesis using ne c by (simp add: deviates_def)
qed

lemma acked_term:
  assumes "acked h s j t m" "acks_ok h ids s" "elected_ok ids s" shows "t \<le> terms s j"
  using assms unfolding acked_def acks_ok_def elected_ok_def by blast


lemma protocol_mono:
  assumes "protocol ids h s h' s'" shows "terms s j \<le> terms s' j"
  using assms
proof cases
  case (campaign i req)
  then show ?thesis unfolding fun_cong [OF campaign(4)] by auto
next
  case (grant i c req)
  then show ?thesis unfolding fun_cong [OF grant(5)] by simp
next
  case (lead i e)
  then show ?thesis unfolding fun_cong [OF lead(7)] by simp
next
  case (extend i e)
  then show ?thesis unfolding fun_cong [OF extend(7)] by simp
next
  case (accept i t l L m)
  then show ?thesis unfolding fun_cong [OF accept(6)] by simp
qed

lemma acks_ok_protocol:
  assumes "protocol ids h s h' s'" "acks_ok h ids s"
  shows "acks_ok h' ids s'"
proof -
  have x: "m < length (h' t)" if "m < length (h t)" for m t using take_extends [OF protocol_extends [OF assms(1)] that] by simp
  note mono = protocol_mono [OF assms(1)]
  have old: "m < length (h' t) \<and> t \<le> terms s' j \<and> j \<in> set ids" if "(j, t, m) \<in> acks (msgs s)" for j t m
    using assms(2) that x mono [of j] unfolding acks_ok_def by (meson order_trans)
  show ?thesis using assms(1)
  proof cases
    case (accept i t l L m)
    have "t \<le> terms s' i" using fun_cong [OF accept(6), of i] by simp
    then show ?thesis using old accept(1,2,8) unfolding acks_ok_def accept(12) by auto
  qed (use old in \<open>simp_all add: acks_ok_def\<close>)
qed

lemma acked_grow:
  assumes "acks_ok h ids s" "h' = h(le_term e := logs s i @ [e])"
    "h (le_term e) = [] \<or> (le_term e, i) \<in> elected s \<and> h (le_term e) = logs s i"
    "acks (msgs s') = acks (msgs s)" "elected s' = insert (le_term e, i) (elected s)" "one_leader s'" "acked h' s' j t m"
  shows "m < length (h t) \<and> acked h s j t m \<or> \<not> m < length (h t) \<and> t = le_term e \<and> j = i"
proof (cases "m < length (h t)")
  case True
  then show ?thesis using assms(3,4,5,7) unfolding acked_def by auto
next
  case False
  have t: "t = le_term e" using False assms(2,7) by (auto simp: acked_def split: if_splits)
  have "\<not> (\<exists>m' \<ge> m. (j, t, m') \<in> acks (msgs s))" using assms(1) False unfolding acks_ok_def by (meson le_less_trans)
  then have "(t, j) \<in> elected s'" using assms(4,7) unfolding acked_def by auto
  then show ?thesis using assms(5,6) t False unfolding one_leader_def by blast
qed

lemma kept_acks_grow:
  assumes "kept_acks h ids s" "acks_ok h ids s" "terms_ok h'" "protocol ids h s h' s'" "h' = h(le_term e := logs s i @ [e])"
    "h (le_term e) = [] \<or> (le_term e, i) \<in> elected s \<and> h (le_term e) = logs s i" "logs s' = (logs s)(i := logs s i @ [e])" "terms s' = terms s"
    "acks (msgs s') = acks (msgs s)" "elected s' = insert (le_term e, i) (elected s)" "one_leader s'"
  shows "kept_acks h' ids s'"
  unfolding kept_acks_def
proof (intro ballI allI impI)
  fix j t m assume j: "j \<in> set ids" and a: "acked h' s' j t m"
  note x = protocol_extends [OF assms(4)]
  have m: "m < length (h' t)" using a by (simp add: acked_def)
  from acked_grow [OF assms(2,5,6,9,10,11) a]
  show "carries h' t m (logs s' j) \<or> (\<exists>t'. t < t' \<and> t' \<le> terms s' j \<and> deviates h' t m t')"
  proof
    assume "\<not> m < length (h t) \<and> t = le_term e \<and> j = i"
    then show ?thesis using fun_cong [OF assms(7), of i] m assms(5) by (simp add: carries_def)
  next
    assume o: "m < length (h t) \<and> acked h s j t m"
    then consider "carries h t m (logs s j)" | t' where "t < t'" "t' \<le> terms s j" "deviates h t m t'"
      using assms(1) j unfolding kept_acks_def by blast
    then show ?thesis
    proof cases
      case 1
      then have "carries h t m (logs s' j)" using fun_cong [OF assms(7), of j] carries_append by (cases "j = i") simp_all
      then show ?thesis using carries_extends [OF x] o by simp
    next
      case 2
      then show ?thesis using deviates_protocol [OF assms(4,3)] o fun_cong [OF assms(8), of j] by auto
    qed
  qed
qed

lemma kept_acks_accept:
  assumes "kept_acks h ids s" "acks_ok h ids s" "elected_ok ids s" "i \<in> set ids" "terms s i \<le> t1" "terms s' = (terms s)(i := t1)"
    "logs s' = (logs s)(i := L)" "m1 < length (h t1)" "take (Suc m1) L = take (Suc m1) (h t1)"
    "\<And>c. c < length (logs s i) \<Longrightarrow> take (Suc c) (logs s i) = take (Suc c) (h t1) \<Longrightarrow> take (Suc c) L = take (Suc c) (h t1)"
    "acks (msgs s') = insert (i, t1, m1) (acks (msgs s))" "elected s' = elected s"
  shows "kept_acks h ids s'"
  unfolding kept_acks_def
proof (intro ballI allI impI)
  fix j t m assume j: "j \<in> set ids" and a: "acked h s' j t m"
  have l: "logs s' i = L" "terms s' i = t1" using fun_cong [OF assms(7), of i] fun_cong [OF assms(6), of i] by simp_all
  have h1: "h t1 \<noteq> []" using assms(8) by auto
  show "carries h t m (logs s' j) \<or> (\<exists>t'. t < t' \<and> t' \<le> terms s' j \<and> deviates h t m t')"
  proof (cases "acked h s j t m")
    case False
    then have n: "j = i" "t = t1" "m \<le> m1" using a assms(11,12) unfolding acked_def by auto
    have "carries h t1 m1 L" using assms(9) take_longer [OF assms(9,8)] by (simp add: carries_def)
    then show ?thesis using carries_down n l by simp
  next
    case True
    note t = acked_term [OF True assms(2,3)]
    have m: "m < length (h t)" using True by (simp add: acked_def)
    have k: "carries h t m (logs s j) \<or> (\<exists>t'. t < t' \<and> t' \<le> terms s j \<and> deviates h t m t')"
      using assms(1) j True unfolding kept_acks_def by blast
    show ?thesis
    proof (cases "j = i")
      case False
      then show ?thesis using k fun_cong [OF assms(7), of j] fun_cong [OF assms(6), of j] by simp
    next
      case i: True
      show ?thesis using k
      proof
        assume "\<exists>t'. t < t' \<and> t' \<le> terms s j \<and> deviates h t m t'"
        then show ?thesis using i l(2) assms(5) order_trans by metis
      next
        assume c: "carries h t m (logs s j)"
        show ?thesis
        proof (cases "carries h t m (h t1)")
          case True
          then have "take (Suc m) L = take (Suc m) (h t1)" using c i assms(10) [of m] by (simp add: carries_def)
          then have "carries h t m L" using carries_trans [OF True] by metis
          then show ?thesis using i l(1) by simp
        next
          case False
          then have "t \<noteq> t1" using m by (auto simp: carries_def)
          then have "t < t1" using t i assms(5) by simp
          moreover have "deviates h t m t1" using False h1 by (simp add: deviates_def)
          ultimately show ?thesis using i l(2) by (metis order_refl)
        qed
      qed
    qed
  qed
qed

lemma kept_acks_quiet:
  assumes "kept_acks h ids s" "logs s' = logs s" "\<And>j. terms s j \<le> terms s' j" "acks (msgs s') = acks (msgs s)" "elected s' = elected s"
  shows "kept_acks h ids s'"
  unfolding kept_acks_def
proof (intro ballI allI impI)
  fix j t m assume "j \<in> set ids" "acked h s' j t m"
  then have "carries h t m (logs s j) \<or> (\<exists>t'. t < t' \<and> t' \<le> terms s j \<and> deviates h t m t')"
    using assms(1,4,5) by (simp add: kept_acks_def acked_def)
  then show "carries h t m (logs s' j) \<or> (\<exists>t'. t < t' \<and> t' \<le> terms s' j \<and> deviates h t m t')"
    using order_trans [OF _ assms(3)] unfolding fun_cong [OF assms(2)] by blast
qed

lemma kept_acks_protocol:
  assumes "protocol ids h s h' s'" "kept_acks h ids s" "acks_ok h ids s" "elected_ok ids s" "terms_ok h'" "one_leader s'"
  shows "kept_acks h' ids s'"
  using assms(1)
proof cases
  case quiet
  show ?thesis unfolding quiet(1) by (rule kept_acks_quiet [OF assms(2) quiet(2-4,7)])
next
  case (campaign i req)
  have "terms s j \<le> terms s' j" for j using campaign(5) unfolding fun_cong [OF campaign(4)] by auto
  then show ?thesis unfolding campaign(1) by (rule kept_acks_quiet [OF assms(2) campaign(3) _ campaign(8,11)])
next
  case (grant i c req)
  have "terms s j \<le> terms s' j" for j using grant(6) unfolding fun_cong [OF grant(5)] by auto
  then show ?thesis unfolding grant(1) by (rule kept_acks_quiet [OF assms(2) grant(4) _ grant(8,11)])
next
  case (lead i e)
  show ?thesis by (rule kept_acks_grow [OF assms(2,3,5,1) lead(1) disjI1 [OF lead(5)] lead(6-8,11) assms(6)])
next
  case (extend i e)
  have "elected s' = insert (le_term e, i) (elected s)" using extend(4,11) by auto
  then show ?thesis by (intro kept_acks_grow [OF assms(2,3,5,1) extend(1) disjI2 extend(6-8) _ assms(6)] conjI extend(4,5))
next
  case (accept i t l L m)
  show ?thesis unfolding accept(1) by (rule kept_acks_accept [OF assms(2-4) accept(2,5,6,7,8,9,11,12,15)])
qed

section \<open>Votes\<close>

definition campaign_at :: "RequestVoteRequest \<Rightarrow> LogEntry list \<Rightarrow> bool" where
  "campaign_at req L \<longleftrightarrow> unat (rv_lastLogIndex req) < length L \<and> le_term (L ! unat (rv_lastLogIndex req)) = rv_lastLogTerm req"

definition campaigns_ok :: "string list \<Rightarrow> cluster \<Rightarrow> bool" where
  "campaigns_ok ids s \<longleftrightarrow> (\<forall>c req. (c, req) \<in> campaigns (msgs s) \<longrightarrow> c \<in> set ids \<and> rv_lastLogTerm req < rv_term req \<and>
     rv_term req \<le> terms s c \<and> (rv_term req \<notin> fst ` elected s \<and> terms s c = rv_term req \<longrightarrow> campaign_at req (logs s c)))"

lemma campaigns_ok_keep:
  assumes "campaigns_ok ids s" "campaigns (msgs s') = campaigns (msgs s)" "\<And>j. terms s j \<le> terms s' j" "fst ` elected s \<subseteq> fst ` elected s'"
    "\<And>j. logs s' j = logs s j \<or> terms s' j \<in> fst ` elected s'"
  shows "campaigns_ok ids s'"
  unfolding campaigns_ok_def assms(2)
proof (intro allI impI)
  fix c req assume c: "(c, req) \<in> campaigns (msgs s)"
  then have o: "c \<in> set ids \<and> rv_lastLogTerm req < rv_term req \<and>
     rv_term req \<le> terms s c \<and> (rv_term req \<notin> fst ` elected s \<and> terms s c = rv_term req \<longrightarrow> campaign_at req (logs s c))"
    using assms(1) unfolding campaigns_ok_def by blast
  have "campaign_at req (logs s' c)" if "rv_term req \<notin> fst ` elected s'" "terms s' c = rv_term req"
  proof -
    have "terms s c = rv_term req" using o that(2) assms(3) [of c] by simp
    then have "campaign_at req (logs s c)" using o that(1) assms(4) by blast
    then show ?thesis using assms(5) [of c] that by auto
  qed
  then show "c \<in> set ids \<and> rv_lastLogTerm req < rv_term req \<and>
     rv_term req \<le> terms s' c \<and> (rv_term req \<notin> fst ` elected s' \<and> terms s' c = rv_term req \<longrightarrow> campaign_at req (logs s' c))"
    using o order_trans [OF _ assms(3) [of c]] by blast
qed

lemma campaigns_ok_protocol:
  assumes "protocol ids h s h' s'" "campaigns_ok ids s" "log_inv h ids s" "log_terms ids s"
  shows "campaigns_ok ids s'"
  using assms(1)
proof cases
  case quiet
  show ?thesis by (rule campaigns_ok_keep [OF assms(2) quiet(5,3)]) (use quiet(7) fun_cong [OF quiet(2)] in simp_all)
next
  case (campaign i req)
  let ?L = "logs s i"
  have ne: "?L \<noteq> []" using assms(3) campaign(2) by (simp add: log_inv_def node_ok_def matches_def)
  then have "le_term (last ?L) \<le> terms s i" using assms(4) campaign(2) by (simp add: log_terms_def)
  then have new: "campaign_at req (logs s' i)" "rv_lastLogTerm req < rv_term req"
    using ne campaign(5-7) fun_cong [OF campaign(3), of i] by (auto simp: campaign_at_def last_conv_nth)
  have "c \<in> set ids \<and> rv_lastLogTerm r < rv_term r \<and> rv_term r \<le> terms s' c \<and>
     (rv_term r \<notin> fst ` elected s' \<and> terms s' c = rv_term r \<longrightarrow> campaign_at r (logs s' c))" if "(c, r) \<in> campaigns (msgs s')" for c r
  proof (cases "(c, r) = (i, req)")
    case True
    then show ?thesis using new campaign(2) fun_cong [OF campaign(4), of i] by simp
  next
    case False
    then have o: "c \<in> set ids \<and> rv_lastLogTerm r < rv_term r \<and> rv_term r \<le> terms s c \<and>
        (rv_term r \<notin> fst ` elected s \<and> terms s c = rv_term r \<longrightarrow> campaign_at r (logs s c))"
      using that campaign(9) assms(2) unfolding campaigns_ok_def by blast
    show ?thesis
    proof (cases "c = i")
      case True
      then show ?thesis using o campaign(5) fun_cong [OF campaign(4), of i] by auto
    qed (use o campaign(11) fun_cong [OF campaign(3), of c] fun_cong [OF campaign(4), of c] in simp)
  qed
  then show ?thesis unfolding campaigns_ok_def by blast
next
  case (grant i c req)
  show ?thesis
    by (rule campaigns_ok_keep [OF assms(2) grant(9) protocol_mono [OF assms(1)]]) (use grant(11) fun_cong [OF grant(4)] in simp_all)
next
  case (lead i e)
  have "logs s' j = logs s j \<or> terms s' j \<in> fst ` elected s'" for j
    using fun_cong [OF lead(6), of j] fun_cong [OF lead(7), of j] lead(3,11) by auto
  then show ?thesis by (intro campaigns_ok_keep [OF assms(2) lead(9) protocol_mono [OF assms(1)]]) (auto simp: lead(11))
next
  case (extend i e)
  have "logs s' j = logs s j \<or> terms s' j \<in> fst ` elected s'" for j
    using fun_cong [OF extend(6), of j] fun_cong [OF extend(7), of j] extend(3,4,11) by force
  then show ?thesis by (intro campaigns_ok_keep [OF assms(2) extend(9) protocol_mono [OF assms(1)]]) (auto simp: extend(11))
next
  case (accept i t l L m)
  have "logs s' j = logs s j \<or> terms s' j \<in> fst ` elected s'" for j
    using fun_cong [OF accept(7), of j] fun_cong [OF accept(6), of j] accept(3,15) by force
  then show ?thesis by (intro campaigns_ok_keep [OF assms(2) accept(13) protocol_mono [OF assms(1)]]) (auto simp: accept(15))
qed


text \<open>A candidate with a log as current as a voter's carries what the voter has acknowledged, or some leader in between does not.\<close>

lemma current_carries:
  assumes "terms_ok h" "matches h L" "matches h M" "campaign_at req M" "current req L" "carries h t m L" "le_term (h t ! m) = t" "m < length (h t)"
    "rv_lastLogTerm req < t'"
  shows "(\<exists>t''. t < t'' \<and> t'' < t' \<and> deviates h t m t'') \<or> carries h t m M"
proof -
  let ?q = "unat (rv_lastLogIndex req)" and ?r = "rv_lastLogTerm req"
  have q: "?q < length M" "le_term (M ! ?q) = ?r" using assms(4) by (simp_all add: campaign_at_def)
  then have M: "?q < length (h ?r)" "take (Suc ?q) M = take (Suc ?q) (h ?r)" using assms(3) unfolding matches_def by metis+
  have Lm: "m < length L" "L ! m = h t ! m" using assms(6) by (auto simp: carries_def) (metis lessI nth_take)
  show ?thesis using assms(5) unfolding current_def
  proof
    assume c: "le_term (last L) < ?r"
    have "le_term (L ! m) \<le> le_term (last L)"
      using sorted_terms [OF matches_sorted [OF assms(2,1)], of m "length L - 1"] Lm(1) by (cases L rule: rev_cases) (auto simp: nth_append)
    then have t: "t < ?r" using c Lm(2) assms(7) by simp
    show ?thesis
    proof (cases "carries h t m (h ?r)")
      case False
      then have "deviates h t m ?r" using M(1) by (auto simp: deviates_def)
      then show ?thesis using t assms(9) by blast
    next
      case True
      have "m < ?q"
      proof (rule ccontr)
        assume "\<not> m < ?q"
        then have "le_term (h ?r ! ?q) \<le> le_term (h ?r ! m)"
          using sorted_terms [of "h ?r" ?q m] assms(1) True by (simp add: terms_ok_def carries_def)
        moreover have "h ?r ! ?q = M ! ?q" "h ?r ! m = h t ! m" using M True by (metis lessI nth_take, metis carries_def lessI nth_take)
        ultimately show False using q(2) assms(7) t by simp
      qed
      then have "take (Suc m) M = take (Suc m) (h ?r)" using arg_cong [OF M(2), of "take (Suc m)"] by (simp add: min_absorb1)
      then show ?thesis using carries_trans [OF True] by metis
    qed
  next
    assume c: "le_term (last L) = ?r \<and> length L \<le> Suc ?q"
    then have "L = take (length L) (h ?r)" using matches_last(1) [OF assms(2)] by simp
    then have "take (Suc m) L = take (Suc m) (h ?r)" using Lm(1) by (metis Suc_leI min_absorb1 take_take)
    moreover have "take (Suc m) M = take (Suc m) (h ?r)" using arg_cong [OF M(2), of "take (Suc m)"] c Lm(1) by (simp add: min_absorb1)
    ultimately show ?thesis using carries_trans [OF assms(6)] by metis
  qed
qed

text \<open>An acknowledgement for a term below one the node has voted in is not new.\<close>

lemma acked_old:
  assumes "protocol ids h s h' s'" "acks_ok h ids s" "one_leader s'" "t' \<le> terms s j" "t < t'" "acked h' s' j t m"
  shows "acked h s j t m" "m < length (h t)"
proof -
  have "acked h s j t m" using assms(1)
  proof cases
    case (lead i e)
    then show ?thesis using acked_grow [OF assms(2) lead(1) disjI1 [OF lead(5)] lead(8,11) assms(3,6)] assms(4,5) by auto
  next
    case (extend i e)
    have el: "elected s' = insert (le_term e, i) (elected s)" using extend(4,11) by auto
    show ?thesis
      using acked_grow [OF assms(2) extend(1) _ extend(8) el assms(3,6)] extend(3-5) assms(4,5) by auto
  next
    case (accept i t1 l L m1)
    then show ?thesis using assms(4-6) unfolding acked_def by auto
  qed (use assms(6) in \<open>simp_all add: acked_def\<close>)
  then show "acked h s j t m" "m < length (h t)" by (simp_all add: acked_def)
qed

lemma logs_carried:
  assumes "protocol ids h s h' s'" "m < length (h t)" "carries h t m (logs s c)" "t' \<le> terms s c" "t' \<notin> fst ` elected s'"
  shows "t' < terms s' c \<or> carries h' t m (logs s' c)"
proof -
  note x = protocol_extends [OF assms(1)]
  have "t' < terms s' c \<or> carries h t m (logs s' c)" using assms(1)
  proof cases
    case (lead i e)
    then show ?thesis using fun_cong [OF lead(6), of c] assms(3) carries_append by (cases "c = i") auto
  next
    case (extend i e)
    then show ?thesis using fun_cong [OF extend(6), of c] assms(3) carries_append by (cases "c = i") auto
  next
    case (accept i t1 l L m1)
    have "t1 \<in> fst ` elected s'" using accept(3,15) by force
    then have "t' \<noteq> t1" using assms(5) by auto
    then show ?thesis
      using fun_cong [OF accept(6), of c] fun_cong [OF accept(7), of c] accept(5) assms(3,4) by (cases "c = i") auto
  qed (use assms(3) in \<open>auto dest!: fun_cong [of "logs s'" _ c]\<close>)
  then show ?thesis using carries_extends [OF x assms(2)] by simp
qed

text \<open>What a vote promises of the candidate's log.\<close>

definition promise :: "history \<Rightarrow> cluster \<Rightarrow> string \<Rightarrow> u64 \<Rightarrow> string \<Rightarrow> bool" where
  "promise h s j t' c \<longleftrightarrow> t' \<le> terms s c \<and> (t' \<notin> fst ` elected s \<longrightarrow>
     (\<forall>t m. acked h s j t m \<and> t < t' \<and> le_term (h t ! m) = t \<longrightarrow>
       (\<exists>t''. t < t'' \<and> t'' < t' \<and> deviates h t m t'') \<or> t' < terms s c \<or> carries h t m (logs s c)))"

lemma protocol_elected:
  assumes "protocol ids h s h' s'" shows "elected s \<subseteq> elected s'"
  using assms by cases auto

lemma promise_kept:
  assumes "protocol ids h s h' s'" "terms_ok h'" "acks_ok h ids s" "one_leader s'" "promise h s j t' c" "t' \<le> terms s j"
  shows "promise h' s' j t' c"
  unfolding promise_def
proof (intro conjI impI allI)
  note x = protocol_extends [OF assms(1)]
  have p: "t' \<le> terms s c" using assms(5) by (simp add: promise_def)
  then show "t' \<le> terms s' c" using protocol_mono [OF assms(1), of c] by simp
  fix t m assume n: "t' \<notin> fst ` elected s'" and a: "acked h' s' j t m \<and> t < t' \<and> le_term (h' t ! m) = t"
  have o: "acked h s j t m" "m < length (h t)" using acked_old [OF assms(1,3,4,6)] a by blast+
  have "h' t ! m = h t ! m" using take_extends [OF x o(2)] by (metis lessI nth_take)
  moreover have "t' \<notin> fst ` elected s" using n protocol_elected [OF assms(1)] by blast
  ultimately consider t'' where "t < t''" "t'' < t'" "deviates h t m t''" | "t' < terms s c" | "carries h t m (logs s c)"
    using assms(5) o(1) a unfolding promise_def by metis
  then show "(\<exists>t''. t < t'' \<and> t'' < t' \<and> deviates h' t m t'') \<or> t' < terms s' c \<or> carries h' t m (logs s' c)"
  proof cases
    case 1
    then show ?thesis using deviates_protocol [OF assms(1,2) _ o(2)] by blast
  next
    case 2
    then show ?thesis using protocol_mono [OF assms(1), of c] by auto
  next
    case 3
    then show ?thesis using logs_carried [OF assms(1) o(2) _ p n] by blast
  qed
qed


definition votes_ok :: "history \<Rightarrow> cluster \<Rightarrow> bool" where
  "votes_ok h s \<longleftrightarrow> (\<forall>j t' c. (j, t', c) \<in> ballots s \<longrightarrow> promise h s j t' c)"

lemma campaign_promise:
  assumes "kept_acks h ids s" "i \<in> set ids" "logs s' = logs s" "terms s' = (terms s)(i := t')" "terms s i < t'"
    "acks (msgs s') = acks (msgs s)" "elected s' = elected s"
  shows "promise h s' i t' i"
proof -
  have "(\<exists>t''. t < t'' \<and> t'' < t' \<and> deviates h t m t'') \<or> carries h t m (logs s' i)" if "acked h s' i t m" for t m
  proof -
    have "acked h s i t m" using that assms(6,7) by (simp add: acked_def)
    then have "carries h t m (logs s i) \<or> (\<exists>t''. t < t'' \<and> t'' \<le> terms s i \<and> deviates h t m t'')"
      using assms(1,2) by (simp add: kept_acks_def)
    then show ?thesis using assms(5) fun_cong [OF assms(3), of i] le_less_trans by metis
  qed
  then show ?thesis using fun_cong [OF assms(4), of i] by (auto simp: promise_def)
qed

lemma grant_promise:
  assumes "log_inv h ids s" "terms_ok h" "kept_acks h ids s" "campaigns_ok ids s" "i \<in> set ids" "(c, req) \<in> campaigns (msgs s)"
    "logs s' = logs s" "terms s' = (terms s)(i := rv_term req)" "terms s i \<le> rv_term req" "current req (logs s i)"
    "acks (msgs s') = acks (msgs s)" "elected s' = elected s"
  shows "promise h s' i (rv_term req) c"
  unfolding promise_def
proof (intro conjI impI allI)
  let ?t' = "rv_term req"
  have c: "c \<in> set ids" "rv_lastLogTerm req < ?t'" "?t' \<le> terms s c"
    "?t' \<notin> fst ` elected s \<and> terms s c = ?t' \<longrightarrow> campaign_at req (logs s c)"
    using assms(4,6) unfolding campaigns_ok_def by blast+
  have tc: "terms s c \<le> terms s' c" using fun_cong [OF assms(8), of c] assms(9) by auto
  then show "?t' \<le> terms s' c" using c(3) by simp
  fix t m assume n: "?t' \<notin> fst ` elected s'" and a: "acked h s' i t m \<and> t < ?t' \<and> le_term (h t ! m) = t"
  have m: "m < length (h t)" using a by (simp add: acked_def)
  have "?t' \<noteq> 0" using a by auto
  then have h': "h ?t' = []" using assms(1) n assms(12) unfolding log_inv_def hist_ok_def by auto
  have "acked h s i t m" using a assms(11,12) by (simp add: acked_def)
  then have "carries h t m (logs s i) \<or> (\<exists>t''. t < t'' \<and> t'' \<le> terms s i \<and> deviates h t m t'')"
    using assms(3,5) unfolding kept_acks_def by blast
  then show "(\<exists>t''. t < t'' \<and> t'' < ?t' \<and> deviates h t m t'') \<or> ?t' < terms s' c \<or> carries h t m (logs s' c)"
  proof
    assume "\<exists>t''. t < t'' \<and> t'' \<le> terms s i \<and> deviates h t m t''"
    then obtain t'' where t'': "t < t''" "t'' \<le> ?t'" "deviates h t m t''" using assms(9) order_trans by blast
    then have "t'' \<noteq> ?t'" using h' by (auto simp: deviates_def)
    then show ?thesis using t'' by auto
  next
    assume k: "carries h t m (logs s i)"
    show ?thesis
    proof (cases "?t' < terms s c")
      case True
      then show ?thesis using tc by auto
    next
      case False
      then have "campaign_at req (logs s c)" using c(3,4) n assms(12) by auto
      moreover have "matches h (logs s i)" "matches h (logs s c)" using assms(1,5) c(1) by (simp_all add: log_inv_def node_ok_def)
      ultimately have "(\<exists>t''. t < t'' \<and> t'' < ?t' \<and> deviates h t m t'') \<or> carries h t m (logs s c)"
        using current_carries [OF assms(2) _ _ _ assms(10) k _ m c(2)] a by blast
      then show ?thesis unfolding fun_cong [OF assms(7), of c] by blast
    qed
  qed
qed

lemma votes_ok_protocol:
  assumes "protocol ids h s h' s'" "log_inv h ids s" "terms_ok h" "terms_ok h'" "acks_ok h ids s" "kept_acks h ids s" "campaigns_ok ids s"
    "one_leader s'" "ballots_inv ids s" "votes_ok h s"
  shows "votes_ok h' s'"
proof -
  have old: "promise h' s' j t' c" if "(j, t', c) \<in> ballots s" for j t' c
    by (rule promise_kept [OF assms(1,4,5,8)]) (use assms(9,10) that in \<open>auto simp: votes_ok_def ballots_inv_def\<close>)
  show ?thesis using assms(1)
  proof cases
    case (campaign i req)
    have "promise h s' i (rv_term req) i" by (rule campaign_promise [OF assms(6) campaign(2-5,8,11)])
    then show ?thesis using old unfolding votes_ok_def campaign(1,10) by blast
  next
    case (grant i c req)
    have "promise h s' i (rv_term req) c"
      by (rule grant_promise [OF assms(2,3,6,7) grant(2-7,8,11)])
    then show ?thesis using old unfolding votes_ok_def grant(1,10) by blast
  qed (use old in \<open>auto simp: votes_ok_def\<close>)
qed

section \<open>Leaders\<close>

text \<open>
  A majority voted for each leader, and what any of its members had acknowledged in an earlier
  term the leader carries, unless some leader in between did not.
\<close>

definition backed :: "history \<Rightarrow> cluster \<Rightarrow> string \<Rightarrow> u64 \<Rightarrow> bool" where
  "backed h s j t' \<longleftrightarrow> t' \<le> terms s j \<and> (\<forall>t m. acked h s j t m \<and> t < t' \<and> le_term (h t ! m) = t \<longrightarrow>
     (\<exists>t''. t < t'' \<and> t'' < t' \<and> deviates h t m t'') \<or> carries h t m (h t'))"

definition leaders_ok :: "history \<Rightarrow> string list \<Rightarrow> cluster \<Rightarrow> bool" where
  "leaders_ok h ids s \<longleftrightarrow> (\<forall>t' c. (t', c) \<in> elected s \<longrightarrow> (\<exists>A. majority ids A \<and> (\<forall>j \<in> A. backed h s j t')))"

lemma backed_kept:
  assumes "protocol ids h s h' s'" "terms_ok h'" "acks_ok h ids s" "one_leader s'" "backed h s j t'"
  shows "backed h' s' j t'"
  unfolding backed_def
proof (intro conjI allI impI)
  note x = protocol_extends [OF assms(1)]
  have p: "t' \<le> terms s j" using assms(5) by (simp add: backed_def)
  then show "t' \<le> terms s' j" using protocol_mono [OF assms(1), of j] by simp
  fix t m assume a: "acked h' s' j t m \<and> t < t' \<and> le_term (h' t ! m) = t"
  have o: "acked h s j t m" "m < length (h t)" using acked_old [OF assms(1,3,4) p] a by blast+
  have "h' t ! m = h t ! m" using take_extends [OF x o(2)] by (metis lessI nth_take)
  then consider t'' where "t < t''" "t'' < t'" "deviates h t m t''" | "carries h t m (h t')"
    using assms(5) o(1) a unfolding backed_def by metis
  then show "(\<exists>t''. t < t'' \<and> t'' < t' \<and> deviates h' t m t'') \<or> carries h' t m (h' t')"
  proof cases
    case 1
    then show ?thesis using deviates_protocol [OF assms(1,2) _ o(2)] by blast
  next
    case 2
    obtain ys where "h' t' = h t' @ ys" using x unfolding extends_def by blast
    then show ?thesis using carries_append [OF 2] carries_extends [OF x o(2)] by simp
  qed
qed

lemma lead_backed:
  assumes "protocol ids h s h' s'" "acks_ok h ids s" "one_leader s'" "terms_ok h'" "votes_ok h s" "(j, t', i) \<in> ballots s" "t' \<le> terms s j"
    "t' \<notin> fst ` elected s" "terms s i = t'" "h' t' = logs s i @ [e]"
  shows "backed h' s' j t'"
  unfolding backed_def
proof (intro conjI allI impI)
  note x = protocol_extends [OF assms(1)]
  show "t' \<le> terms s' j" using assms(7) protocol_mono [OF assms(1), of j] by simp
  fix t m assume a: "acked h' s' j t m \<and> t < t' \<and> le_term (h' t ! m) = t"
  have o: "acked h s j t m" "m < length (h t)" using acked_old [OF assms(1,2,3,7)] a by blast+
  have "h' t ! m = h t ! m" using take_extends [OF x o(2)] by (metis lessI nth_take)
  moreover have "promise h s j t' i" using assms(5,6) by (simp add: votes_ok_def)
  ultimately have "(\<exists>t''. t < t'' \<and> t'' < t' \<and> deviates h t m t'') \<or> carries h t m (logs s i)"
    using o(1) a assms(8,9) unfolding promise_def by (metis less_irrefl)
  then show "(\<exists>t''. t < t'' \<and> t'' < t' \<and> deviates h' t m t'') \<or> carries h' t m (h' t')"
    using deviates_protocol [OF assms(1,4) _ o(2)] carries_append carries_extends [OF x o(2)] assms(10) by metis
qed

lemma leaders_ok_protocol:
  assumes "protocol ids h s h' s'" "terms_ok h'" "acks_ok h ids s" "one_leader s'" "votes_ok h s" "ballots_inv ids s" "leaders_inv ids s'"
    "leaders_ok h ids s"
  shows "leaders_ok h' ids s'"
proof -
  have old: "\<exists>A. majority ids A \<and> (\<forall>j \<in> A. backed h' s' j t')" if "(t', c) \<in> elected s" for t' c
    using assms(8) that backed_kept [OF assms(1-4)] unfolding leaders_ok_def by blast
  show ?thesis using assms(1)
  proof cases
    case (lead i e)
    have "(le_term e, i) \<in> elected s'" using lead(11) by simp
    then obtain A where A: "majority ids A" "\<forall>j \<in> A. (j, le_term e, i) \<in> ballots s"
      using assms(7) lead(10) unfolding leaders_inv_def by metis
    have "backed h' s' j (le_term e)" if "j \<in> A" for j
      by (rule lead_backed [OF assms(1,3,4,2,5), of j _ i e]) (use A(2) that assms(6) lead in \<open>auto simp: ballots_inv_def\<close>)
    then show ?thesis using A(1) old unfolding leaders_ok_def lead(11) by blast
  qed (use old in \<open>auto simp: leaders_ok_def\<close>)
qed

section \<open>The invariant of a run\<close>

definition safe_inv :: "history \<Rightarrow> string list \<Rightarrow> cluster \<Rightarrow> bool" where
  "safe_inv h ids s \<longleftrightarrow> log_inv h ids s \<and> terms_ok h \<and> log_terms ids s \<and> acks_ok h ids s \<and> kept_acks h ids s \<and>
     campaigns_ok ids s \<and> votes_ok h s \<and> leaders_ok h ids s"

lemma safe_inv_protocol:
  assumes "protocol ids h s h' s'" "safe_inv h ids s" "log_inv h' ids s'" "cluster_inv J ids s" "cluster_inv J ids s'" "one_leader s'"
  shows "safe_inv h' ids s'"
proof -
  have i: "log_inv h ids s" "terms_ok h" "log_terms ids s" "acks_ok h ids s" "kept_acks h ids s" "campaigns_ok ids s" "votes_ok h s" "leaders_ok h ids s"
    "elected_ok ids s"
    using assms(2) by (simp_all add: safe_inv_def log_inv_def)
  have c: "ballots_inv ids s" "leaders_inv ids s'" using assms(4,5) by (simp_all add: cluster_inv_def)
  note t = protocol_terms [OF assms(1) i(1-3)]
  show ?thesis unfolding safe_inv_def
    using assms(3) t acks_ok_protocol [OF assms(1) i(4)] kept_acks_protocol [OF assms(1) i(5,4,9) t(1) assms(6)]
      campaigns_ok_protocol [OF assms(1) i(6,1,3)] votes_ok_protocol [OF assms(1) i(1,2) t(1) i(4,5,6) assms(6) c(1) i(7)]
      leaders_ok_protocol [OF assms(1) t(1) i(4) assms(6) i(7) c i(8)] by blast
qed

text \<open>An entry of a leader's own term that a majority has acknowledged is chosen.\<close>

definition chosen :: "history \<Rightarrow> string list \<Rightarrow> cluster \<Rightarrow> u64 \<Rightarrow> nat \<Rightarrow> bool" where
  "chosen h ids s t m \<longleftrightarrow> m < length (h t) \<and> le_term (h t ! m) = t \<and> (\<exists>A. majority ids A \<and> (\<forall>j \<in> A. acked h s j t m))"

lemma chosen_carried:
  assumes "safe_inv h ids s" "chosen h ids s t m" "t < t'" "h t' \<noteq> []"
  shows "carries h t m (h t')"
  using assms(3,4)
proof (induction "unat t'" arbitrary: t' rule: less_induct)
  case less
  have "t' \<noteq> 0" using less(2) by auto
  then obtain c where "(t', c) \<in> elected s" using assms(1) less(3) by (auto simp: safe_inv_def log_inv_def hist_ok_def)
  then obtain B where B: "majority ids B" "\<forall>j \<in> B. backed h s j t'" using assms(1) unfolding safe_inv_def leaders_ok_def by blast
  obtain A where A: "majority ids A" "\<forall>j \<in> A. acked h s j t m" "le_term (h t ! m) = t" using assms(2) by (auto simp: chosen_def)
  obtain j where "j \<in> A" "j \<in> B" using mj.intersect [OF A(1) B(1)] by blast
  then have "(\<exists>t''. t < t'' \<and> t'' < t' \<and> deviates h t m t'') \<or> carries h t m (h t')"
    using A(2,3) B(2) less(2) unfolding backed_def by blast
  then show ?case
  proof
    assume "\<exists>t''. t < t'' \<and> t'' < t' \<and> deviates h t m t''"
    then obtain t'' where t'': "t < t''" "t'' < t'" "deviates h t m t''" by blast
    then have "carries h t m (h t'')" by (intro less(1)) (simp_all add: word_less_nat_alt deviates_def)
    then show ?case using t''(3) by (simp add: deviates_def)
  qed
qed


context json_sized
begin

lemma reachable_one_leader: "reachable J ids s \<Longrightarrow> ids_ok ids \<Longrightarrow> one_leader s"
  using one_leader_per_term unfolding one_leader_def by blast

lemma initial_safe:
  assumes "initial J ids s" "ids_ok ids" shows "\<exists>h. safe_inv h ids s"
proof -
  let ?h = "\<lambda>t. if t = 0 then [sentinel] else []"
  have e: "msgs s = {}" "ballots s = {}" "elected s = {}" using assms(1) by (simp_all add: initial_def)
  note l = initial_log(1) [OF assms]
  have t: "terms_ok ?h" by (simp add: terms_ok_def sentinel_def)
  have "le_term x \<le> terms s i" if i: "i \<in> set ids" and x: "x \<in> set (logs s i)" for i x
  proof -
    have m: "matches ?h (logs s i)" using l i by (simp add: log_inv_def node_ok_def)
    obtain k where "k < length (logs s i)" "x = logs s i ! k" using x by (auto simp: in_set_conv_nth)
    then have "?h (le_term x) \<noteq> []" using m unfolding matches_def by fastforce
    then show ?thesis by (auto split: if_splits)
  qed
  then have "log_terms ids s" by (simp add: log_terms_def)
  moreover have "acks (msgs s) = {}" "campaigns (msgs s) = {}" by (simp_all add: e acks_def campaigns_def)
  ultimately have "safe_inv ?h ids s"
    using l t by (simp add: safe_inv_def acks_ok_def kept_acks_def acked_def campaigns_ok_def votes_ok_def leaders_ok_def e)
  then show ?thesis by blast
qed

lemma live_step_safe:
  assumes "live_step J ids s s'" "reachable J ids s" "ids_ok ids" "safe_inv h ids s" "short ids s"
  shows "\<exists>h'. protocol ids h s h' s' \<and> safe_inv h' ids s'"
proof -
  have "log_inv h ids s" using assms(4) by (simp add: safe_inv_def)
  then obtain h' where h': "protocol ids h s h' s'" "log_inv h' ids s'" using live_step_log [OF assms(1-3) _ assms(5)] by blast
  have r': "reachable J ids s'" using assms(1,2) by (blast intro: reachable.next_state step.live)
  have "safe_inv h' ids s'"
    by (rule safe_inv_protocol [OF h'(1) assms(4) h'(2) reachable_inv [OF assms(2,3)] reachable_inv [OF r' assms(3)]
          reachable_one_leader [OF r' assms(3)]])
  then show ?thesis using h'(1) by blast
qed

lemma quiet_safe:
  assumes "protocol ids h s h s'" "log_inv h ids s'" "safe_inv h ids s" "reachable J ids s" "reachable J ids s'" "ids_ok ids"
  shows "safe_inv h ids s'"
  by (rule safe_inv_protocol [OF assms(1,3,2) reachable_inv [OF assms(4,6)] reachable_inv [OF assms(5,6)] reachable_one_leader [OF assms(5,6)]])

lemma late_step_safe:
  assumes "late_step J ids s s'" "reachable J ids s" "ids_ok ids" "safe_inv h ids s"
  shows "safe_inv h ids s'"
proof -
  have l: "log_inv h ids s" using assms(4) by (simp add: safe_inv_def)
  show ?thesis
    by (rule quiet_safe [OF late_step_log [OF assms(1-3) l] assms(4,2) reachable.next_state [OF assms(2) step.late [OF assms(1)]] assms(3)])
qed

lemma restart_safe:
  assumes "restart_step J ids s s'" "logs_related (=) ids s s'" "reachable J ids s" "ids_ok ids" "safe_inv h ids s"
  shows "safe_inv h ids s'" "protocol ids h s h s'"
    "\<exists>i \<in> set ids. \<exists>n. role n = Follower \<and> commitIndex n = snapshotIndex (rlog n) \<and> currentTerm n = currentTerm (nodes s i) \<and>
      entries (rlog n) = logs s i \<and> s' = (set_node i n s)\<lparr>elections := (elections s)(i := None)\<rparr>"
proof -
  have l: "log_inv h ids s" using assms(5) by (simp add: safe_inv_def)
  have r': "reachable J ids s'" by (rule reachable.next_state [OF assms(3) step.restarted [OF assms(1)]])
  from restart_log [OF assms(1,2) _ assms(3,4) l] obtain i n where n: "log_inv h ids s'" "i \<in> set ids"
    "role n = Follower" "commitIndex n = snapshotIndex (rlog n)" "currentTerm n = currentTerm (nodes s i)"
    "s' = (set_node i n s)\<lparr>elections := (elections s)(i := None)\<rparr>" by auto
  have e: "entries (rlog n) = logs s i" using assms(2) n(2,6) by (auto simp: logs_related_def)
  show p: "protocol ids h s h s'" by (rule quiet) (use n(5) e in \<open>simp_all add: n(6) fun_eq_iff\<close>)
  show "safe_inv h ids s'" by (rule quiet_safe [OF p n(1) assms(5,3) r' assms(4)])
  show "\<exists>i \<in> set ids. \<exists>n. role n = Follower \<and> commitIndex n = snapshotIndex (rlog n) \<and> currentTerm n = currentTerm (nodes s i) \<and>
      entries (rlog n) = logs s i \<and> s' = (set_node i n s)\<lparr>elections := (elections s)(i := None)\<rparr>"
    using n e by blast
qed

end

end
