(* ===== verification/Commitment.thy ===== *)
theory Commitment
  imports LeaderCompleteness
begin

text \<open>
  What it means that an entry is committed, on top of \<open>LeaderCompleteness\<close>: where a request of a
  leader may start in the log of a follower, which positions of a log are committed as of a
  term, and the invariant of the indices that leaders keep, of requests and of answers, with
  the lemmas that every step of the protocol keeps what it says of unchanged nodes and messages.
\<close>

section \<open>Where a follower's log may differ\<close>

text \<open>
  A request that starts behind position \<open>x\<close> must not step over entries of the follower that the
  leader does not have: either the next entry is of the leader's own term, or the follower is
  known to have nothing but entries of the leader, or to differ right behind \<open>x\<close>.
\<close>

definition fresh :: "history \<Rightarrow> u64 \<Rightarrow> nat \<Rightarrow> bool" where
  "fresh h t x \<longleftrightarrow> (Suc x < length (h t) \<longrightarrow> le_term (h t ! Suc x) = t)"

definition ready :: "history \<Rightarrow> u64 \<Rightarrow> nat \<Rightarrow> LogEntry list \<Rightarrow> bool" where
  "ready h t x L \<longleftrightarrow> prefix L (h t) \<or> \<not> carries h t (Suc x) L"

definition safe_at :: "history \<Rightarrow> cluster \<Rightarrow> string \<Rightarrow> u64 \<Rightarrow> nat \<Rightarrow> bool" where
  "safe_at h s p t x \<longleftrightarrow> x < length (h t) \<and>
     (fresh h t x \<or> t \<le> terms s p \<and> (terms s p = t \<longrightarrow> ready h t x (logs s p)))"

lemma own_term_prefix:
  assumes "matches h L" "terms_ok h" "\<forall>e \<in> set L. le_term e \<le> t" "k < length L" "le_term (L ! k) = t"
  shows "prefix L (h t)"
proof -
  have ne: "L \<noteq> []" using assms(4) by auto
  have "le_term (L ! k) \<le> le_term (L ! (length L - 1))"
    by (rule sorted_terms [OF matches_sorted [OF assms(1,2)]]) (use assms(4) in auto)
  then have "le_term (last L) = t" using assms(3,5) ne by (simp add: last_conv_nth order_antisym)
  then show ?thesis using matches_last(1) [OF assms(1)] by (metis take_is_prefix)
qed

lemma node_log:
  assumes "safe_inv h ids s" "p \<in> set ids"
  shows "matches h (logs s p)" "\<forall>e \<in> set (logs s p). le_term e \<le> terms s p" "terms_ok h"
  using assms by (auto simp: safe_inv_def log_inv_def node_ok_def log_terms_def)

text \<open>The history grows only at the term of a leader, by an entry of that term.\<close>

lemma history_grows:
  assumes "protocol ids h s h' s'" "(t, l) \<in> elected s"
  shows "h' t = h t \<or> (\<exists>e. h' t = h t @ [e] \<and> le_term e = t)"
  using assms(1)
proof cases
  case (lead i e)
  have "t \<noteq> le_term e" using lead(4) assms(2) by force
  then show ?thesis unfolding lead(1) by simp
next
  case (extend i e)
  then show ?thesis using extend(5) unfolding extend(1) by (cases "t = le_term e") simp_all
qed simp_all

lemma fresh_kept:
  assumes "protocol ids h s h' s'" "(t, l) \<in> elected s" "fresh h t x" "x < length (h t)" shows "fresh h' t x"
proof -
  have "fresh h' t x" if "h' t = h t @ [e]" "le_term e = t" for e
    using assms(3,4) that(2) unfolding fresh_def that(1) by (cases "Suc x = length (h t)") (simp_all add: nth_append)
  then show ?thesis using history_grows [OF assms(1,2)] assms(3) by (auto simp: fresh_def)
qed

text \<open>While a follower stays in a term, its log changes only to a prefix of the leader's.\<close>

lemma follower_log:
  assumes "protocol ids h s h' s'" "one_leader s'" "(t, l) \<in> elected s" "p \<noteq> l" "terms s p = t" "terms s' p = t"
  shows "logs s' p = logs s p \<or> prefix (logs s' p) (h t)"
  using assms(1)
proof cases
  case (lead i e)
  have "p \<noteq> i" using lead(3,4) assms(3,5) by force
  then show ?thesis using fun_cong [OF lead(6), of p] by simp
next
  case (extend i e)
  have "p \<noteq> i" using extend(3,4,11) assms(2-5) unfolding one_leader_def by metis
  then show ?thesis using fun_cong [OF extend(6), of p] by simp
next
  case (accept i t1 l1 L m)
  show ?thesis
  proof (cases "p = i")
    case True
    then have "t1 = t" using assms(6) fun_cong [OF accept(6), of p] by simp
    then show ?thesis using accept(10) fun_cong [OF accept(7), of p] True by (auto intro: take_is_prefix)
  qed (use fun_cong [OF accept(7), of p] in simp)
qed (auto dest: fun_cong)

lemma prefix_kept:
  assumes "protocol ids h s h' s'" "one_leader s'" "(t, l) \<in> elected s" "p \<noteq> l" "terms s p = t" "terms s' p = t" "prefix (logs s p) (h t)"
  shows "prefix (logs s' p) (h' t)"
proof -
  obtain ys where "h' t = h t @ ys" using protocol_extends [OF assms(1)] unfolding extends_def by blast
  moreover have "prefix (logs s' p) (h t)" using follower_log [OF assms(1-6)] assms(7) by auto
  ultimately show ?thesis by (simp add: prefix_prefix)
qed

lemma ready_kept:
  assumes "protocol ids h s h' s'" "one_leader s'" "(t, l) \<in> elected s" "p \<noteq> l" "terms s p = t" "terms s' p = t"
    "safe_inv h' ids s'" "p \<in> set ids" "ready h t x (logs s p)"
  shows "ready h' t x (logs s' p)"
proof (cases "prefix (logs s p) (h t) \<or> logs s' p \<noteq> logs s p")
  case True
  then have "prefix (logs s' p) (h t) \<or> prefix (logs s' p) (h' t)"
    using follower_log [OF assms(1-6)] prefix_kept [OF assms(1-6)] by blast
  then show ?thesis using protocol_extends [OF assms(1)] unfolding ready_def extends_def by (metis prefix_prefix)
next
  case False
  then have n: "\<not> carries h t (Suc x) (logs s p)" "logs s' p = logs s p" using assms(9) by (auto simp: ready_def)
  show ?thesis
  proof (cases "carries h' t (Suc x) (logs s' p)")
    case True
    have "\<not> Suc x < length (h t)" using n carries_extends [OF protocol_extends [OF assms(1)]] True by metis
    moreover have "h' t \<noteq> h t" using True n by (auto simp: carries_def)
    ultimately obtain e where e: "h' t = h t @ [e]" "le_term e = t" "length (h t) \<le> Suc x"
      using history_grows [OF assms(1,3)] by auto
    have l: "Suc x < length (logs s' p)" "take (Suc (Suc x)) (logs s' p) = take (Suc (Suc x)) (h' t)" using True by (simp_all add: carries_def)
    then have "Suc x = length (h t)" using e take_longer [OF l(2) [symmetric] l(1)] by simp
    moreover have "logs s' p ! Suc x = h' t ! Suc x" using l(2) by (metis lessI nth_take)
    ultimately have "le_term (logs s' p ! Suc x) = t" using e by simp
    then have "prefix (logs s' p) (h' t)"
      using own_term_prefix [OF node_log(1,3) [OF assms(7,8)] _ l(1)] node_log(2) [OF assms(7,8)] assms(6) by simp
    then show ?thesis by (simp add: ready_def)
  qed (simp add: ready_def)
qed

lemma safe_at_kept:
  assumes "protocol ids h s h' s'" "one_leader s'" "(t, l) \<in> elected s" "p \<noteq> l" "safe_inv h' ids s'" "p \<in> set ids" "safe_at h s p t x"
  shows "safe_at h' s' p t x"
proof -
  have x: "x < length (h t)" using assms(7) by (simp add: safe_at_def)
  then have x': "x < length (h' t)" using take_extends [OF protocol_extends [OF assms(1)]] by blast
  show ?thesis
  proof (cases "fresh h t x")
    case True
    then show ?thesis using fresh_kept [OF assms(1,3) _ x] x' by (simp add: safe_at_def)
  next
    case False
    then have t: "t \<le> terms s p" "terms s p = t \<longrightarrow> ready h t x (logs s p)" using assms(7) by (simp_all add: safe_at_def)
    note m = protocol_mono [OF assms(1), of p]
    have "ready h' t x (logs s' p)" if "terms s' p = t"
      using ready_kept [OF assms(1-4) _ that assms(5,6)] t m that by simp
    then show ?thesis using x' t(1) m unfolding safe_at_def by (meson order_trans)
  qed
qed

section \<open>Commitment\<close>

text \<open>
  A position of a log is committed as of a term if the log agrees up to there with that of the
  leader of some term up to it in which an entry at or behind that position is chosen.
\<close>

definition committed :: "history \<Rightarrow> string list \<Rightarrow> cluster \<Rightarrow> u64 \<Rightarrow> LogEntry list \<Rightarrow> nat \<Rightarrow> bool" where
  "committed h ids s T L c \<longleftrightarrow> c = 0 \<or> (\<exists>t m. t \<le> T \<and> chosen h ids s t m \<and> c \<le> m \<and> carries h t c L)"

lemma acks_mono: "protocol ids h s h' s' \<Longrightarrow> acks (msgs s) \<subseteq> acks (msgs s')"
  by (cases rule: protocol.cases) auto

lemma acked_kept:
  assumes "protocol ids h s h' s'" "acked h s j t m" shows "acked h' s' j t m"
  using assms(2) acks_mono [OF assms(1)] protocol_elected [OF assms(1)] take_extends [OF protocol_extends [OF assms(1)], of m t]
  unfolding acked_def by blast

lemma chosen_kept:
  assumes "protocol ids h s h' s'" "chosen h ids s t m" shows "chosen h' ids s' t m"
proof -
  have m: "m < length (h t)" "le_term (h t ! m) = t" using assms(2) by (simp_all add: chosen_def)
  note x = take_extends [OF protocol_extends [OF assms(1)] m(1)]
  then have "h' t ! m = h t ! m" by (metis lessI nth_take)
  then show ?thesis using assms(2) m(2) x acked_kept [OF assms(1)] unfolding chosen_def by metis
qed

lemma chosen_carries: "chosen h ids s t m \<Longrightarrow> c \<le> m \<Longrightarrow> protocol ids h s h' s' \<Longrightarrow> carries h' t c L = carries h t c L"
  by (rule carries_extends [OF protocol_extends]) (auto simp: chosen_def)

lemma committed_request:
  assumes "protocol ids h s h' s'" "committed h ids s T (h T) c" shows "committed h' ids s' T (h' T) c"
proof (cases "c = 0")
  case False
  then obtain t m where c: "t \<le> T" "chosen h ids s t m" "c \<le> m" "carries h t c (h T)" using assms(2) by (auto simp: committed_def)
  obtain ys where ys: "h' T = h T @ ys" using protocol_extends [OF assms(1)] unfolding extends_def by blast
  have "carries h' t c (h' T)" unfolding chosen_carries [OF c(2,3) assms(1)] ys by (rule carries_append [OF c(4)])
  then show ?thesis using c chosen_kept [OF assms(1)] unfolding committed_def by blast
qed (simp add: committed_def)

lemma accept_carries:
  assumes "safe_inv h ids s" "chosen h ids s t m" "c \<le> m" "t \<le> t'" "h t' \<noteq> []" "carries h t c L"
  shows "carries h t c (h t')" "take (Suc c) L = take (Suc c) (h t')"
proof -
  show c: "carries h t c (h t')"
  proof (cases "t = t'")
    case True
    then show ?thesis using assms(2,3) by (simp add: carries_def chosen_def)
  next
    case False
    then show ?thesis using chosen_carried [OF assms(1,2) _ assms(5)] assms(4) carries_down [OF _ assms(3)] by simp
  qed
  then show "take (Suc c) L = take (Suc c) (h t')" using assms(6) by (simp add: carries_def)
qed

lemma carries_kept:
  assumes "protocol ids h s h' s'" "safe_inv h ids s" "t \<le> terms s j" "chosen h ids s t m" "c \<le> m" "carries h t c (logs s j)"
  shows "carries h t c (logs s' j)"
  using assms(1)
proof cases
  case (lead i e)
  then show ?thesis using fun_cong [OF lead(6), of j] assms(6) carries_append by (cases "j = i") auto
next
  case (extend i e)
  then show ?thesis using fun_cong [OF extend(6), of j] assms(6) carries_append by (cases "j = i") auto
next
  case (accept i t1 l L m1)
  show ?thesis
  proof (cases "j = i")
    case True
    have t1: "t \<le> t1" "h t1 \<noteq> []" using assms(3) accept(5,8) True by auto
    note a = accept_carries [OF assms(2,4,5) t1 assms(6)]
    have "c < length (logs s i)" using assms(6) True by (simp add: carries_def)
    then have "take (Suc c) L = take (Suc c) (h t1)" using accept(11) a(2) True by blast
    then show ?thesis using carries_trans [OF a(1)] fun_cong [OF accept(7), of j] True by simp
  qed (use fun_cong [OF accept(7), of j] assms(6) in simp)
qed (use assms(6) in \<open>auto dest!: fun_cong [of "logs s'" _ j]\<close>)

lemma committed_node:
  assumes "protocol ids h s h' s'" "safe_inv h ids s" "committed h ids s (terms s j) (logs s j) c"
  shows "committed h' ids s' (terms s' j) (logs s' j) c" "c \<noteq> 0 \<Longrightarrow> take (Suc c) (logs s' j) = take (Suc c) (logs s j)"
proof -
  have "committed h' ids s' (terms s' j) (logs s' j) c \<and> (c \<noteq> 0 \<longrightarrow> take (Suc c) (logs s' j) = take (Suc c) (logs s j))"
  proof (cases "c = 0")
    case False
    then obtain t m where c: "t \<le> terms s j" "chosen h ids s t m" "c \<le> m" "carries h t c (logs s j)"
      using assms(3) by (auto simp: committed_def)
    note k = carries_kept [OF assms(1,2) c]
    then have "carries h' t c (logs s' j)" using chosen_carries [OF c(2,3) assms(1)] by simp
    moreover have "t \<le> terms s' j" using c(1) protocol_mono [OF assms(1), of j] by simp
    ultimately show ?thesis using c(2-4) k chosen_kept [OF assms(1)] unfolding committed_def carries_def by auto
  qed (simp add: committed_def)
  then show "committed h' ids s' (terms s' j) (logs s' j) c" "c \<noteq> 0 \<Longrightarrow> take (Suc c) (logs s' j) = take (Suc c) (logs s j)" by blast+
qed

lemma committed_down: "committed h ids s T L c \<Longrightarrow> c' \<le> c \<Longrightarrow> committed h ids s T L c'"
  unfolding committed_def using carries_down by (metis le_zero_eq order_trans)

lemma committed_leader:
  assumes "safe_inv h ids s" "committed h ids s T L c" "T \<le> T'" "h T' \<noteq> []"
  shows "c = 0 \<or> c < length L \<and> c < length (h T') \<and> take (Suc c) L = take (Suc c) (h T')"
  using assms(2) accept_carries [OF assms(1) _ _ _ assms(4)] assms(3) unfolding committed_def carries_def by (meson order_trans)

lemma committed_agree:
  assumes "safe_inv h ids s" "committed h ids s T L c" "committed h ids s T' L' c" "c \<noteq> 0"
  shows "take (Suc c) L = take (Suc c) L'"
proof -
  obtain t m t' m' where c: "chosen h ids s t m" "c \<le> m" "carries h t c L" "chosen h ids s t' m'" "c \<le> m'" "carries h t' c L'"
    using assms(2-4) by (auto simp: committed_def)
  have ne: "h t \<noteq> []" "h t' \<noteq> []" using c(1,4) by (auto simp: chosen_def)
  have "take (Suc c) (h t) = take (Suc c) (h t')"
  proof (cases "t \<le> t'")
    case True
    then show ?thesis using accept_carries(1) [OF assms(1) c(1,2) True ne(2) c(3)] by (simp add: carries_def)
  next
    case False
    then have "t' \<le> t" by simp
    then show ?thesis using accept_carries(1) [OF assms(1) c(4,5) _ ne(1) c(6)] by (simp add: carries_def)
  qed
  then show ?thesis using c(3,6) by (simp add: carries_def)
qed

section \<open>The invariant of commitment\<close>

text \<open>What the rejection of a request with previous entry \<open>x\<close> says of the follower's log.\<close>

definition conflict_ok :: "history \<Rightarrow> u64 \<Rightarrow> nat \<Rightarrow> AppendEntriesResponse \<Rightarrow> LogEntry list \<Rightarrow> bool" where
  "conflict_ok h t x resp L \<longleftrightarrow> prefix L (h t) \<or>
     (if ar_conflictTerm resp = 0 then length L \<le> unat (ar_conflictIndex resp)
      else ar_conflictTerm resp < t \<and> x < length L \<and> le_term (L ! x) = ar_conflictTerm resp \<and>
        le_term (h t ! x) \<noteq> ar_conflictTerm resp \<and> le_term (L ! unat (ar_conflictIndex resp)) = ar_conflictTerm resp)"

definition request_safe :: "history \<Rightarrow> string list \<Rightarrow> cluster \<Rightarrow> string \<Rightarrow> AppendEntriesRequest \<Rightarrow> bool" where
  "request_safe h ids s p req \<longleftrightarrow>
     (let t = ae_term req; x = unat (ae_prevLogIndex req) in
      p \<in> set ids \<and> safe_at h s p t x \<and> ae_prevLogTerm req = le_term (h t ! x) \<and>
      (ae_entries req = [] \<longrightarrow> le_term (h t ! x) = t) \<and> committed h ids s t (h t) (unat (ae_leaderCommit req)))"

definition response_safe :: "history \<Rightarrow> cluster \<Rightarrow> string \<Rightarrow> AppendEntriesRequest \<Rightarrow> AppendEntriesResponse \<Rightarrow> bool" where
  "response_safe h s p req resp \<longleftrightarrow>
     (let t = ae_term req; x = unat (ae_prevLogIndex req) in
      if ar_success resp then t \<le> terms s p \<and> (terms s p = t \<longrightarrow> prefix (logs s p) (h t))
      else ar_term resp = t \<longrightarrow> t \<le> terms s p \<and> ar_conflictIndex resp \<noteq> 0 \<and> unat (ar_conflictIndex resp) \<le> x \<and>
        (terms s p = t \<longrightarrow> conflict_ok h t x resp (logs s p)))"

definition progress_ok :: "history \<Rightarrow> cluster \<Rightarrow> RaftNode \<Rightarrow> bool" where
  "progress_ok h s n \<longleftrightarrow>
     (\<forall>p v. map_of (nextIndex n) p = Some v \<longrightarrow> v \<noteq> 0 \<and> safe_at h s p (currentTerm n) (unat v - 1)) \<and>
     (\<forall>p v. (p, v) \<in> set (matchIndex n) \<longrightarrow> v = 0 \<or> (\<exists>m \<ge> unat v. (p, currentTerm n, m) \<in> acks (msgs s)))"

definition peers_ok :: "string list \<Rightarrow> string \<Rightarrow> RaftNode \<Rightarrow> bool" where
  "peers_ok ids i n \<longleftrightarrow> distinct (map fst (matchIndex n)) \<and> fst ` set (matchIndex n) \<subseteq> set ids - {i} \<and>
     fst ` set (nextIndex n) \<subseteq> set ids - {i}"

definition node_safe :: "history \<Rightarrow> string list \<Rightarrow> cluster \<Rightarrow> string \<Rightarrow> bool" where
  "node_safe h ids s i \<longleftrightarrow> peers_ok ids i (nodes s i) \<and> (role (nodes s i) = Leader \<longrightarrow> progress_ok h s (nodes s i)) \<and>
     committed h ids s (terms s i) (logs s i) (unat (commitIndex (nodes s i)))"

definition own_last :: "history \<Rightarrow> cluster \<Rightarrow> bool" where
  "own_last h s \<longleftrightarrow> (\<forall>t l. (t, l) \<in> elected s \<longrightarrow> h t \<noteq> [] \<and> le_term (last (h t)) = t)"

definition commit_inv :: "history \<Rightarrow> string list \<Rightarrow> cluster \<Rightarrow> bool" where
  "commit_inv h ids s \<longleftrightarrow> own_last h s \<and> (\<forall>i \<in> set ids. node_safe h ids s i) \<and>
     (\<forall>l p req. AppReq l p req \<in> msgs s \<longrightarrow> request_safe h ids s p req) \<and>
     (\<forall>l p req resp. AppResp p l req resp \<in> msgs s \<longrightarrow> AppReq l p req \<in> msgs s \<and> response_safe h s p req resp)"

lemma own_last_kept:
  assumes "protocol ids h s h' s'" "own_last h s" shows "own_last h' s'"
  unfolding own_last_def
proof (intro allI impI)
  fix t l assume t: "(t, l) \<in> elected s'"
  show "h' t \<noteq> [] \<and> le_term (last (h' t)) = t"
  proof (cases "(t, l) \<in> elected s")
    case True
    then have "h t \<noteq> [] \<and> le_term (last (h t)) = t" using assms(2) unfolding own_last_def by blast
    then show ?thesis using history_grows [OF assms(1) True] by auto
  next
    case False
    from assms(1) show ?thesis
    proof cases
      case (lead i e)
      then have "t = le_term e" using False t unfolding lead(11) by blast
      then show ?thesis unfolding lead(1) by simp
    qed (use False t in simp_all)
  qed
qed

lemma extends_nth: "extends h h' \<Longrightarrow> x < length (h t) \<Longrightarrow> h' t ! x = h t ! x"
proof -
  assume a: "extends h h'" "x < length (h t)"
  then obtain ys where "h' t = h t @ ys" unfolding extends_def by blast
  then show "h' t ! x = h t ! x" using a(2) by (simp add: nth_append)
qed

lemma request_safe_kept:
  assumes "protocol ids h s h' s'" "one_leader s'" "safe_inv h' ids s'" "(ae_term req, l) \<in> elected s" "p \<noteq> l" "request_safe h ids s p req"
  shows "request_safe h' ids s' p req"
proof -
  let ?t = "ae_term req" and ?x = "unat (ae_prevLogIndex req)"
  have r: "p \<in> set ids" "safe_at h s p ?t ?x" "ae_prevLogTerm req = le_term (h ?t ! ?x)" "ae_entries req = [] \<longrightarrow> le_term (h ?t ! ?x) = ?t"
      "committed h ids s ?t (h ?t) (unat (ae_leaderCommit req))"
    using assms(6) by (simp_all add: request_safe_def Let_def)
  have "h' ?t ! ?x = h ?t ! ?x" using r(2) by (intro extends_nth [OF protocol_extends [OF assms(1)]]) (simp add: safe_at_def)
  then show ?thesis
    using r safe_at_kept [OF assms(1,2,4,5,3) r(1,2)] committed_request [OF assms(1) r(5)] by (simp add: request_safe_def Let_def)
qed

lemma conflict_kept:
  assumes "protocol ids h s h' s'" "one_leader s'" "(t, l) \<in> elected s" "p \<noteq> l" "terms s p = t" "terms s' p = t" "x < length (h t)"
    "conflict_ok h t x resp (logs s p)"
  shows "conflict_ok h' t x resp (logs s' p)"
proof (cases "prefix (logs s p) (h t) \<or> logs s' p \<noteq> logs s p")
  case True
  then have "prefix (logs s' p) (h t) \<or> prefix (logs s' p) (h' t)"
    using follower_log [OF assms(1-6)] prefix_kept [OF assms(1-6)] by blast
  then show ?thesis using protocol_extends [OF assms(1)] unfolding conflict_ok_def extends_def by (metis prefix_prefix)
next
  case False
  then show ?thesis using assms(8) extends_nth [OF protocol_extends [OF assms(1)] assms(7)] by (auto simp: conflict_ok_def)
qed

lemma response_safe_kept:
  assumes "protocol ids h s h' s'" "one_leader s'" "(ae_term req, l) \<in> elected s" "p \<noteq> l" "request_safe h ids s p req"
    "response_safe h s p req resp"
  shows "response_safe h' s' p req resp"
proof -
  let ?t = "ae_term req" and ?x = "unat (ae_prevLogIndex req)"
  have x: "?x < length (h ?t)" using assms(5) by (simp add: request_safe_def safe_at_def Let_def)
  note m = protocol_mono [OF assms(1), of p]
  show ?thesis
  proof (cases "ar_success resp")
    case True
    then have "?t \<le> terms s p" "terms s p = ?t \<longrightarrow> prefix (logs s p) (h ?t)" using assms(6) by (simp_all add: response_safe_def Let_def)
    then show ?thesis using True m prefix_kept [OF assms(1-4)] by (auto simp: response_safe_def Let_def)
  next
    case False
    show ?thesis
    proof (cases "ar_term resp = ?t")
      case True
      then have "?t \<le> terms s p" "ar_conflictIndex resp \<noteq> 0" "unat (ar_conflictIndex resp) \<le> ?x"
          "terms s p = ?t \<longrightarrow> conflict_ok h ?t ?x resp (logs s p)"
        using assms(6) False by (simp_all add: response_safe_def Let_def)
      then show ?thesis using True False m conflict_kept [OF assms(1-4) _ _ x] by (auto simp: response_safe_def Let_def)
    qed (use False in \<open>simp add: response_safe_def Let_def\<close>)
  qed
qed

definition fields_kept :: "RaftNode \<Rightarrow> RaftNode \<Rightarrow> bool" where
  "fields_kept n n' \<longleftrightarrow> nextIndex n' = nextIndex n \<and> matchIndex n' = matchIndex n \<and> commitIndex n' = commitIndex n \<and>
     (role n' = Leader \<longrightarrow> role n = Leader \<and> currentTerm n' = currentTerm n)"

lemma progress_kept:
  assumes "protocol ids h s h' s'" "one_leader s'" "safe_inv h' ids s'" "(currentTerm n, i) \<in> elected s" "peers_ok ids i n" "progress_ok h s n"
    "nextIndex n' = nextIndex n" "matchIndex n' = matchIndex n" "currentTerm n' = currentTerm n"
  shows "progress_ok h' s' n'"
  unfolding progress_ok_def assms(7-9)
proof (intro conjI allI impI)
  fix p v assume v: "map_of (nextIndex n) p = Some v"
  then have p: "p \<noteq> i" "p \<in> set ids" using assms(5) map_of_SomeD [OF v] unfolding peers_ok_def by force+
  show "v \<noteq> 0" "safe_at h' s' p (currentTerm n) (unat v - 1)"
    using assms(6) v safe_at_kept [OF assms(1,2,4) p(1) assms(3) p(2)] by (auto simp: progress_ok_def)
next
  fix p v assume "(p, v) \<in> set (matchIndex n)"
  then show "v = 0 \<or> (\<exists>m \<ge> unat v. (p, currentTerm n, m) \<in> acks (msgs s'))"
    using assms(6) acks_mono [OF assms(1)] unfolding progress_ok_def by blast
qed

lemma node_safe_kept:
  assumes "protocol ids h s h' s'" "one_leader s'" "safe_inv h ids s" "safe_inv h' ids s'"
    "role (nodes s i) = Leader \<Longrightarrow> (terms s i, i) \<in> elected s" "node_safe h ids s i" "fields_kept (nodes s i) (nodes s' i)"
  shows "node_safe h' ids s' i"
proof -
  have f: "nextIndex (nodes s' i) = nextIndex (nodes s i)" "matchIndex (nodes s' i) = matchIndex (nodes s i)"
    "commitIndex (nodes s' i) = commitIndex (nodes s i)" using assms(7) by (simp_all add: fields_kept_def)
  have n: "peers_ok ids i (nodes s i)" "committed h ids s (terms s i) (logs s i) (unat (commitIndex (nodes s i)))"
    "role (nodes s i) = Leader \<longrightarrow> progress_ok h s (nodes s i)" using assms(6) by (simp_all add: node_safe_def)
  have "progress_ok h' s' (nodes s' i)" if "role (nodes s' i) = Leader"
    using assms(5,7) n(3) progress_kept [OF assms(1,2,4) _ n(1) _ f(1,2)] that by (simp add: fields_kept_def)
  then show ?thesis using n(1) committed_node(1) [OF assms(1,3) n(2)] by (simp add: node_safe_def peers_ok_def f)
qed

lemma commit_inv_step:
  assumes "protocol ids h s h' s'" "one_leader s'" "safe_inv h ids s" "safe_inv h' ids s'" "commit_inv h ids s" "msgs s \<subseteq> msgs s'"
    "\<And>i. i \<in> set ids \<Longrightarrow> role (nodes s i) = Leader \<Longrightarrow> (terms s i, i) \<in> elected s"
    "\<And>i. i \<in> set ids \<Longrightarrow> fields_kept (nodes s i) (nodes s' i) \<or> node_safe h' ids s' i"
    "\<And>l p req. AppReq l p req \<in> msgs s' \<Longrightarrow> AppReq l p req \<in> msgs s \<or> request_safe h' ids s' p req"
    "\<And>l p req resp. AppResp p l req resp \<in> msgs s' \<Longrightarrow> AppResp p l req resp \<in> msgs s \<or> AppReq l p req \<in> msgs s \<and> response_safe h' s' p req resp"
  shows "commit_inv h' ids s'"
proof -
  have i: "own_last h s" "\<And>i. i \<in> set ids \<Longrightarrow> node_safe h ids s i" "\<And>l p req. AppReq l p req \<in> msgs s \<Longrightarrow> request_safe h ids s p req"
      "\<And>l p req resp. AppResp p l req resp \<in> msgs s \<Longrightarrow> AppReq l p req \<in> msgs s \<and> response_safe h s p req resp"
    using assms(5) unfolding commit_inv_def by blast+
  have r: "(ae_term req, l) \<in> elected s" "p \<noteq> l" if "AppReq l p req \<in> msgs s" for l p req
    using assms(3) that by (auto simp: safe_inv_def log_inv_def requests_ok_def)
  have "node_safe h' ids s' j" if "j \<in> set ids" for j
    using assms(8) [OF that] node_safe_kept [OF assms(1-4) assms(7) [OF that] i(2) [OF that]] by blast
  moreover have "request_safe h' ids s' p req" if "AppReq l p req \<in> msgs s'" for l p req
    using assms(9) [OF that] request_safe_kept [OF assms(1,2,4) r(1,2) i(3)] by blast
  moreover have "AppReq l p req \<in> msgs s' \<and> response_safe h' s' p req resp" if "AppResp p l req resp \<in> msgs s'" for l p req resp
    using assms(10) [OF that] i(4) response_safe_kept [OF assms(1,2) r(1,2) i(3)] assms(6) by blast
  ultimately show ?thesis using own_last_kept [OF assms(1) i(1)] unfolding commit_inv_def by blast
qed

end
