(* ===== verification/Replication.thy ===== *)
theory Replication
  imports Commitment
begin

text \<open>
  What the operations of replication do to the invariant of \<open>Commitment\<close>: which operations keep
  the indices of a node, what a rejection says of the follower's log, what an accepted request
  makes of it, and what a leader learns from an answer.
\<close>

section \<open>Operations that keep the indices\<close>

definition indices_kept :: "RaftNode \<Rightarrow> RaftNode \<Rightarrow> bool" where
  "indices_kept n n' \<longleftrightarrow> nextIndex n' = nextIndex n \<and> matchIndex n' = matchIndex n \<and> commitIndex n' = commitIndex n"

lemma fields_keptI: "indices_kept n n' \<Longrightarrow> role_kept n n' \<Longrightarrow> fields_kept n n'"
  by (auto simp: indices_kept_def fields_kept_def role_kept_def)

lemma fields_kept_refl: "fields_kept n n"
  by (simp add: fields_kept_def)

lemma Persist_indices: "PersistHardState J n = Some n' \<Longrightarrow> indices_kept n n'"
  by (erule Persist_frame) (simp add: indices_kept_def)

lemma BecomeFollower_indices: "BecomeFollower J now t lead n = Some n' \<Longrightarrow> indices_kept n n'"
  using Persist_indices [of J "follower_state t lead n"]
  by (force simp: BecomeFollower_def indices_kept_def follower_state_def ResetElectionTimer_def split: bind_splits)

lemma step_up_indices: "step_up J now t lead n = Some n' \<Longrightarrow> indices_kept n n'"
  by (auto simp: step_up_def intro: BecomeFollower_indices split: if_splits) (simp add: indices_kept_def)

lemma StartElection_begin_indices:
  assumes "StartElection_begin J now n = Some (n', req)" shows "indices_kept n n'"
proof -
  obtain n1 where "PersistHardState J (n\<lparr>currentTerm := currentTerm n + 1, votedFor := nodeId n, role := Candidate\<rparr>) = Some n1"
      "n' = n1\<lparr>lastHeartbeat := now\<rparr>"
    using assms by (auto simp: StartElection_begin_def Let_def split: bind_splits)
  then show ?thesis using Persist_indices by (fastforce simp: indices_kept_def)
qed

lemma StartElection_response_indices:
  "StartElection_response J now t resp n votes = (n', votes', stop) \<Longrightarrow> indices_kept n n'"
  by (auto simp: StartElection_response_def intro: BecomeFollower_indices split: if_splits option.splits)
    (simp_all add: indices_kept_def follower_state_def)

lemma HandleRequestVote_indices:
  assumes "HandleRequestVote J now req n = Some (n', resp)" shows "indices_kept n n'"
proof (cases "rv_term req < currentTerm n")
  case True
  then show ?thesis using assms by (simp add: HandleRequestVote_def indices_kept_def)
next
  case False
  then obtain n1 where n1: "step_up J now (rv_term req) [] n = Some n1"
    "n' = n1 \<or> PersistHardState J (ResetElectionTimer now (n1\<lparr>votedFor := rv_candidateId req\<rparr>)) = Some n'"
    using assms by (auto simp: HandleRequestVote_def Let_def split: bind_splits if_splits)
  then show ?thesis
    using step_up_indices [OF n1(1)] Persist_indices [of J "ResetElectionTimer now (n1\<lparr>votedFor := rv_candidateId req\<rparr>)" n']
    by (auto simp: indices_kept_def ResetElectionTimer_def)
qed

lemma ApplyLoop_inner_indices: "indices_kept n (ApplyLoop_inner clock n)"
proof (induction clock n rule: ApplyLoop_inner.induct)
  case (1 clock n)
  show ?case
    using 1 by (subst ApplyLoop_inner.simps) (auto simp: indices_kept_def Let_def split: sum.splits)
qed

lemma ApplyLoop_turn_indices:
  assumes "ApplyLoop_turn J clock now n = Some n'" "RaftLog_Size (rlog n) \<le> cf_snapshotThreshold (config n)"
  shows "indices_kept n n'"
proof -
  have "n' = ApplyLoop_inner clock n" using assms ApplyLoop_inner_frame [of clock n] by (simp add: ApplyLoop_turn_def MaybeSnapshot_def)
  then show ?thesis using ApplyLoop_inner_indices by simp
qed

lemma Propose_begin_indices:
  "Propose_begin J key v opt ttl n = Some (n', r) \<Longrightarrow> indices_kept n n'"
  by (auto simp: Propose_begin_def indices_kept_def split: if_splits bind_splits)

section \<open>Rejections\<close>

lemma node_get:
  assumes "node_ok h n"
  shows "i \<le> LastIndex (rlog n) \<longleftrightarrow> unat i < length (entries (rlog n))"
    "GetTerm i (rlog n) = (if unat i < length (entries (rlog n)) then le_term (entries (rlog n) ! unat i) else 0)"
    "GetEntry i (rlog n) = (if unat i < length (entries (rlog n)) then Inr (entries (rlog n) ! unat i) else Inl OutOfRange)"
    "unat (LastIndex (rlog n)) = length (entries (rlog n)) - 1" "entries (rlog n) \<noteq> []" "le_term (entries (rlog n) ! 0) = 0"
proof -
  have n: "log_wf (rlog n)" "snapshotIndex (rlog n) = 0" "matches h (entries (rlog n))" using assms by (simp_all add: node_ok_def)
  show i: "i \<le> LastIndex (rlog n) \<longleftrightarrow> unat i < length (entries (rlog n))" for i
    using Offset_in_range [OF n(1), of i] n(2) by (simp add: Offset_def)
  show "GetTerm i (rlog n) = (if unat i < length (entries (rlog n)) then le_term (entries (rlog n) ! unat i) else 0)"
    using GetTerm_wf [OF n(1), of i] n(2) i [of i] by (simp add: Offset_def)
  show "GetEntry i (rlog n) = (if unat i < length (entries (rlog n)) then Inr (entries (rlog n) ! unat i) else Inl OutOfRange)"
    using n(2) by (simp add: GetEntry_def Offset_def)
  show "unat (LastIndex (rlog n)) = length (entries (rlog n)) - 1" using LastIndex_wf(2) [OF n(1)] n(2) by simp
  show "entries (rlog n) \<noteq> []" "le_term (entries (rlog n) ! 0) = 0"
    using n(3) by (auto simp: matches_def sentinel_def LogEntry_default_def hd_conv_nth)
qed

lemma conflict_loop_spec:
  assumes "node_ok h n" "ct \<noteq> 0" "unat ci < length (entries (rlog n))" "le_term (entries (rlog n) ! unat ci) = ct"
  shows "conflict_loop (rlog n) ct ci \<noteq> 0 \<and> unat (conflict_loop (rlog n) ct ci) \<le> unat ci \<and>
    le_term (entries (rlog n) ! unat (conflict_loop (rlog n) ct ci)) = ct"
  using assms
proof (induction "rlog n" ct ci rule: conflict_loop.induct)
  case (1 ct ci)
  note g = node_get [OF 1(2)]
  have s: "snapshotIndex (rlog n) = 0" using 1(2) by (simp add: node_ok_def)
  show ?case
  proof (cases "0 < ci \<and> GetTerm (ci - 1) (rlog n) = ct")
    case True
    then have "ci \<noteq> 0" by auto
    then have u: "unat (ci - 1) = unat ci - 1" "0 < unat ci" by (simp_all add: unat_minus_one unat_gt_0)
    then have l: "unat (ci - 1) < length (entries (rlog n))" using 1(4) by simp
    then have "le_term (entries (rlog n) ! unat (ci - 1)) = ct" using True g(2) [of "ci - 1"] by (simp only: if_True)
    then show ?thesis using 1(1) [OF _ 1(2,3) l] True s u by (subst (1 2 3) conflict_loop.simps) auto
  next
    case False
    moreover have "ci \<noteq> 0" using g(6) 1(3,5) by auto
    ultimately show ?thesis using s 1(5) by (subst (1 2 3) conflict_loop.simps) auto
  qed
qed

lemma last_in_term_spec:
  assumes "node_ok h n" "unat i < length (entries (rlog n))"
  shows "unat (last_in_term (rlog n) t i) \<le> unat i \<and>
    (last_in_term (rlog n) t i \<noteq> 0 \<longrightarrow> le_term (entries (rlog n) ! unat (last_in_term (rlog n) t i)) = t) \<and>
    (\<forall>k. unat (last_in_term (rlog n) t i) < k \<and> k \<le> unat i \<longrightarrow> le_term (entries (rlog n) ! k) \<noteq> t)"
  using assms
proof (induction "rlog n" t i rule: last_in_term.induct)
  case (1 t i)
  have s: "snapshotIndex (rlog n) = 0" using 1(2) by (simp add: node_ok_def)
  have g: "GetTerm i (rlog n) = le_term (entries (rlog n) ! unat i)" using node_get(2) [OF 1(2), of i] 1(3) by simp
  show ?case
  proof (cases "0 < i \<and> GetTerm i (rlog n) \<noteq> t")
    case True
    then have "i \<noteq> 0" by auto
    then have u: "unat i = Suc (unat (i - 1))" by (simp add: unat_minus_one unat_gt_0)
    have eq: "last_in_term (rlog n) t i = last_in_term (rlog n) t (i - 1)" using True s by (subst last_in_term.simps) simp
    have IH: "unat (last_in_term (rlog n) t (i - 1)) \<le> unat (i - 1) \<and>
      (last_in_term (rlog n) t (i - 1) \<noteq> 0 \<longrightarrow> le_term (entries (rlog n) ! unat (last_in_term (rlog n) t (i - 1))) = t) \<and>
      (\<forall>k. unat (last_in_term (rlog n) t (i - 1)) < k \<and> k \<le> unat (i - 1) \<longrightarrow> le_term (entries (rlog n) ! k) \<noteq> t)"
      using 1(1) [OF _ _ 1(2)] 1(3) True s u by simp
    moreover have "le_term (entries (rlog n) ! k) \<noteq> t" if "unat (last_in_term (rlog n) t (i - 1)) < k" "k \<le> unat i" for k
      using IH that True g u by (cases "k = unat i") auto
    ultimately show ?thesis unfolding eq u by auto
  next
    case False
    then have "i = 0 \<or> i \<noteq> 0 \<and> GetTerm i (rlog n) = t" by (auto simp: word_gt_0)
    then show ?thesis using s g by (subst (1 2 3 4) last_in_term.simps) (auto simp: word_gt_0)
  qed
qed

lemma HandleAppendEntries_reject:
  assumes "HandleAppendEntries J now req n = Some (n', resp)" "\<not> ar_success resp" "ar_term resp = ae_term req"
  shows "currentTerm n = ae_term req"
    "LastIndex (rlog n) < ae_prevLogIndex req \<and> ar_conflictTerm resp = 0 \<and> ar_conflictIndex resp = LastIndex (rlog n) + 1 \<or>
     0 < ae_prevLogIndex req \<and> ae_prevLogIndex req \<le> LastIndex (rlog n) \<and> GetTerm (ae_prevLogIndex req) (rlog n) \<noteq> ae_prevLogTerm req \<and>
     ar_conflictTerm resp = GetTerm (ae_prevLogIndex req) (rlog n) \<and>
     ar_conflictIndex resp = conflict_loop (rlog n) (GetTerm (ae_prevLogIndex req) (rlog n)) (ae_prevLogIndex req)"
proof -
  have t: "ar_term resp = currentTerm n" using assms(1,2)
    by (auto simp: HandleAppendEntries_def AppendEntriesResponse_new_def Let_def split: if_splits bind_splits)
  then show c: "currentTerm n = ae_term req" using assms(3) by simp
  then have up: "step_up J now (ae_term req) (ae_leaderId req) n = Some n" by (simp add: step_up_def)
  show "LastIndex (rlog n) < ae_prevLogIndex req \<and> ar_conflictTerm resp = 0 \<and> ar_conflictIndex resp = LastIndex (rlog n) + 1 \<or>
     0 < ae_prevLogIndex req \<and> ae_prevLogIndex req \<le> LastIndex (rlog n) \<and> GetTerm (ae_prevLogIndex req) (rlog n) \<noteq> ae_prevLogTerm req \<and>
     ar_conflictTerm resp = GetTerm (ae_prevLogIndex req) (rlog n) \<and>
     ar_conflictIndex resp = conflict_loop (rlog n) (GetTerm (ae_prevLogIndex req) (rlog n)) (ae_prevLogIndex req)"
    using assms(1,2) c HandleAppendEntries_eq [OF _ up] by (auto simp: Let_def not_less split: if_splits bind_splits)
qed

section \<open>The follower\<close>

lemma accept_prefix:
  assumes "safe_inv h ids s" "p \<in> set ids" "terms s p \<le> t" "safe_at h s p t x"
    "x + n < length (h t)" "take (Suc (x + n)) (logs s p) = take (Suc (x + n)) (h t)" "n = 0 \<longrightarrow> le_term (h t ! x) = t"
  shows "prefix (logs s p) (h t)"
proof -
  let ?L = "logs s p"
  note l = node_log [OF assms(1,2)]
  have le: "\<forall>e \<in> set ?L. le_term e \<le> t" using l(2) assms(3) by auto
  have len: "x + n < length ?L" using take_longer [OF assms(6,5)] .
  have same: "?L ! k = h t ! k" if "k \<le> x + n" for k
    using arg_cong [OF assms(6), of "\<lambda>l. l ! k"] that by simp
  note own = own_term_prefix [OF l(1,3) le]
  show ?thesis
  proof (cases "n = 0")
    case True
    then show ?thesis using own [of x] same [of x] len assms(7) by simp
  next
    case False
    then have k: "Suc x \<le> x + n" "Suc x < length ?L" "Suc x < length (h t)" using len assms(5) by simp_all
    show ?thesis
    proof (cases "fresh h t x")
      case True
      then have "le_term (?L ! Suc x) = t" using same [OF k(1)] k(3) by (simp add: fresh_def)
      then show ?thesis by (rule own [OF k(2)])
    next
      case False
      then have "terms s p = t" "terms s p = t \<longrightarrow> ready h t x ?L" using assms(3,4) unfolding safe_at_def by auto
      then have "ready h t x ?L" by blast
      moreover have "carries h t (x + n) ?L" using len assms(6) by (simp add: carries_def)
      then have "carries h t (Suc x) ?L" by (rule carries_down [OF _ k(1)])
      ultimately show ?thesis by (simp add: ready_def)
    qed
  qed
qed

lemma committed_prefix:
  assumes "committed h ids s t (h t) lc" "prefix L (h t)" "c < length L" "c \<le> lc"
  shows "committed h ids s t L c"
proof (cases "c = 0")
  case False
  then have "lc \<noteq> 0" using assms(4) by simp
  then obtain t0 m where c: "t0 \<le> t" "chosen h ids s t0 m" "lc \<le> m" "carries h t0 lc (h t)"
    using assms(1) by (auto simp: committed_def)
  obtain ys where "h t = L @ ys" using assms(2) by (auto simp: prefix_def)
  then have "take (Suc c) L = take (Suc c) (h t)" using assms(3) by simp
  then have "carries h t0 c L" using carries_down [OF c(4) assms(4)] carries_trans [of h t0 c "h t" L] by simp
  then show ?thesis using c(1-3) assms(4) unfolding committed_def by (meson order_trans)
qed (simp add: committed_def)

lemma reject_conflict:
  assumes "safe_inv h ids s" "p \<in> set ids" "request_safe h ids s p req" "length (logs s p) < 2 ^ 63"
    "HandleAppendEntries J now req (nodes s p) = Some (n', resp)" "\<not> ar_success resp" "ar_term resp = ae_term req"
  defines "x \<equiv> unat (ae_prevLogIndex req)"
  shows "ar_conflictIndex resp \<noteq> 0" "unat (ar_conflictIndex resp) \<le> x" "conflict_ok h (ae_term req) x resp (logs s p)"
proof -
  let ?n = "nodes s p" and ?L = "logs s p" and ?t = "ae_term req"
  have nk: "node_ok h ?n" "hist_ok h (elected s)" using assms(1,2) by (simp_all add: safe_inv_def log_inv_def)
  note l = node_log [OF assms(1,2)] and g = node_get [OF nk(1)]
  note r = HandleAppendEntries_reject [OF assms(5-7)]
  have pt: "ae_prevLogTerm req = le_term (h ?t ! x)" using assms(3) by (simp add: request_safe_def Let_def x_def)
  have "ar_conflictIndex resp \<noteq> 0 \<and> unat (ar_conflictIndex resp) \<le> x \<and> conflict_ok h ?t x resp ?L" using r(2)
  proof
    assume a: "LastIndex (rlog ?n) < ae_prevLogIndex req \<and> ar_conflictTerm resp = 0 \<and> ar_conflictIndex resp = LastIndex (rlog ?n) + 1"
    have "unat (LastIndex (rlog ?n) + 1) = Suc (unat (LastIndex (rlog ?n)))" using a unat_next by blast
    then have "unat (ar_conflictIndex resp) = length ?L" using a g(4,5) by simp
    moreover have "length ?L - 1 < x" using a g(4) by (simp add: word_less_nat_alt x_def)
    moreover have "0 < length ?L" using g(5) by simp
    ultimately show ?thesis using a by (auto simp: conflict_ok_def)
  next
    assume a: "0 < ae_prevLogIndex req \<and> ae_prevLogIndex req \<le> LastIndex (rlog ?n) \<and> GetTerm (ae_prevLogIndex req) (rlog ?n) \<noteq> ae_prevLogTerm req \<and>
      ar_conflictTerm resp = GetTerm (ae_prevLogIndex req) (rlog ?n) \<and>
      ar_conflictIndex resp = conflict_loop (rlog ?n) (GetTerm (ae_prevLogIndex req) (rlog ?n)) (ae_prevLogIndex req)"
    have x: "x < length ?L" using a g(1) by (simp add: x_def)
    then have ct: "GetTerm (ae_prevLogIndex req) (rlog ?n) = le_term (?L ! x)" using g(2) [of "ae_prevLogIndex req"] by (simp add: x_def)
    have "0 < ae_prevLogIndex req" using a by blast
    then have "x \<noteq> 0" unfolding x_def word_less_nat_alt by simp
    then have nz: "le_term (?L ! x) \<noteq> 0" using term_zero [OF l(1) _ x] nk(2) by (auto simp: hist_ok_def)
    note cl = conflict_loop_spec [OF nk(1) nz, of "ae_prevLogIndex req", folded x_def, OF x refl]
    have "prefix ?L (h ?t) \<or> le_term (?L ! x) < ?t"
      using own_term_prefix [OF l(1,3) _ x, of ?t] l(2) x r(1) by (cases "le_term (?L ! x) = ?t") (auto simp: order_less_le)
    then show ?thesis using a cl ct nz x pt by (auto simp: conflict_ok_def)
  qed
  then show "ar_conflictIndex resp \<noteq> 0" "unat (ar_conflictIndex resp) \<le> x" "conflict_ok h ?t x resp ?L" by blast+
qed

section \<open>The leader\<close>

lemma committable_chosen:
  assumes "node_ok h n" "entries (rlog n) = h (currentTerm n)" "(currentTerm n, i) \<in> elected s" "peers_ok ids i n" "progress_ok h s n"
    "QuorumSize n = length ids div 2 + 1" "i \<in> set ids" "c \<le> LastIndex (rlog n)" "committable n c" "c \<noteq> 0"
  shows "chosen h ids s (currentTerm n) (unat c)"
proof -
  let ?t = "currentTerm n" and ?F = "filter (\<lambda>(_, match). c \<le> match) (matchIndex n)"
  let ?A = "insert i (fst ` set ?F)"
  note g = node_get(1,2) [OF assms(1), of c]
  have c: "unat c < length (h ?t)" "le_term (h ?t ! unat c) = ?t" using assms(2,8,9) g by (auto simp: committable_def)
  have d: "distinct (map fst (matchIndex n))" "fst ` set (matchIndex n) \<subseteq> set ids - {i}" using assms(4) by (simp_all add: peers_ok_def)
  have "distinct (map fst ?F)" using d(1) by (rule distinct_map_filter)
  then have "card (fst ` set ?F) = length ?F" using distinct_card [of "map fst ?F"] by simp
  moreover have "i \<notin> fst ` set ?F" using d(2) by auto
  ultimately have "card ?A = Suc (length ?F)" by simp
  then have "length ids div 2 + 1 \<le> card ?A" using assms(6,9) by (simp add: committable_def)
  then have "majority ids ?A" using d(2) assms(7) by (auto simp: majority_def)
  moreover have "acked h s j ?t (unat c)" if "j \<in> ?A" for j
  proof (cases "j = i")
    case False
    then have "j \<in> fst ` set ?F" using that by blast
    then obtain v where v: "(j, v) \<in> set (matchIndex n)" "c \<le> v" by auto
    have "v \<noteq> 0" using v(2) assms(10) by auto
    then obtain m where "unat v \<le> m" "(j, ?t, m) \<in> acks (msgs s)" using assms(5) v(1) unfolding progress_ok_def by blast
    then show ?thesis using v(2) c(1) unfolding acked_def by (meson order_trans word_le_nat_alt)
  qed (use assms(3) c(1) in \<open>simp add: acked_def\<close>)
  ultimately show ?thesis using c by (auto simp: chosen_def)
qed

text \<open>Where the leader continues after a rejection.\<close>

definition next_after :: "AppendEntriesResponse \<Rightarrow> RaftNode \<Rightarrow> u64" where
  "next_after resp n =
     (let b = last_in_term (rlog n) (ar_conflictTerm resp) (LastIndex (rlog n))
      in if 0 < ar_conflictTerm resp then if 0 < b then b + 1 else ar_conflictIndex resp
         else if 0 < ar_conflictIndex resp then ar_conflictIndex resp else 1)"

lemma next_after_cases:
  assumes "node_ok h n" "entries (rlog n) = h t" "ar_conflictIndex resp \<noteq> 0" "unat (ar_conflictIndex resp) < length (h t)" "length (h t) < 2 ^ 64"
  obtains (last) b where "0 < ar_conflictTerm resp" "unat (next_after resp n) = Suc b" "b < length (h t)" "le_term (h t ! b) = ar_conflictTerm resp"
      "\<And>k. b < k \<Longrightarrow> k < length (h t) \<Longrightarrow> le_term (h t ! k) \<noteq> ar_conflictTerm resp"
  | (conflict) "next_after resp n = ar_conflictIndex resp"
      "ar_conflictTerm resp = 0 \<or> (\<forall>k. 0 < k \<and> k < length (h t) \<longrightarrow> le_term (h t ! k) \<noteq> ar_conflictTerm resp)"
proof -
  note g = node_get [OF assms(1)]
  define b where "b = last_in_term (rlog n) (ar_conflictTerm resp) (LastIndex (rlog n))"
  have len: "unat (LastIndex (rlog n)) < length (entries (rlog n))" using g(4,5) by simp
  note sp = last_in_term_spec [OF assms(1) len, of "ar_conflictTerm resp", folded b_def]
  have ci: "0 < ar_conflictIndex resp" using assms(3) by (simp add: word_gt_0)
  have up: "le_term (h t ! k) \<noteq> ar_conflictTerm resp" if "unat b < k" "k < length (h t)" for k
  proof -
    have "k \<le> unat (LastIndex (rlog n))" using that(2) assms(2) g(4) by simp
    then show ?thesis using sp that(1) assms(2) by simp
  qed
  show ?thesis
  proof (cases "0 < ar_conflictTerm resp \<and> 0 < b")
    case True
    have b: "unat b < length (h t)" "le_term (h t ! unat b) = ar_conflictTerm resp" using sp len True assms(2) by auto
    have "b \<noteq> - 1"
    proof
      assume "b = - 1"
      then show False using b(1) assms(5) by (simp add: unsigned_minus_1_eq_mask mask_eq_exp_minus_1)
    qed
    then have "unat (b + 1) = Suc (unat b)" using not_max64 [of b] by (simp add: unat_word_ariths)
    moreover have "next_after resp n = b + 1" using True by (simp add: next_after_def b_def)
    ultimately show ?thesis using last [of "unat b"] True b up by simp
  next
    case False
    then have "next_after resp n = ar_conflictIndex resp" using ci by (auto simp: next_after_def b_def [symmetric] Let_def)
    moreover have "ar_conflictTerm resp = 0 \<or> unat b = 0" using False by (auto simp: word_gt_0)
    ultimately show ?thesis using conflict up by auto
  qed
qed

lemma carries_nth: "carries h t m L \<Longrightarrow> k \<le> m \<Longrightarrow> L ! k = h t ! k"
  by (metis carries_def le_imp_less_Suc nth_take)

lemma carries_length: "carries h t m L \<Longrightarrow> m < length (h t)"
  unfolding carries_def using take_longer [of m "h t" L] by simp

lemma reject_ready:
  assumes "safe_inv h ids s" "p \<in> set ids" "node_ok h n" "entries (rlog n) = h t" "conflict_ok h t x resp (logs s p)"
    "ar_conflictIndex resp \<noteq> 0" "unat (ar_conflictIndex resp) \<le> x" "x < length (h t)" "length (h t) < 2 ^ 64"
  shows "ready h t (unat (next_after resp n) - 1) (logs s p)"
proof (cases "prefix (logs s p) (h t)")
  case False
  let ?L = "logs s p" and ?ct = "ar_conflictTerm resp" and ?ci = "ar_conflictIndex resp"
  have sorted: "sorted (map le_term ?L)" "sorted (map le_term (h t))"
    using node_log [OF assms(1,2)] matches_sorted by (auto simp: terms_ok_def)
  have ci: "unat ?ci < length (h t)" "0 < unat ?ci" using assms(6-8) by (simp_all add: unat_gt_0)
  from assms(3,4,6) ci(1) assms(9) have "\<not> carries h t (Suc (unat (next_after resp n) - 1)) ?L"
  proof (cases rule: next_after_cases)
    case (last b)
    have q: "x < length ?L" "le_term (?L ! x) = ?ct" "le_term (h t ! x) \<noteq> ?ct" using assms(5) False last(1) by (auto simp: conflict_ok_def)
    show ?thesis
    proof
      assume c: "carries h t (Suc (unat (next_after resp n) - 1)) ?L"
      then have c: "carries h t (Suc b) ?L" using last(2) by simp
      note hl = carries_length [OF c]
      have "le_term (h t ! b) \<le> le_term (h t ! Suc b)" using sorted_terms [OF sorted(2), of b "Suc b"] hl by simp
      then have "?ct < le_term (?L ! Suc b)" using last(4) last(5) [of "Suc b"] hl carries_nth [OF c, of "Suc b"] by simp
      then have "\<not> Suc b \<le> x" using sorted_terms [OF sorted(1), of "Suc b" x] q(1,2) by auto
      then show False using carries_nth [OF c, of x] q(2,3) by simp
    qed
  next
    case conflict
    show ?thesis
    proof
      assume "carries h t (Suc (unat (next_after resp n) - 1)) ?L"
      then have c: "carries h t (unat ?ci) ?L" using conflict(1) ci by simp
      then have "?ct = 0 \<or> le_term (?L ! unat ?ci) \<noteq> ?ct" using conflict(2) carries_nth [OF c, of "unat ?ci"] ci by auto
      then show False using assms(5) False c by (auto simp: conflict_ok_def carries_def split: if_splits)
    qed
  qed
  then show ?thesis by (simp add: ready_def)
qed (simp add: ready_def)

lemma leader_node:
  assumes "safe_inv h ids s" "i \<in> set ids"
  shows "node_ok h (nodes s i)" "role (nodes s i) = Leader \<Longrightarrow> entries (rlog (nodes s i)) = h (terms s i)"
proof -
  show "node_ok h (nodes s i)" using assms unfolding safe_inv_def log_inv_def by blast
  then show "role (nodes s i) = Leader \<Longrightarrow> entries (rlog (nodes s i)) = h (terms s i)" unfolding node_ok_def by blast
qed

lemma peers_ok_update:
  assumes "peers_ok ids i n" "p \<in> set ids" "p \<noteq> i"
  shows "peers_ok ids i (n\<lparr>matchIndex := AList.update p m (matchIndex n), nextIndex := AList.update p v (nextIndex n)\<rparr>)"
    "peers_ok ids i (n\<lparr>nextIndex := AList.update p v (nextIndex n)\<rparr>)"
  using assms unfolding peers_ok_def by (auto simp: distinct_update dom_update)

lemma progress_next:
  assumes "progress_ok h s n" "v \<noteq> 0" "safe_at h s p (currentTerm n) (unat v - 1)"
  shows "progress_ok h s (n\<lparr>nextIndex := AList.update p v (nextIndex n)\<rparr>)"
  using assms unfolding progress_ok_def by (auto simp: update_conv')

lemma update_set:
  assumes "(q, v) \<in> set (AList.update p m al)" "distinct (map fst al)"
  shows "q = p \<and> v = m \<or> (q, v) \<in> set al"
proof -
  have "map_of (AList.update p m al) q = Some v" using assms by (simp add: distinct_update)
  then have "q = p \<and> v = m \<or> map_of al q = Some v" by (auto simp: update_conv' split: if_splits)
  then show ?thesis using map_of_SomeD by fast
qed

lemma progress_match:
  assumes "progress_ok h s n" "distinct (map fst (matchIndex n))" "m = 0 \<or> (\<exists>k \<ge> unat m. (p, currentTerm n, k) \<in> acks (msgs s))"
  shows "progress_ok h s (n\<lparr>matchIndex := AList.update p m (matchIndex n)\<rparr>)"
proof -
  have "v = 0 \<or> (\<exists>k \<ge> unat v. (q, currentTerm n, k) \<in> acks (msgs s))" if "(q, v) \<in> set (AList.update p m (matchIndex n))" for q v
    using update_set [OF that assms(2)] assms(1,3) unfolding progress_ok_def by blast
  then show ?thesis using assms(1) by (simp add: progress_ok_def)
qed

text \<open>The answer to a request of its own term updates what a leader knows of a follower.\<close>

lemma response_success:
  assumes "safe_inv h ids s" "i \<in> set ids" "p \<in> set ids" "p \<noteq> i" "node_safe h ids s i" "role (nodes s i) = Leader"
    "AppResp p i req resp \<in> msgs s" "ae_term req = terms s i" "ar_success resp" "response_safe h s p req resp" "length (logs s i) < 2 ^ 63"
  defines "n \<equiv> nodes s i" and "m \<equiv> max (um_get (matchIndex (nodes s i)) p) (ae_prevLogIndex req + of_nat (length (ae_entries req)))"
  shows "progress_ok h s (n\<lparr>matchIndex := AList.update p m (matchIndex n), nextIndex := AList.update p (m + 1) (nextIndex n)\<rparr>)"
proof -
  let ?t = "currentTerm n" and ?k = "last_acked req" and ?w = "ae_prevLogIndex req + of_nat (length (ae_entries req))"
  have nk: "h ?t = logs s i" using leader_node(2) [OF assms(1,2,6)] by (simp add: n_def)
  have pr: "progress_ok h s n" "distinct (map fst (matchIndex n))" using assms(5,6) by (simp_all add: node_safe_def peers_ok_def n_def)
  have "(p, ae_term req, ?k) \<in> acks (msgs s)" using assms(7,9) unfolding acks_def by blast
  then have ack: "(p, ?t, ?k) \<in> acks (msgs s)" by (simp add: assms(8) n_def)
  then have k: "?k < length (h ?t)" "?t \<le> terms s p" using assms(1) unfolding safe_inv_def acks_ok_def by blast+
  have k64: "?k < 2 ^ 63" using k(1) nk assms(11) by simp
  have w: "unat ?w = ?k"
  proof -
    have "?w = of_nat ?k" by (simp add: last_acked_def)
    then show ?thesis using k64 by (simp add: unat_of_nat take_bit_nat_eq_self)
  qed
  have old: "um_get (matchIndex n) p = 0 \<or> (\<exists>k' \<ge> unat (um_get (matchIndex n) p). (p, ?t, k') \<in> acks (msgs s))"
  proof (cases "map_of (matchIndex n) p")
    case (Some v)
    then show ?thesis using pr(1) map_of_SomeD [OF Some] by (simp add: progress_ok_def um_get_def)
  qed (simp add: um_get_def)
  have mm: "m = 0 \<or> (\<exists>k' \<ge> unat m. (p, ?t, k') \<in> acks (msgs s))"
    using old ack w unfolding m_def n_def [symmetric] by (cases "um_get (matchIndex n) p \<le> ?w") (auto simp: max_def)
  have mlen: "unat m < length (h ?t)"
  proof (cases "m = 0")
    case True
    then show ?thesis using k(1) by auto
  next
    case False
    then obtain k' where "unat m \<le> k'" "(p, ?t, k') \<in> acks (msgs s)" using mm by blast
    moreover have "k' < length (h ?t)" using assms(1) calculation(2) unfolding safe_inv_def acks_ok_def by blast
    ultimately show ?thesis by simp
  qed
  then have "unat m < 2 ^ 63" using nk assms(11) by simp
  then have m1: "unat (m + 1) = Suc (unat m)" by (simp add: unat_word_ariths)
  then have "m + 1 \<noteq> 0" by (metis nat.simps(3) unat_0)
  moreover have "safe_at h s p ?t (unat (m + 1) - 1)"
    using mlen m1 k(2) assms(8-10) by (simp add: safe_at_def ready_def response_safe_def Let_def n_def)
  ultimately have "progress_ok h s ((n\<lparr>matchIndex := AList.update p m (matchIndex n)\<rparr>)\<lparr>nextIndex := AList.update p (m + 1) (nextIndex n)\<rparr>)"
    using progress_next [OF progress_match [OF pr(1,2) mm]] by simp
  then show ?thesis by simp
qed

lemma advance_committed:
  assumes "safe_inv h ids s" "i \<in> set ids" "n = nodes s i" "role n = Leader" "(currentTerm n, i) \<in> elected s"
    "committed h ids s (terms s i) (logs s i) (unat (commitIndex n))" "QuorumSize n = length ids div 2 + 1"
    "peers_ok ids i n'" "progress_ok h s n'" "n' = n\<lparr>matchIndex := mi, nextIndex := ni\<rparr>"
  shows "committed h ids s (terms s i) (logs s i) (unat (commitIndex (AdvanceCommitIndex n')))"
proof -
  let ?c = "commitIndex (AdvanceCommitIndex n')"
  have nk: "node_ok h n'" "entries (rlog n') = h (currentTerm n')"
    using leader_node [OF assms(1,2)] assms(3,4,10) by (simp_all add: node_ok_def)
  have "?c = commitIndex n \<or> ?c \<le> LastIndex (rlog n') \<and> committable n' ?c"
    using commit_loop_spec [of n' "LastIndex (rlog n')"] assms(10) by (simp add: AdvanceCommitIndex_def)
  then show ?thesis
  proof
    assume c: "?c \<le> LastIndex (rlog n') \<and> committable n' ?c"
    show ?thesis
    proof (cases "?c = 0")
      case False
      have "chosen h ids s (currentTerm n') (unat ?c)"
        by (rule committable_chosen [OF nk _ assms(8,9) _ assms(2) conjunct1 [OF c] conjunct2 [OF c] False])
          (use assms(5,7,10) in \<open>simp_all add: QuorumSize_def\<close>)
      then have "chosen h ids s (terms s i) (unat ?c)" "logs s i = h (terms s i)" using nk(2) assms(3,10) by simp_all
      then show ?thesis unfolding committed_def carries_def by (auto simp: chosen_def)
    qed (simp add: committed_def)
  qed (use assms(6) in simp)
qed

lemma response_progress:
  assumes "safe_inv h ids s" "commit_inv h ids s" "i \<in> set ids" "role (nodes s i) = Leader" "(terms s i, i) \<in> elected s"
    "QuorumSize (nodes s i) = length ids div 2 + 1" "AppResp p i req resp \<in> msgs s" "ae_term req = terms s i" "length (logs s i) < 2 ^ 63"
    "\<not> currentTerm (nodes s i) < ar_term resp" "n' = ReplicateToPeer_response J now p req resp (nodes s i)"
  shows "peers_ok ids i n' \<and> progress_ok h s n' \<and> committed h ids s (terms s i) (logs s i) (unat (commitIndex n')) \<and>
    currentTerm n' = terms s i"
proof -
  let ?n = "nodes s i"
  have m: "AppReq i p req \<in> msgs s" "response_safe h s p req resp" using assms(2,7) unfolding commit_inv_def by blast+
  have r: "request_safe h ids s p req" "p \<noteq> i"
    using assms(1,2) m(1) by (auto simp: commit_inv_def safe_inv_def log_inv_def requests_ok_def)
  then have p: "p \<in> set ids" "unat (ae_prevLogIndex req) < length (h (terms s i))"
    using assms(8) by (simp_all add: request_safe_def safe_at_def Let_def)
  have ns: "node_safe h ids s i" using assms(2,3) by (simp add: commit_inv_def)
  then have ok: "peers_ok ids i ?n" "progress_ok h s ?n" "committed h ids s (terms s i) (logs s i) (unat (commitIndex ?n))"
    using assms(4) by (simp_all add: node_safe_def)
  have nk: "node_ok h ?n" "entries (rlog ?n) = h (terms s i)" using leader_node [OF assms(1,3)] assms(4) by blast+
  consider "ar_term resp \<noteq> currentTerm ?n" | "ar_term resp = currentTerm ?n" "ar_success resp" | "ar_term resp = currentTerm ?n" "\<not> ar_success resp" by blast
  then show ?thesis
  proof cases
    case 1
    then have "n' = ?n" using assms(10) by (simp add: assms(11) ReplicateToPeer_response_def)
    then show ?thesis using ok by simp
  next
    case 2
    define m where "m = max (um_get (matchIndex ?n) p) (ae_prevLogIndex req + of_nat (length (ae_entries req)))"
    define n1 where "n1 = ?n\<lparr>matchIndex := AList.update p m (matchIndex ?n), nextIndex := AList.update p (m + 1) (nextIndex ?n)\<rparr>"
    have n': "n' = AdvanceCommitIndex n1" using 2 assms(4) by (simp add: assms(11) ReplicateToPeer_response_def n1_def m_def Let_def)
    have pr: "progress_ok h s n1" unfolding n1_def m_def
      by (rule response_success [OF assms(1,3) p(1) r(2) ns assms(4,7,8) 2(2) m(2) assms(9)])
    have pe: "peers_ok ids i n1" unfolding n1_def by (rule peers_ok_update [OF ok(1) p(1) r(2)])
    have "committed h ids s (terms s i) (logs s i) (unat (commitIndex n'))" unfolding n'
      by (rule advance_committed [OF assms(1,3) refl assms(4) _ ok(3) assms(6) pe pr n1_def]) (use assms(5) in simp)
    moreover have "nextIndex n' = nextIndex n1" unfolding n' AdvanceCommitIndex_def by (subst commit_loop_frame) simp
    ultimately show ?thesis using pr pe unfolding n' by (simp add: AdvanceCommitIndex_frame progress_ok_def peers_ok_def n1_def)
  next
    case 3
    define v where "v = next_after resp ?n"
    have n': "n' = ?n\<lparr>nextIndex := AList.update p v (nextIndex ?n)\<rparr>"
      using 3 assms(4) by (simp add: assms(11) ReplicateToPeer_response_def v_def next_after_def Let_def)
    have rs: "terms s i \<le> terms s p" "ar_conflictIndex resp \<noteq> 0" "unat (ar_conflictIndex resp) \<le> unat (ae_prevLogIndex req)"
      "terms s p = terms s i \<longrightarrow> conflict_ok h (terms s i) (unat (ae_prevLogIndex req)) resp (logs s p)"
      using m(2) 3 assms(8) by (simp_all add: response_safe_def Let_def)
    have len: "length (h (terms s i)) < 2 ^ 64" "unat (ar_conflictIndex resp) < length (h (terms s i))" using nk(2) assms(9) rs(3) p(2) by simp_all
    have v: "v \<noteq> 0" "unat v - 1 < length (h (terms s i))"
      using next_after_cases [OF nk rs(2) len(2,1)] rs(2) len(2) unfolding v_def by (metis diff_Suc_1 less_imp_diff_less old.nat.distinct(2) unat_0)+
    have "terms s p = terms s i \<longrightarrow> ready h (terms s i) (unat v - 1) (logs s p)"
      using reject_ready [OF assms(1) p(1) nk _ rs(2,3) p(2) len(1)] rs(4) unfolding v_def by simp
    then have "safe_at h s p (currentTerm ?n) (unat v - 1)" using rs(1) v(2) by (simp add: safe_at_def)
    then show ?thesis using progress_next [OF ok(2)] v ok(3) peers_ok_update(2) [OF ok(1) p(1) r(2)] unfolding n' by simp
  qed
qed

end
