(* ===== verification/StateMachine.thy ===== *)
theory StateMachine
  imports RaftNode
begin

text \<open>
  What a replica promises: applying the log is a deterministic function of the entries on the
  values, versions and indices a store holds. Clock readings only decide the time stamps and
  expiry times, which the replicas do not agree on.
\<close>

section \<open>Replicated state machines\<close>

locale state_machine =
  fixes ok :: "'s \<Rightarrow> bool"
    and view :: "'s \<Rightarrow> 'v"
    and exec :: "'t \<Rightarrow> 'e \<Rightarrow> 's \<Rightarrow> 's"
    and spec :: "'e \<Rightarrow> 'v \<Rightarrow> 'v"
  assumes exec_ok: "ok s \<Longrightarrow> ok (exec t e s)"
    and exec_view: "ok s \<Longrightarrow> view (exec t e s) = spec e (view s)"
begin

lemma run:
  "ok s \<Longrightarrow> ok (fold (\<lambda>e. exec (clock e) e) es s) \<and> view (fold (\<lambda>e. exec (clock e) e) es s) = fold spec es (view s)"
  by (induction es arbitrary: s) (simp_all add: exec_ok exec_view)

lemma agree:
  "ok s \<Longrightarrow> ok s' \<Longrightarrow> view s = view s' \<Longrightarrow>
     view (fold (\<lambda>e. exec (clock e) e) es s) = view (fold (\<lambda>e. exec (clock' e) e) es s')"
  by (simp add: run)

end

section \<open>The key-value state machine\<close>

type_synonym contents = "string \<rightharpoonup> string \<times> u64 \<times> u64"

definition store_view :: "KVStore \<Rightarrow> contents" where
  "store_view s = (\<lambda>k. map_option (\<lambda>e. (kv_value e, kv_version e, kv_raftIndex e)) (om_find (data s) k))"

text \<open>The specification of an entry: a put counts the versions of its key, a delete forgets them.\<close>

definition apply_spec :: "LogEntry \<Rightarrow> contents \<Rightarrow> contents" where
  "apply_spec e m =
     (case le_opType e of
        OpPut \<Rightarrow> m(le_key e \<mapsto> (le_value e, (case m (le_key e) of None \<Rightarrow> 1 | Some (_, ver, _) \<Rightarrow> ver + 1), le_index e))
      | OpDelete \<Rightarrow> m(le_key e := None)
      | _ \<Rightarrow> m)"

lemma store_view_new: "store_view KVStore_new = Map.empty"
  by (simp add: store_view_def KVStore_new_def om_find_def)

lemma ApplyEntry_wf: "store_wf s \<Longrightarrow> store_wf (fst (ApplyEntry now e s))"
  using store_wf_Put [of s] store_wf_Delete [of s]
  by (cases "le_opType e") (simp_all add: ApplyEntry_def split_beta Let_def)

lemma ApplyEntry_view: "store_wf s \<Longrightarrow> store_view (fst (ApplyEntry now e s)) = apply_spec e (store_view s)"
  using find_Delete [of s "le_key e" "le_index e"]
  by (cases "le_opType e")
    (auto simp: ApplyEntry_def split_beta Let_def store_view_def apply_spec_def find_Put put_entry_def fun_eq_iff
      split: option.splits)

interpretation kvm: state_machine store_wf store_view "\<lambda>now e s. fst (ApplyEntry now e s)" apply_spec
  by unfold_locales (simp_all add: ApplyEntry_wf ApplyEntry_view)

section \<open>The apply loop\<close>

text \<open>The entries after index \<open>a\<close> up to index \<open>c\<close>.\<close>

definition entries_between :: "RaftLog \<Rightarrow> u64 \<Rightarrow> u64 \<Rightarrow> LogEntry list" where
  "entries_between l a c = take (unat c - unat a) (drop (Suc (Offset l a)) (entries l))"

lemma entries_between_step:
  assumes "log_wf l" "snapshotIndex l \<le> a" "a < c" "c \<le> LastIndex l"
  shows "\<exists>e. GetEntry (a + 1) l = Inr e \<and> le_index e = a + 1 \<and> entries_between l a c = e # entries_between l (a + 1) c"
proof -
  have u: "unat (a + 1) = Suc (unat a)" by (rule unat_next [OF assms(3)])
  have le: "snapshotIndex l \<le> a + 1" "a + 1 \<le> LastIndex l"
    using assms(2-4) u by (simp_all add: word_le_nat_alt word_less_nat_alt)
  have off: "Offset l (a + 1) = Suc (Offset l a)"
    using assms(2) le(1) u by (simp add: Offset_ge word_le_nat_alt Suc_diff_le)
  have lt: "Suc (Offset l a) < length (entries l)" using Offset_in_range [OF assms(1) le(1)] le(2) off by simp
  obtain e where e: "GetEntry (a + 1) l = Inr e" "le_index e = a + 1" using GetEntry_wf(1) [OF assms(1) le] by blast
  have "e = entries l ! Suc (Offset l a)" using e(1) lt off by (auto simp: GetEntry_def Let_def)
  moreover have "unat c - unat a = Suc (unat c - unat (a + 1))" using assms(3) u by (simp add: word_less_nat_alt)
  ultimately have "entries_between l a c = e # entries_between l (a + 1) c"
    using lt by (simp add: entries_between_def off flip: Cons_nth_drop_Suc)
  with e show ?thesis by blast
qed

lemma ApplyLoop_run:
  assumes "log_wf (rlog n)" "snapshotIndex (rlog n) \<le> lastApplied n" "commitIndex n \<le> LastIndex (rlog n)"
  shows "store (ApplyLoop_inner clock n) =
      fold (\<lambda>e s. fst (ApplyEntry (clock (le_index e)) e s)) (entries_between (rlog n) (lastApplied n) (commitIndex n)) (store n) \<and>
    lastApplied (ApplyLoop_inner clock n) = max (lastApplied n) (commitIndex n)"
  using assms
proof (induction clock n rule: ApplyLoop_inner.induct)
  case (1 clock n)
  let ?a = "lastApplied n" and ?c = "commitIndex n"
  show ?case
  proof (cases "?a < ?c")
    case True
    obtain e where e: "GetEntry (?a + 1) (rlog n) = Inr e" "le_index e = ?a + 1"
        "entries_between (rlog n) ?a ?c = e # entries_between (rlog n) (?a + 1) ?c"
      using entries_between_step [OF "1.prems"(1,2) True "1.prems"(3)] by blast
    let ?n = "n\<lparr>store := fst (ApplyEntry (clock (?a + 1)) e (store n)), lastApplied := ?a + 1\<rparr>"
    have step: "ApplyLoop_inner clock n = ApplyLoop_inner clock ?n"
      using True e(1) by (simp add: ApplyLoop_inner.simps [of clock n] Let_def)
    have u: "unat (?a + 1) = Suc (unat ?a)" by (rule unat_next [OF True])
    have "snapshotIndex (rlog n) \<le> ?a + 1" "?a + 1 \<le> ?c"
      using "1.prems"(2) True u by (simp_all add: word_le_nat_alt word_less_nat_alt)
    then show ?thesis
      using "1.IH" [OF True refl e(1)] "1.prems" True e(2,3) unfolding step by (simp add: max_def less_imp_le)
  next
    case False
    then have "unat ?c - unat ?a = 0" by (simp add: word_less_nat_alt)
    moreover have "ApplyLoop_inner clock n = n" using False by (simp add: ApplyLoop_inner.simps [of clock n])
    ultimately show ?thesis using False by (simp add: entries_between_def max_def not_less)
  qed
qed

lemma entries_between_cong:
  assumes "log_wf l" "log_wf l'" "snapshotIndex l \<le> a" "snapshotIndex l' \<le> a" "c \<le> LastIndex l" "c \<le> LastIndex l'"
    "\<And>i. a < i \<Longrightarrow> i \<le> c \<Longrightarrow> GetEntry i l = GetEntry i l'"
  shows "entries_between l a c = entries_between l' a c"
  using assms
proof (induction "unat c - unat a" arbitrary: a)
  case (Suc d)
  then have lt: "a < c" by (simp add: word_less_nat_alt)
  have u: "unat (a + 1) = Suc (unat a)" by (rule unat_next [OF lt])
  obtain e where e: "GetEntry (a + 1) l = Inr e" "entries_between l a c = e # entries_between l (a + 1) c"
    using entries_between_step [OF Suc.prems(1,3) lt Suc.prems(5)] by blast
  obtain e' where e': "GetEntry (a + 1) l' = Inr e'" "entries_between l' a c = e' # entries_between l' (a + 1) c"
    using entries_between_step [OF Suc.prems(2,4) lt Suc.prems(6)] by blast
  have le: "a < a + 1" "a + 1 \<le> c" "a \<le> a + 1" using lt u by (simp_all add: word_less_nat_alt word_le_nat_alt)
  have "entries_between l (a + 1) c = entries_between l' (a + 1) c"
    using Suc.hyps(2) u Suc.prems le by (intro Suc.hyps(1)) (auto intro: order_trans less_trans)
  then show ?case using e e' Suc.prems(7) [OF le(1,2)] by simp
qed (simp add: entries_between_def)

section \<open>Properties\<close>

text \<open>
  Replicas agree. Two nodes that have applied the same prefix, hold the same entries up
  to a common commit index and run their apply loops, each with its own clock, end with the
  same values, versions and Raft indices under every key, and both have applied everything.
\<close>

theorem replicas_agree:
  assumes "log_wf (rlog n)" "log_wf (rlog m)" "store_wf (store n)" "store_wf (store m)"
    "lastApplied m = lastApplied n" "commitIndex m = commitIndex n" "store_view (store n) = store_view (store m)"
    "snapshotIndex (rlog n) \<le> lastApplied n" "snapshotIndex (rlog m) \<le> lastApplied n"
    "commitIndex n \<le> LastIndex (rlog n)" "commitIndex n \<le> LastIndex (rlog m)" "lastApplied n \<le> commitIndex n"
    "\<And>i. lastApplied n < i \<Longrightarrow> i \<le> commitIndex n \<Longrightarrow> GetEntry i (rlog n) = GetEntry i (rlog m)"
  shows "store_view (store (ApplyLoop_inner clock n)) = store_view (store (ApplyLoop_inner clock' m)) \<and>
    lastApplied (ApplyLoop_inner clock n) = commitIndex n \<and> lastApplied (ApplyLoop_inner clock' m) = commitIndex n"
  using ApplyLoop_run [of n clock] ApplyLoop_run [of m clock'] kvm.agree [OF assms(3,4,7)]
    entries_between_cong [OF assms(1,2,8-11,13)] assms
  by (simp add: max_def)

text \<open>
  C10: the apply loop refines the abstract machine: it applies every entry above the last
  applied index up to the commit index once and in the order of the log.
\<close>

theorem ApplyLoop_refines:
  assumes "log_wf (rlog n)" "store_wf (store n)" "snapshotIndex (rlog n) \<le> lastApplied n"
    "commitIndex n \<le> LastIndex (rlog n)"
  shows "store_view (store (ApplyLoop_inner clock n)) =
      fold apply_spec (entries_between (rlog n) (lastApplied n) (commitIndex n)) (store_view (store n)) \<and>
    lastApplied (ApplyLoop_inner clock n) = max (lastApplied n) (commitIndex n)"
  using ApplyLoop_run [of n clock] kvm.run [OF assms(2), of "\<lambda>e. clock (le_index e)"] assms by simp

definition sample_put :: "u64 \<Rightarrow> string \<Rightarrow> LogEntry" where
  "sample_put i v = LogEntry_default\<lparr>le_term := 1, le_index := i, le_opType := OpPut, le_key := ''k'', le_value := v\<rparr>"

definition sample_replica :: "string \<Rightarrow> RaftNode" where
  "sample_replica i = (RaftNode_init 0 (sample_config i []) KVStore_new None)
     \<lparr>rlog := \<lparr>entries = [LogEntry_default, sample_put 1 ''x'', sample_put 2 ''y''], snapshotIndex = 0, snapshotTerm = 0,
        rl_wal = None\<rparr>, commitIndex := 2\<rparr>"

lemma sample_replica_fields:
  "lastApplied (sample_replica i) = 0" "commitIndex (sample_replica i) = 2" "store (sample_replica i) = KVStore_new"
  "snapshotIndex (rlog (sample_replica i)) = 0" "LastIndex (rlog (sample_replica i)) = 2"
  by (simp_all add: sample_replica_def RaftNode_init_def LastIndex_def sample_put_def)

lemma sample_replica_wf: "log_wf (rlog (sample_replica i))"
  by (auto simp: log_wf_def sample_replica_def sample_put_def LogEntry_default_def nth_Cons split: nat.splits)

lemma sample_replica_entries:
  "entries_between (rlog (sample_replica i)) 0 2 = [sample_put 1 ''x'', sample_put 2 ''y'']"
  by (simp add: entries_between_def sample_replica_def Offset_def)

theorem replicas_agree_witness:
  "store_view (store (ApplyLoop_inner (\<lambda>_. 5) (sample_replica ''a''))) =
   store_view (store (ApplyLoop_inner (\<lambda>_. 7) (sample_replica ''b'')))"
  using replicas_agree [OF sample_replica_wf [of "''a''"] sample_replica_wf [of "''b''"]]
  by (simp add: sample_replica_fields store_wf_new) (simp add: sample_replica_def)

theorem ApplyLoop_refines_witness:
  "store_view (store (ApplyLoop_inner (\<lambda>_. 5) (sample_replica ''a''))) ''k'' = Some (''y'', 2, 2)"
  using ApplyLoop_refines [OF sample_replica_wf, of "''a''" "\<lambda>_. 5"]
  by (simp add: sample_replica_fields store_wf_new sample_replica_entries apply_spec_def sample_put_def store_view_new)

end
