(* ===== verification/StateMachineSafety.thy ===== *)
theory StateMachineSafety
  imports Replication StateMachine
begin

text \<open>
  Every step of the cluster keeps the invariant of \<open>Commitment\<close>: a new leader starts with safe
  indices, its requests are safe, followers commit only what is committed, and a restart
  forgets the commit index but not the log. The store of a node is what the specification of
  \<open>StateMachine\<close> makes of the committed entries it has applied.
\<close>

section \<open>A new leader\<close>

lemma update_all:
  "map_of (foldl (\<lambda>al p. AList.update p v al) al ps) = (\<lambda>p. if p \<in> set ps then Some v else map_of al p)"
  "distinct (map fst al) \<Longrightarrow> distinct (map fst (foldl (\<lambda>al p. AList.update p v al) al ps))"
  "fst ` set (foldl (\<lambda>al p. AList.update p v al) al ps) = set ps \<union> fst ` set al"
  by (induction ps arbitrary: al) (auto simp: update_conv' distinct_update dom_update fun_eq_iff)

lemma reset_progress_lists:
  "nextIndex (reset_progress x n) = foldl (\<lambda>al p. AList.update p (x + 1) al) (nextIndex n) (peers n)"
  "matchIndex (reset_progress x n) = foldl (\<lambda>al p. AList.update p 0 al) (matchIndex n) (peers n)"
proof -
  have "nextIndex (foldl (\<lambda>n p. n\<lparr>nextIndex := AList.update p (x + 1) (nextIndex n), matchIndex := AList.update p 0 (matchIndex n)\<rparr>) m ps) =
      foldl (\<lambda>al p. AList.update p (x + 1) al) (nextIndex m) ps \<and>
    matchIndex (foldl (\<lambda>n p. n\<lparr>nextIndex := AList.update p (x + 1) (nextIndex n), matchIndex := AList.update p 0 (matchIndex n)\<rparr>) m ps) =
      foldl (\<lambda>al p. AList.update p 0 al) (matchIndex m) ps" for m ps
    by (induction ps arbitrary: m) simp_all
  then show "nextIndex (reset_progress x n) = foldl (\<lambda>al p. AList.update p (x + 1) al) (nextIndex n) (peers n)"
    "matchIndex (reset_progress x n) = foldl (\<lambda>al p. AList.update p 0 al) (matchIndex n) (peers n)"
    unfolding reset_progress_def by blast+
qed

lemma BecomeLeader_progress:
  assumes "BecomeLeader J n = Some n'" "peers_ok ids i n" "set (peers n) = set ids - {i}"
  shows "peers_ok ids i n'" "\<And>p v. map_of (nextIndex n') p = Some v \<Longrightarrow> v = LastIndex (rlog n) + 1 \<and> p \<in> set (peers n)"
    "\<And>p v. (p, v) \<in> set (matchIndex n') \<Longrightarrow> v = 0"
proof -
  let ?n1 = "n\<lparr>role := Leader, leaderId := nodeId n\<rparr>"
  have n': "nextIndex n' = nextIndex (reset_progress (LastIndex (rlog n)) ?n1)" "matchIndex n' = matchIndex (reset_progress (LastIndex (rlog n)) ?n1)"
    using assms(1) by (auto simp: BecomeLeader_def Let_def split: bind_splits)
  have ps: "peers ?n1 = peers n" by (simp add: peers_def)
  note l = n' [unfolded reset_progress_lists ps, simplified]
  have k: "distinct (map fst (matchIndex n'))" "fst ` set (matchIndex n') \<subseteq> set (peers n)" "fst ` set (nextIndex n') \<subseteq> set (peers n)"
    using assms(2,3) unfolding l peers_ok_def by (auto simp: update_all)
  then show "peers_ok ids i n'" using assms(3) by (simp add: peers_ok_def)
  show "v = LastIndex (rlog n) + 1 \<and> p \<in> set (peers n)" if v: "map_of (nextIndex n') p = Some v" for p v
  proof -
    have "p \<in> set (peers n)" using map_of_SomeD [OF v] k(3) by force
    then show ?thesis using v unfolding l by (simp add: update_all)
  qed
  show "v = 0" if v: "(p, v) \<in> set (matchIndex n')" for p v
  proof -
    have "p \<in> set (peers n)" using v k(2) by force
    moreover have "map_of (matchIndex n') p = Some v" using v k(1) by simp
    ultimately show ?thesis unfolding l by (simp add: update_all)
  qed
qed

lemma new_leader_safe:
  assumes "protocol ids h s h' s'" "safe_inv h ids s" "safe_inv h' ids s'" "i \<in> set ids" "node_safe h ids s i"
    "BecomeLeader J (nodes s i) = Some (nodes s' i)" "set (peers (nodes s i)) = set ids - {i}" "length (logs s i) < 2 ^ 63"
  shows "node_safe h' ids s' i"
proof -
  let ?n = "nodes s i" and ?n' = "nodes s' i"
  have ns: "peers_ok ids i ?n" "committed h ids s (terms s i) (logs s i) (unat (commitIndex ?n))" using assms(5) by (simp_all add: node_safe_def)
  note b = BecomeLeader_progress [OF assms(6) ns(1) assms(7)]
  from assms(6) obtain e where e: "LogEntry_NoOp J (currentTerm ?n) (LastIndex (rlog ?n) + 1) = Some e"
    "RaftLog_Append J e (rlog ?n) = Some (rlog ?n')" "currentTerm ?n' = currentTerm ?n" "role ?n' = Leader" "commitIndex ?n' = commitIndex ?n"
    by (rule BecomeLeader_fields)
  have et: "le_term e = currentTerm ?n" using e(1) by (auto simp: LogEntry_NoOp_def split: bind_splits)
  have H: "h' (terms s' i) = logs s i @ [e]" using leader_node(2) [OF assms(3,4) e(4)] Append_entries [OF e(2)] by simp
  note g = node_get [OF leader_node(1) [OF assms(2,4)]]
  have "unat (LastIndex (rlog ?n)) < 2 ^ 63" using g(4) assms(8) by simp
  then have v: "unat (LastIndex (rlog ?n) + 1) = length (logs s i)" using g(4,5) by (simp add: unat_word_ariths)
  have len: "0 < length (logs s i)" using g(5) by simp
  have "safe_at h' s' p (terms s' i) (length (logs s i) - 1)" for p
    using len et e(3) unfolding safe_at_def fresh_def H by (simp add: nth_append)
  moreover have "LastIndex (rlog ?n) + 1 \<noteq> 0" using v len by (metis less_numeral_extra(3) unat_0)
  ultimately have "progress_ok h' s' ?n'" using b(2,3) v unfolding progress_ok_def by (metis One_nat_def)
  then show ?thesis using b(1) committed_node(1) [OF assms(1,2) ns(2)] e(5) by (simp add: node_safe_def)
qed

section \<open>Requests of a leader\<close>

lemma collect_loop_nil:
  assumes "node_ok h n" "collect_loop (rlog n) (v + 100) v = []" "length (entries (rlog n)) < 2 ^ 63"
  shows "length (entries (rlog n)) \<le> unat v"
proof (rule ccontr)
  assume "\<not> length (entries (rlog n)) \<le> unat v"
  then have l: "unat v < length (entries (rlog n))" "unat v < 2 ^ 63" using assms(3) by simp_all
  note g = node_get [OF assms(1)]
  have "unat (v + 100) = unat v + 100" using l(2) by (simp add: unat_word_ariths)
  then have "v < v + 100" by (simp add: word_less_nat_alt)
  then show False using assms(2) l(1) g(1,3) by (subst (asm) collect_loop.simps) simp
qed

lemma leader_request_safe:
  assumes "safe_inv h ids s" "commit_inv h ids s" "i \<in> set ids" "p \<in> set ids" "(terms s i, i) \<in> elected s" "length (logs s i) < 2 ^ 63"
    "ReplicateToPeer_request p (nodes s i) = Some req"
  shows "request_safe h ids s p req"
proof -
  let ?n = "nodes s i" and ?H = "h (terms s i)"
  define v where "v = (case map_of (nextIndex ?n) p of Some i \<Rightarrow> i | None \<Rightarrow> LastIndex (rlog ?n) + 1)"
  have r: "role ?n = Leader" "ae_term req = terms s i" "ae_prevLogIndex req = v - 1" "ae_prevLogTerm req = GetTerm (v - 1) (rlog ?n)"
      "ae_entries req = collect_loop (rlog ?n) (v + 100) v" "ae_leaderCommit req = commitIndex ?n"
    using assms(7) by (auto simp: ReplicateToPeer_request_def Let_def v_def split: if_splits)
  note nk = leader_node [OF assms(1,3)]
  have H: "logs s i = ?H" using nk(2) [OF r(1)] .
  note g = node_get [OF nk(1)]
  have ns: "progress_ok h s ?n" "committed h ids s (terms s i) (logs s i) (unat (commitIndex ?n))"
    using assms(2,3) r(1) by (auto simp: commit_inv_def node_safe_def)
  have "v \<noteq> 0 \<and> safe_at h s p (terms s i) (unat v - 1)"
  proof (cases "map_of (nextIndex ?n) p")
    case None
    have "unat (LastIndex (rlog ?n)) < 2 ^ 63" using g(4) assms(6) by simp
    then have "unat (LastIndex (rlog ?n) + 1) = length ?H" using g(4,5) H by (simp add: unat_word_ariths)
    moreover have "0 < length ?H" using g(5) H by simp
    ultimately show ?thesis using None by (auto simp: v_def safe_at_def fresh_def)
  qed (use ns(1) in \<open>simp add: progress_ok_def v_def\<close>)
  then have v: "unat (v - 1) = unat v - 1" "safe_at h s p (terms s i) (unat v - 1)" "0 < unat v" by (simp_all add: unat_minus_one unat_gt_0)
  then have x: "unat v - 1 < length ?H" by (simp add: safe_at_def)
  have t: "GetTerm (v - 1) (rlog ?n) = le_term (?H ! (unat v - 1))" using g(2) [of "v - 1"] x v(1) H by simp
  have "le_term (?H ! (unat v - 1)) = terms s i" if "ae_entries req = []"
  proof -
    have "length ?H \<le> unat v" using collect_loop_nil [OF nk(1) _ assms(6), of v] that r(5) H by simp
    then have "unat v - 1 = length ?H - 1" using x v(3) by simp
    moreover have "?H \<noteq> []" "le_term (last ?H) = terms s i" using assms(2,5) unfolding commit_inv_def own_last_def by blast+
    ultimately show ?thesis by (simp add: last_conv_nth)
  qed
  then show ?thesis using assms(4) v t ns(2) H r by (simp add: request_safe_def Let_def)
qed

section \<open>Steps\<close>

lemma commit_inv_node:
  assumes "protocol ids h s h' s'" "one_leader s'" "safe_inv h ids s" "safe_inv h' ids s'" "commit_inv h ids s"
    "\<And>i. i \<in> set ids \<Longrightarrow> role (nodes s i) = Leader \<Longrightarrow> (terms s i, i) \<in> elected s"
    "msgs s \<subseteq> msgs s'" "\<And>l p req. AppReq l p req \<in> msgs s' \<Longrightarrow> AppReq l p req \<in> msgs s"
    "\<And>l p req resp. AppResp p l req resp \<in> msgs s' \<Longrightarrow> AppResp p l req resp \<in> msgs s"
    "\<And>j. j \<noteq> i \<Longrightarrow> nodes s' j = nodes s j" "fields_kept (nodes s i) (nodes s' i) \<or> node_safe h' ids s' i"
  shows "commit_inv h' ids s'"
proof (rule commit_inv_step [OF assms(1-5,7)])
  fix j assume "j \<in> set ids"
  show "fields_kept (nodes s j) (nodes s' j) \<or> node_safe h' ids s' j"
    using assms(10) [of j] assms(11) fields_kept_refl by (cases "j = i") auto
qed (use assms(6,8,9) in blast)+

lemma append_reject:
  assumes "protocol ids h s h' s'" "one_leader s'" "safe_inv h ids s" "i \<in> set ids" "(ae_term req, l) \<in> elected s" "i \<noteq> l"
    "request_safe h ids s i req" "length (logs s i) < 2 ^ 63"
    "HandleAppendEntries J now req (nodes s i) = Some (nodes s' i, resp)" "role_kept (nodes s i) (nodes s' i)" "\<not> ar_success resp"
  shows "response_safe h' s' i req resp" "fields_kept (nodes s i) (nodes s' i)"
proof -
  have "indices_kept (nodes s i) (nodes s' i)" using assms(9)
  proof (cases rule: HandleAppendEntries_cases)
    case (mismatch n1)
    then show ?thesis using step_up_indices [OF mismatch(2)] by (simp add: indices_kept_def ResetElectionTimer_def)
  qed (use assms(11) in \<open>simp_all add: indices_kept_def\<close>)
  then show "fields_kept (nodes s i) (nodes s' i)" using fields_keptI assms(10) by blast
  show "response_safe h' s' i req resp"
  proof (cases "ar_term resp = ae_term req")
    case True
    have "response_safe h s i req resp"
      using reject_conflict [OF assms(3,4,7,8,9,11) True] HandleAppendEntries_reject(1) [OF assms(9,11) True] assms(11)
      by (simp add: response_safe_def Let_def)
    then show ?thesis by (rule response_safe_kept [OF assms(1,2,5,6,7)])
  qed (use assms(11) in \<open>simp add: response_safe_def Let_def\<close>)
qed

lemma HandleAppendEntries_commit:
  assumes "HandleAppendEntries J now req n = Some (n', resp)" "ar_success resp"
  shows "nextIndex n' = nextIndex n \<and> matchIndex n' = matchIndex n \<and>
    (commitIndex n' = commitIndex n \<or> commitIndex n' = min (ae_leaderCommit req) (LastIndex (rlog n')))"
  using assms(1)
proof (cases rule: HandleAppendEntries_cases)
  case (appended n1 l)
  then show ?thesis using step_up_indices [OF appended(2)] unfolding appended(4) by (auto simp: indices_kept_def ResetElectionTimer_def)
qed (use assms(2) in \<open>simp_all add: AppendEntriesResponse_new_def\<close>)

lemma append_accept:
  assumes "protocol ids h s h' s'" "safe_inv h ids s" "safe_inv h' ids s'" "i \<in> set ids"
    "request_safe h ids s i req" "request_safe h' ids s' i req" "node_safe h ids s i" "piece_ok h req"
    "role (nodes s i) = Leader \<longrightarrow> ae_term req \<noteq> terms s i"
    "HandleAppendEntries J now req (nodes s i) = Some (nodes s' i, resp)" "role_kept (nodes s i) (nodes s' i)" "ar_success resp"
  shows "response_safe h' s' i req resp" "node_safe h' ids s' i"
proof -
  let ?n' = "nodes s' i" and ?t = "ae_term req" and ?m = "unat (ae_prevLogIndex req) + length (ae_entries req)"
  have nk: "node_ok h (nodes s i)" "hist_ok h (elected s)" using leader_node [OF assms(2,4)] assms(2) by (simp_all add: safe_inv_def log_inv_def)
  note al = HandleAppendEntries_log [OF nk assms(8,10,9,11)] and su = HandleAppendEntries_success [OF assms(10,12)]
  have L: "?m < length (h ?t)" "take (Suc ?m) (logs s' i) = take (Suc ?m) (h ?t)" using al(2) [OF assms(12)] by simp_all
  have "prefix (logs s' i) (h ?t)"
  proof (cases "logs s' i = logs s i")
    case True
    then show ?thesis using accept_prefix [OF assms(2,4) su(1) _ L(1)] L(2) assms(5) by (simp add: request_safe_def Let_def)
  next
    case False
    then show ?thesis using al(3) take_is_prefix by metis
  qed
  then have pre: "prefix (logs s' i) (h' ?t)" using protocol_extends [OF assms(1)] unfolding extends_def by (metis prefix_prefix)
  then show "response_safe h' s' i req resp" using assms(12) su(2) by (simp add: response_safe_def Let_def)
  note c = HandleAppendEntries_commit [OF assms(10,12)]
  note g = node_get [OF leader_node(1) [OF assms(3,4)]]
  let ?c = "min (unat (ae_leaderCommit req)) (unat (LastIndex (rlog ?n')))"
  have "committed h' ids s' ?t (h' ?t) (unat (ae_leaderCommit req))" using assms(6) by (simp add: request_safe_def Let_def)
  then have "committed h' ids s' ?t (logs s' i) ?c"
    by (rule committed_prefix [where h = h' and t = ?t, OF _ pre]) (use g(4,5) in \<open>simp_all add: min_less_iff_disj\<close>)
  moreover have "unat (min (ae_leaderCommit req) (LastIndex (rlog ?n'))) = ?c" by (simp add: min_def word_le_nat_alt)
  moreover have "committed h' ids s' (terms s' i) (logs s' i) (unat (commitIndex (nodes s i)))"
    using assms(7) by (intro committed_node(1) [OF assms(1,2)]) (simp add: node_safe_def)
  ultimately have "committed h' ids s' (terms s' i) (logs s' i) (unat (commitIndex ?n'))" using c su(2) by metis
  moreover have "role ?n' \<noteq> Leader" using assms(9,11) su(2) by (auto simp: role_kept_def)
  ultimately show "node_safe h' ids s' i" using assms(7) c by (simp add: node_safe_def peers_ok_def)
qed

lemma response_safe_node:
  assumes "protocol ids h s h' s'" "one_leader s'" "safe_inv h ids s" "safe_inv h' ids s'" "commit_inv h ids s" "i \<in> set ids"
    "role (nodes s i) = Leader \<Longrightarrow> (terms s i, i) \<in> elected s" "QuorumSize (nodes s i) = length ids div 2 + 1"
    "AppResp p i req resp \<in> msgs s" "ae_term req = terms s i" "length (logs s i) < 2 ^ 63"
    "nodes s' i = ReplicateToPeer_response J now p req resp (nodes s i)"
  shows "fields_kept (nodes s i) (nodes s' i) \<or> node_safe h' ids s' i"
proof -
  let ?n = "nodes s i" and ?n' = "nodes s' i"
  consider "currentTerm ?n < ar_term resp" | "role ?n \<noteq> Leader" "\<not> currentTerm ?n < ar_term resp"
    | "role ?n = Leader" "\<not> currentTerm ?n < ar_term resp" by blast
  then show ?thesis
  proof cases
    case 1
    then have "?n' = (case BecomeFollower J now (ar_term resp) [] ?n of Some n' \<Rightarrow> n' | None \<Rightarrow> follower_state (ar_term resp) [] ?n)"
      using assms(12) by (simp add: ReplicateToPeer_response_def)
    then have "fields_kept ?n ?n'"
      using BecomeFollower_indices [of J now "ar_term resp" "[]" ?n] BecomeFollower_fields(2) [of J now "ar_term resp" "[]" ?n]
      by (auto simp: fields_kept_def indices_kept_def follower_state_def split: option.splits)
    then show ?thesis by blast
  next
    case 2
    then have "?n' = ?n" using assms(12) by (simp add: ReplicateToPeer_response_def)
    then show ?thesis by (simp add: fields_kept_refl)
  next
    case 3
    note el = assms(7) [OF 3(1)]
    have r: "peers_ok ids i ?n'" "progress_ok h s ?n'" "committed h ids s (terms s i) (logs s i) (unat (commitIndex ?n'))" "currentTerm ?n' = terms s i"
      using response_progress [OF assms(3,5,6) 3(1) el assms(8-11) 3(2) assms(12)] by blast+
    have "progress_ok h' s' ?n'" by (rule progress_kept [OF assms(1,2,4) _ r(1,2) refl refl refl]) (use el r(4) in simp)
    then show ?thesis using r(1) committed_node(1) [OF assms(1,3) r(3)] by (simp add: node_safe_def)
  qed
qed

context json_sized
begin

lemma live_step_commit:
  assumes "live_step J ids s s'" "reachable J ids s" "ids_ok ids" "safe_inv h ids s" "commit_inv h ids s" "short ids s"
  shows "\<exists>h'. protocol ids h s h' s' \<and> safe_inv h' ids s' \<and> commit_inv h' ids s'"
proof -
  obtain h' where h': "protocol ids h s h' s'" "safe_inv h' ids s'" using live_step_safe [OF assms(1-4,6)] by blast
  have inv: "cluster_inv J ids s" by (rule reachable_inv [OF assms(2,3)])
  have r': "reachable J ids s'" using assms(1,2) by (blast intro: reachable.next_state step.live)
  note one = reachable_one_leader [OF assms(2,3)] and one' = reachable_one_leader [OF r' assms(3)]
  note nd = cluster_node(1) [OF inv assms(3)] and el = leader_elected [OF inv]
  have len: "length (logs s i) < 2 ^ 63" "RaftLog_Size (rlog (nodes s i)) \<le> cf_snapshotThreshold (config (nodes s i))" if "i \<in> set ids" for i
    using assms(6) that by (simp_all add: short_def)
  have cfg: "set (peers (nodes s i)) = set ids - {i}" "QuorumSize (nodes s i) = length ids div 2 + 1" if "i \<in> set ids" for i
    using config_for_peers(3,4) [OF cluster_node(2) [OF inv assms(3) that] _ that] assms(3) by (simp_all add: ids_ok_def)
  have ns: "node_safe h ids s i" if "i \<in> set ids" for i using assms(5) that by (simp add: commit_inv_def)
  note keep = commit_inv_node [OF h'(1) one' assms(4) h'(2) assms(5) el]
  have "commit_inv h' ids s'" using assms(1)
  proof cases
    case (start_election i now timeout n' req)
    have room: "log_room (Suc 0) (rlog (nodes s i))" using start_election by simp
    have "fields_kept (nodes s i) n'"
      using StartElection_begin_indices [OF start_election(7)] StartElection_begin_inv(5) [OF nd [OF start_election(2)] room start_election(7)]
      by (simp add: fields_kept_def indices_kept_def)
    then show ?thesis by (intro keep [where i = i]) (auto simp: start_election(1))
  next
    case (vote i c req now n' resp)
    have room: "log_room (Suc (Suc 0)) (rlog (nodes s i))" using vote by (simp add: numeral_2_eq_2)
    have "id_ok (rv_candidateId req)" using inv assms(3) vote(3) by (auto simp: cluster_inv_def msgs_inv_def ids_ok_def list_all_iff)
    note v = HandleRequestVote_inv [OF nd [OF vote(2)] room this vote(5)]
    have "fields_kept (nodes s i) n'" by (rule fields_keptI [OF HandleRequestVote_indices [OF vote(5)] v(4)])
    then show ?thesis by (intro keep [where i = i]) (auto simp: vote(1) split: if_splits)
  next
    case (vote_response i e p ps resp now n' votes stop)
    have room: "log_room (Suc 0) (rlog (nodes s i))" using vote_response by simp
    note v = StartElection_response_inv [OF nd [OF vote_response(2)] room vote_response(7)]
    have "role_kept (nodes s i) n'" using v(5) by (auto simp: role_kept_def)
    then have "fields_kept (nodes s i) n'" by (rule fields_keptI [OF StartElection_response_indices [OF vote_response(7)]])
    then show ?thesis by (intro keep [where i = i]) (auto simp: vote_response(1))
  next
    case (vote_timeout i e p ps)
    then show ?thesis by (intro keep [where i = i]) (auto simp: fields_kept_refl)
  next
    case (end_election i e n')
    have "n' = nodes s i \<or> BecomeLeader J (nodes s i) = Some n'" using end_election(6) by (auto simp: StartElection_end_def split: if_splits)
    then have "fields_kept (nodes s i) n' \<or> node_safe h' ids s' i"
    proof
      assume "BecomeLeader J (nodes s i) = Some n'"
      then have "BecomeLeader J (nodes s i) = Some (nodes s' i)" by (simp add: end_election(1))
      then show ?thesis
        using new_leader_safe [OF h'(1) assms(4) h'(2) end_election(2) ns [OF end_election(2)] _ cfg(1) [OF end_election(2)] len(1) [OF end_election(2)]] by blast
    qed (simp add: fields_kept_refl)
    then show ?thesis by (intro keep [where i = i]) (auto simp: end_election(1))
  next
    case (replicate_request i p req)
    have p: "p \<in> set ids" "p \<noteq> i" using cfg(1) [OF replicate_request(2)] replicate_request(3) by auto
    have ld: "role (nodes s i) = Leader" "ae_term req = terms s i"
      using replicate_request(4) by (auto simp: ReplicateToPeer_request_def Let_def split: if_splits)
    note e = el [OF replicate_request(2) ld(1)]
    have "request_safe h ids s p req"
      by (rule leader_request_safe [OF assms(4,5) replicate_request(2) p(1) e len(1) [OF replicate_request(2)] replicate_request(4)])
    moreover have "(ae_term req, i) \<in> elected s" using e ld(2) by simp
    ultimately have "request_safe h' ids s' p req" using request_safe_kept [OF h'(1) one' h'(2) _ p(2)] by blast
    then show ?thesis
      by (intro commit_inv_step [OF h'(1) one' assms(4) h'(2) assms(5) _ el]) (auto simp: replicate_request(1) fields_kept_refl)
  next
    case (append i l req now n' resp)
    have fit: "list_all entry_fit (ae_entries req)" using inv append by (auto simp: cluster_inv_def msgs_inv_def)
    have room: "log_room (Suc (length (ae_entries req) + 0)) (rlog (nodes s i))" using append by simp
    note rk = HandleAppendEntries_inv(4) [OF nd [OF append(2)] room fit append(5)]
    have n': "nodes s' i = n'" by (simp add: append(1))
    have m: "(ae_term req, l) \<in> elected s" "i \<noteq> l" "piece_ok h req" using assms(4) append(3) by (auto simp: safe_inv_def log_inv_def requests_ok_def)
    have rq: "request_safe h ids s i req" using assms(5) append(3) unfolding commit_inv_def by blast
    note rq' = request_safe_kept [OF h'(1) one' h'(2) m(1,2) rq]
    have ld: "role (nodes s i) = Leader \<longrightarrow> ae_term req \<noteq> terms s i"
      using one el [OF append(2)] m(1,2) unfolding one_leader_def by metis
    have "response_safe h' s' i req resp \<and> (fields_kept (nodes s i) (nodes s' i) \<or> node_safe h' ids s' i)"
      using append_reject [OF h'(1) one' assms(4) append(2) m(1,2) rq len(1) [OF append(2)], unfolded n', OF append(5) rk]
        append_accept [OF h'(1) assms(4) h'(2) append(2) rq rq' ns [OF append(2)] m(3) ld, unfolded n', OF append(5) rk]
      unfolding n' by blast
    then show ?thesis
      using append(3) by (intro commit_inv_step [OF h'(1) one' assms(4) h'(2) assms(5) _ el]) (auto simp: append(1) fields_kept_refl)
  next
    case (replicate_response i p req resp now)
    have n': "nodes s' i = ReplicateToPeer_response J now p req resp (nodes s i)" by (simp add: replicate_response(1))
    have "fields_kept (nodes s i) (nodes s' i) \<or> node_safe h' ids s' i"
      by (rule response_safe_node [OF h'(1) one' assms(4) h'(2) assms(5) replicate_response(2) el cfg(2) replicate_response(3,4) len(1) n'])
        (use replicate_response(2) in blast)+
    then show ?thesis by (intro keep [where i = i]) (auto simp: replicate_response(1))
  next
    case (apply_committed i now clock n')
    have room: "log_room (Suc 0) (rlog (nodes s i))" using apply_committed by simp
    note a = ApplyLoop_turn_inv [OF nd [OF apply_committed(2)] room apply_committed(4,5)]
    have "fields_kept (nodes s i) n'" by (rule fields_keptI [OF ApplyLoop_turn_indices [OF apply_committed(5) len(2) [OF apply_committed(2)]] a(4)])
    then show ?thesis by (intro keep [where i = i]) (auto simp: apply_committed(1))
  next
    case (propose i key v opt ttl n' r)
    have room: "log_room (Suc 0) (rlog (nodes s i))" using propose by simp
    note a = Propose_begin_inv [OF nd [OF propose(2)] room propose(4-8)]
    have "fields_kept (nodes s i) n'" by (rule fields_keptI [OF Propose_begin_indices [OF propose(8)] a(4)])
    then show ?thesis by (intro keep [where i = i]) (auto simp: propose(1))
  next
    case (local_store i st)
    have "fields_kept (nodes s i) ((nodes s i)\<lparr>store := st\<rparr>)" by (simp add: fields_kept_def)
    then show ?thesis by (intro keep [where i = i]) (auto simp: local_store(1))
  qed
  then show ?thesis using h' by blast
qed

lemma initial_commit:
  assumes "initial J ids s" "safe_inv h ids s" "ids_ok ids" shows "commit_inv h ids s"
proof -
  have e: "msgs s = {}" "elected s = {}" using assms(1) by (simp_all add: initial_def)
  have "nextIndex (nodes s i) = [] \<and> matchIndex (nodes s i) = [] \<and> role (nodes s i) = Follower \<and> commitIndex (nodes s i) = 0" if i: "i \<in> set ids" for i
  proof -
    obtain now cf m w n where n: "config_for ids i cf" "WriteAheadLog_new [] m = Inr w"
        "RaftNode_new J now cf KVStore_new (Some w) = Some n" "nodes s i = RaftNode_Start n"
      using assms(1) i unfolding initial_def by blast
    have w: "wal_holds J w []" using WriteAheadLog_new_empty [of m J] n(2) by auto
    have id: "id_ok (cf_nodeId cf)" "cf_nodeId cf \<noteq> []"
      using assms(3) i n(1) by (auto simp: ids_ok_def config_for_def list_all_iff)
    have "n = RaftNode_init now cf KVStore_new (Some w)" using fresh_node(1) [OF w id, of 0 now KVStore_new] n(3) wal_room_length [OF w, of 0] by simp
    then show ?thesis using n(4) by (simp add: RaftNode_Start_def RaftNode_init_def)
  qed
  then show ?thesis using e by (simp add: commit_inv_def own_last_def node_safe_def peers_ok_def committed_def)
qed

lemma restart_peers:
  assumes "restart_step J ids s s'"
  shows "nodes s' i = nodes s i \<or> nextIndex (nodes s' i) = [] \<and> matchIndex (nodes s' i) = []"
  using assms
proof cases
  case (restart j w m w' rec now n')
  have "nextIndex n' = [] \<and> matchIndex n' = []"
    using restart(7) by (auto simp: RaftNode_new_def RaftNode_init_def Let_def split: sum.splits option.splits bind_splits)
  then show ?thesis by (cases "i = j") (simp_all add: restart(1) RaftNode_Start_def)
qed

lemma restart_commit:
  assumes "restart_step J ids s s'" "logs_related (=) ids s s'" "reachable J ids s" "ids_ok ids" "safe_inv h ids s" "commit_inv h ids s"
  shows "commit_inv h ids s'"
proof -
  note r = restart_safe [OF assms(1-5)]
  have r': "reachable J ids s'" by (rule reachable.next_state [OF assms(3) step.restarted [OF assms(1)]])
  from r(3) obtain i n where n: "i \<in> set ids" "role n = Follower" "commitIndex n = snapshotIndex (rlog n)"
    "s' = (set_node i n s)\<lparr>elections := (elections s)(i := None)\<rparr>" by blast
  have "snapshotIndex (rlog n) = 0" using leader_node(1) [OF r(1) n(1)] n(4) by (simp add: node_ok_def)
  moreover have "peers_ok ids i (nodes s i)" using assms(6) n(1) by (simp add: commit_inv_def node_safe_def)
  then have "peers_ok ids i n" using restart_peers [OF assms(1), of i] by (auto simp: n(4) peers_ok_def)
  ultimately have "node_safe h ids s' i" using n(2-4) by (simp add: node_safe_def committed_def)
  then show ?thesis
    by (intro commit_inv_node [OF r(2) reachable_one_leader [OF r' assms(4)] assms(5) r(1) assms(6) leader_elected [OF reachable_inv [OF assms(3,4)]], where i = i])
      (auto simp: n(4))
qed

lemma run_commit:
  assumes "run J ids False (=) s" "ids_ok ids" shows "\<exists>h. safe_inv h ids s \<and> commit_inv h ids s"
  using assms(1)
proof (induction rule: run.induct)
  case (run_initial s)
  then show ?case using initial_safe initial_commit assms(2) by blast
next
  case (run_live s s')
  then obtain h where h: "safe_inv h ids s" "commit_inv h ids s" by blast
  show ?case
    using live_step_commit [OF run_live(2) run_reachable [OF run_live(1)] assms(2) h run_short [OF run_live(1) assms(2)]] by blast
next
  case (run_restart s s')
  then obtain h where h: "safe_inv h ids s" "commit_inv h ids s" by blast
  show ?case
    using restart_safe(1) [OF run_restart(2,3) run_reachable [OF run_restart(1)] assms(2) h(1)]
      restart_commit [OF run_restart(2,3) run_reachable [OF run_restart(1)] assms(2) h] by blast
qed simp

end

section \<open>The replicated store\<close>

text \<open>Every operation but the apply loop leaves the store and the last applied index alone.\<close>

definition machine_kept :: "RaftNode \<Rightarrow> RaftNode \<Rightarrow> bool" where
  "machine_kept n n' \<longleftrightarrow> store n' = store n \<and> lastApplied n' = lastApplied n"

lemma Persist_machine: "PersistHardState J n = Some n' \<Longrightarrow> machine_kept n n'"
  by (erule Persist_frame) (simp add: machine_kept_def)

lemma step_up_machine: "step_up J now t lead n = Some n' \<Longrightarrow> machine_kept n n'"
  by (auto simp: step_up_def machine_kept_def BecomeFollower_fields split: if_splits)

lemma StartElection_begin_machine:
  assumes "StartElection_begin J now n = Some (n', req)" shows "machine_kept n n'"
proof -
  obtain n1 where "PersistHardState J (n\<lparr>currentTerm := currentTerm n + 1, votedFor := nodeId n, role := Candidate\<rparr>) = Some n1"
      "n' = n1\<lparr>lastHeartbeat := now\<rparr>"
    using assms by (auto simp: StartElection_begin_def Let_def split: bind_splits)
  then show ?thesis using Persist_machine by (fastforce simp: machine_kept_def)
qed

lemma StartElection_response_machine:
  "StartElection_response J now t resp n votes = (n', votes', stop) \<Longrightarrow> machine_kept n n'"
  by (auto simp: StartElection_response_def machine_kept_def BecomeFollower_fields follower_state_def split: if_splits option.splits)

lemma HandleRequestVote_machine:
  assumes "HandleRequestVote J now req n = Some (n', resp)" shows "machine_kept n n'"
proof (cases "rv_term req < currentTerm n")
  case True
  then show ?thesis using assms by (simp add: HandleRequestVote_def machine_kept_def)
next
  case False
  then obtain n1 where n1: "step_up J now (rv_term req) [] n = Some n1"
    "n' = n1 \<or> PersistHardState J (ResetElectionTimer now (n1\<lparr>votedFor := rv_candidateId req\<rparr>)) = Some n'"
    using assms by (auto simp: HandleRequestVote_def Let_def split: bind_splits if_splits)
  then show ?thesis
    using step_up_machine [OF n1(1)] Persist_machine [of J "ResetElectionTimer now (n1\<lparr>votedFor := rv_candidateId req\<rparr>)" n']
    by (auto simp: machine_kept_def ResetElectionTimer_def)
qed

lemma HandleAppendEntries_machine:
  assumes "HandleAppendEntries J now req n = Some (n', resp)"
  shows "machine_kept n n'"
    "commitIndex n' = commitIndex n \<or> commitIndex n < ae_leaderCommit req \<and> commitIndex n' = min (ae_leaderCommit req) (LastIndex (rlog n'))"
proof -
  have "machine_kept n n' \<and>
    (commitIndex n' = commitIndex n \<or> commitIndex n < ae_leaderCommit req \<and> commitIndex n' = min (ae_leaderCommit req) (LastIndex (rlog n')))"
    using assms
  proof (cases rule: HandleAppendEntries_cases)
    case (mismatch n1)
    then show ?thesis using step_up_machine [OF mismatch(2)] step_up_indices [OF mismatch(2)]
      by (simp add: machine_kept_def indices_kept_def ResetElectionTimer_def)
  next
    case (appended n1 l)
    then show ?thesis using step_up_machine [OF appended(2)] step_up_indices [OF appended(2)] unfolding appended(4)
      by (auto simp: machine_kept_def indices_kept_def ResetElectionTimer_def)
  qed (simp add: machine_kept_def)
  then show "machine_kept n n'"
    "commitIndex n' = commitIndex n \<or> commitIndex n < ae_leaderCommit req \<and> commitIndex n' = min (ae_leaderCommit req) (LastIndex (rlog n'))" by blast+
qed

lemma ReplicateToPeer_response_machine:
  "machine_kept n (ReplicateToPeer_response J now p req resp n)" "commitIndex n \<le> commitIndex (ReplicateToPeer_response J now p req resp n)"
proof -
  have "commitIndex n \<le> commitIndex (AdvanceCommitIndex (n\<lparr>matchIndex := mi, nextIndex := ni\<rparr>))" for mi ni
    using commit_loop_spec [of "n\<lparr>matchIndex := mi, nextIndex := ni\<rparr>" "LastIndex (rlog n)"] by (simp add: AdvanceCommitIndex_def)
  then show "commitIndex n \<le> commitIndex (ReplicateToPeer_response J now p req resp n)"
    by (auto simp: ReplicateToPeer_response_def Let_def BecomeFollower_fields follower_state_def split: option.splits)
  show "machine_kept n (ReplicateToPeer_response J now p req resp n)"
    by (auto simp: ReplicateToPeer_response_def Let_def machine_kept_def AdvanceCommitIndex_frame BecomeFollower_fields follower_state_def split: option.splits)
qed

lemma Propose_begin_machine: "Propose_begin J key v opt ttl n = Some (n', r) \<Longrightarrow> machine_kept n n'"
  by (auto simp: Propose_begin_def machine_kept_def split: if_splits bind_splits)

text \<open>
  The store of a node is what the specification makes of the entries up to the last applied
  index, and these are committed.
\<close>

definition applied_ok :: "RaftNode \<Rightarrow> bool" where
  "applied_ok n \<longleftrightarrow> store_wf (store n) \<and> lastApplied n \<le> commitIndex n \<and>
     store_view (store n) = fold apply_spec (take (unat (lastApplied n)) (tl (entries (rlog n)))) (store_view KVStore_new)"

lemma take_tl: "take (Suc c) L = take (Suc c) L' \<Longrightarrow> take c (tl L) = take c (tl L')"
  by (metis diff_Suc_1 tl_take)

lemma applied_kept:
  assumes "protocol ids h s h' s'" "safe_inv h ids s" "node_safe h ids s i" "applied_ok (nodes s i)"
    "machine_kept (nodes s i) (nodes s' i)" "commitIndex (nodes s i) \<le> commitIndex (nodes s' i)"
  shows "applied_ok (nodes s' i)"
proof -
  let ?c = "unat (lastApplied (nodes s i))"
  have "committed h ids s (terms s i) (logs s i) ?c"
    using assms(3,4) committed_down unfolding node_safe_def applied_ok_def word_le_nat_alt by blast
  then have "?c \<noteq> 0 \<longrightarrow> take (Suc ?c) (logs s' i) = take (Suc ?c) (logs s i)" using committed_node(2) [OF assms(1,2)] by blast
  then have "take ?c (tl (logs s' i)) = take ?c (tl (logs s i))" using take_tl by (cases "?c = 0") auto
  then show ?thesis using assms(4-6) by (auto simp: applied_ok_def machine_kept_def)
qed

lemma applied_split:
  assumes "node_ok h n" "a \<le> c" "c \<le> LastIndex (rlog n)"
  shows "take (unat c) (tl (entries (rlog n))) = take (unat a) (tl (entries (rlog n))) @ entries_between (rlog n) a c"
proof -
  have "snapshotIndex (rlog n) = 0" using assms(1) by (simp add: node_ok_def)
  then have "entries_between (rlog n) a c = take (unat c - unat a) (drop (unat a) (tl (entries (rlog n))))"
    by (simp add: entries_between_def Offset_def drop_Suc)
  moreover have "unat c = unat a + (unat c - unat a)" using assms(2) by (simp add: word_le_nat_alt)
  ultimately show ?thesis by (metis take_add)
qed

lemma node_committed_last:
  assumes "safe_inv h ids s" "node_safe h ids s i" "i \<in> set ids"
  shows "commitIndex (nodes s i) \<le> LastIndex (rlog (nodes s i))"
proof -
  note g = node_get [OF leader_node(1) [OF assms(1,3)]]
  have "unat (commitIndex (nodes s i)) = 0 \<or> unat (commitIndex (nodes s i)) < length (logs s i)"
    using assms(2) by (auto simp: node_safe_def committed_def carries_def)
  then show ?thesis using g(1,5) by (metis length_greater_0_conv)
qed

lemma applied_turn:
  assumes "safe_inv h ids s" "node_safe h ids s i" "i \<in> set ids" "applied_ok (nodes s i)"
    "ApplyLoop_turn J clock now (nodes s i) = Some n'" "RaftLog_Size (rlog (nodes s i)) \<le> cf_snapshotThreshold (config (nodes s i))"
  shows "applied_ok n'"
proof -
  let ?n = "nodes s i"
  have n': "n' = ApplyLoop_inner clock ?n"
    using assms(5,6) ApplyLoop_inner_frame [of clock ?n] by (simp add: ApplyLoop_turn_def MaybeSnapshot_def)
  note f = ApplyLoop_inner_frame [of clock ?n] and last = node_committed_last [OF assms(1-3)] and nk = leader_node(1) [OF assms(1,3)]
  have ok: "store_wf (store ?n)" "lastApplied ?n \<le> commitIndex ?n"
    "store_view (store ?n) = fold apply_spec (take (unat (lastApplied ?n)) (tl (entries (rlog ?n)))) (store_view KVStore_new)"
    using assms(4) by (simp_all add: applied_ok_def)
  have wf: "log_wf (rlog ?n)" "snapshotIndex (rlog ?n) \<le> lastApplied ?n" using nk by (simp_all add: node_ok_def)
  note r = ApplyLoop_run [OF wf last, of clock] and k = kvm.run [OF ok(1), of "\<lambda>e. clock (le_index e)"]
  have "lastApplied n' = commitIndex ?n" using r ok(2) n' by (simp add: max_def)
  then show ?thesis using r k ok(3) f applied_split [OF nk ok(2) last] n' by (simp add: applied_ok_def)
qed

text \<open>
  The runs in which the stores change only by the apply loops, and a restarted node starts with
  an empty store.
\<close>

inductive replicated :: "'j json_ops \<Rightarrow> string list \<Rightarrow> cluster \<Rightarrow> bool" for J ids where
  replicated_initial: "initial J ids s \<Longrightarrow> replicated J ids s"
| replicated_live: "replicated J ids s \<Longrightarrow> live_step J ids s s' \<Longrightarrow> short ids s' \<Longrightarrow>
    (\<And>i. i \<in> set ids \<Longrightarrow> store (nodes s' i) = store (nodes s i) \<or> (\<exists>clock now. ApplyLoop_turn J clock now (nodes s i) = Some (nodes s' i))) \<Longrightarrow>
    replicated J ids s'"
| replicated_restart: "replicated J ids s \<Longrightarrow> restart_step J ids s s' \<Longrightarrow> logs_related (=) ids s s' \<Longrightarrow> short ids s' \<Longrightarrow>
    (\<And>i. i \<in> set ids \<Longrightarrow> nodes s' i = nodes s i \<or> store (nodes s' i) = KVStore_new) \<Longrightarrow> replicated J ids s'"

lemma replicated_run: "replicated J ids s \<Longrightarrow> run J ids b (=) s"
  by (induction rule: replicated.induct) (auto intro: run.intros)

context json_sized
begin

lemma live_step_applied:
  assumes "live_step J ids s s'" "reachable J ids s" "ids_ok ids" "protocol ids h s h' s'" "safe_inv h ids s" "safe_inv h' ids s'"
    "commit_inv h ids s" "short ids s" "j \<in> set ids" "applied_ok (nodes s j)"
    "store (nodes s' j) = store (nodes s j) \<or> (\<exists>clock now. ApplyLoop_turn J clock now (nodes s j) = Some (nodes s' j))"
  shows "applied_ok (nodes s' j)"
proof -
  have ns: "node_safe h ids s j" using assms(7,9) by (simp add: commit_inv_def)
  have size: "RaftLog_Size (rlog (nodes s j)) \<le> cf_snapshotThreshold (config (nodes s j))" using assms(8,9) by (simp add: short_def)
  note turn = applied_turn [OF assms(5) ns assms(9,10) _ size]
  have keep: "applied_ok (nodes s' j)" if "nodes s' j = (if j = i then n' else nodes s j)" "machine_kept (nodes s i) n'"
    "j = i \<Longrightarrow> commitIndex (nodes s i) \<le> commitIndex n'" for i n'
    using that by (intro applied_kept [OF assms(4,5) ns assms(10)]) (auto simp: machine_kept_def)
  have kept: "applied_ok (nodes s' j)" if "nodes s' j = (if j = i then n' else nodes s j)" "machine_kept (nodes s i) n'" "indices_kept (nodes s i) n'" for i n'
    using that by (intro keep [of i n']) (simp_all add: indices_kept_def)
  from assms(1) show ?thesis
  proof cases
    case (start_election i now timeout n' req)
    show ?thesis by (rule kept [OF _ StartElection_begin_machine [OF start_election(7)] StartElection_begin_indices [OF start_election(7)]]) (simp add: start_election(1))
  next
    case (vote i c req now n' resp)
    show ?thesis by (rule kept [OF _ HandleRequestVote_machine [OF vote(5)] HandleRequestVote_indices [OF vote(5)]]) (simp add: vote(1))
  next
    case (vote_response i e p ps resp now n' votes stop)
    show ?thesis by (rule kept [OF _ StartElection_response_machine [OF vote_response(7)] StartElection_response_indices [OF vote_response(7)]]) (simp add: vote_response(1))
  next
    case (vote_timeout i e p ps)
    then show ?thesis using assms(10) by simp
  next
    case (end_election i e n')
    have "n' = nodes s i \<or> BecomeLeader J (nodes s i) = Some n'" using end_election(6) by (auto simp: StartElection_end_def split: if_splits)
    then have "machine_kept (nodes s i) n'" "commitIndex n' = commitIndex (nodes s i)"
      by (auto simp: machine_kept_def elim!: BecomeLeader_fields)
    then show ?thesis by (intro keep [of i n']) (simp_all add: end_election(1))
  next
    case (replicate_request i p req)
    then show ?thesis using assms(10) by simp
  next
    case (append i l req now n' resp)
    note m = HandleAppendEntries_machine [OF append(5)]
    have "commitIndex (nodes s i) \<le> commitIndex n'" if "j = i"
    proof -
      have n': "n' = nodes s' j" using that by (simp add: append(1))
      have "committed h' ids s' (terms s' j) (logs s' j) (unat (commitIndex (nodes s j)))"
        using ns by (intro committed_node(1) [OF assms(4,5)]) (simp add: node_safe_def)
      then have "unat (commitIndex (nodes s j)) = 0 \<or> unat (commitIndex (nodes s j)) < length (logs s' j)" by (auto simp: committed_def carries_def)
      then have "commitIndex (nodes s j) \<le> LastIndex (rlog (nodes s' j))"
        using node_get(1,5) [OF leader_node(1) [OF assms(6,9)]] by (metis length_greater_0_conv)
      then show ?thesis using m(2) that n' by auto
    qed
    then show ?thesis using m(1) by (intro keep [of i n']) (simp_all add: append(1))
  next
    case (replicate_response i p req resp now)
    then show ?thesis using ReplicateToPeer_response_machine
      by (intro keep [of i "ReplicateToPeer_response J now p req resp (nodes s i)"]) simp_all
  next
    case (apply_committed i now clock n')
    then show ?thesis using turn assms(10) by (cases "j = i") simp_all
  next
    case (propose i key v opt ttl n' r)
    show ?thesis by (rule kept [OF _ Propose_begin_machine [OF propose(8)] Propose_begin_indices [OF propose(8)]]) (simp add: propose(1))
  next
    case (local_store i st)
    then show ?thesis using assms(10,11) turn by (cases "j = i") auto
  qed
qed

lemma initial_applied:
  assumes "initial J ids s" "ids_ok ids" "i \<in> set ids" shows "applied_ok (nodes s i)"
proof -
  obtain now cf m w n where n: "config_for ids i cf" "WriteAheadLog_new [] m = Inr w"
      "RaftNode_new J now cf KVStore_new (Some w) = Some n" "nodes s i = RaftNode_Start n"
    using assms(1,3) unfolding initial_def by blast
  have w: "wal_holds J w []" using WriteAheadLog_new_empty [of m J] n(2) by auto
  have id: "id_ok (cf_nodeId cf)" "cf_nodeId cf \<noteq> []"
    using assms(2,3) n(1) by (auto simp: ids_ok_def config_for_def list_all_iff)
  have "n = RaftNode_init now cf KVStore_new (Some w)" using fresh_node(1) [OF w id, of 0 now KVStore_new] n(3) wal_room_length [OF w, of 0] by simp
  then show ?thesis using n(4) by (simp add: RaftNode_Start_def RaftNode_init_def applied_ok_def store_wf_new)
qed

lemma restart_applied:
  assumes "restart_step J ids s s'" "safe_inv h ids s'" "i \<in> set ids" "applied_ok (nodes s i)"
    "nodes s' i = nodes s i \<or> store (nodes s' i) = KVStore_new"
  shows "applied_ok (nodes s' i)"
proof -
  have "nodes s' i = nodes s i \<or> lastApplied (nodes s' i) = snapshotIndex (rlog (nodes s' i))" using assms(1)
  proof cases
    case (restart j w m w' rec now n')
    have "lastApplied n' = snapshotIndex (rlog n')" using restart(7) recover_entries_snapshot
      by (fastforce simp: RaftNode_new_def RaftNode_init_def RaftLog_new_def SetSnapshot_def Let_def split: sum.splits option.splits bind_splits)
    then show ?thesis by (cases "i = j") (simp_all add: restart(1) RaftNode_Start_def)
  qed
  moreover have "snapshotIndex (rlog (nodes s' i)) = 0" using leader_node(1) [OF assms(2,3)] by (simp add: node_ok_def)
  ultimately show ?thesis using assms(4,5) by (auto simp: applied_ok_def store_wf_new)
qed

lemma replicated_inv:
  assumes "replicated J ids s" "ids_ok ids" shows "\<exists>h. safe_inv h ids s \<and> commit_inv h ids s \<and> (\<forall>i \<in> set ids. applied_ok (nodes s i))"
  using assms(1)
proof (induction rule: replicated.induct)
  case (replicated_initial s)
  then show ?case using initial_safe initial_commit initial_applied assms(2) by blast
next
  case (replicated_live s s')
  then obtain h where h: "safe_inv h ids s" "commit_inv h ids s" "\<forall>i \<in> set ids. applied_ok (nodes s i)" by blast
  note r = replicated_run [OF replicated_live(1), of False]
  note rs = run_reachable [OF r] run_short [OF r assms(2)]
  obtain h' where h': "protocol ids h s h' s'" "safe_inv h' ids s'" "commit_inv h' ids s'"
    using live_step_commit [OF replicated_live(2) rs(1) assms(2) h(1,2) rs(2)] by blast
  have "applied_ok (nodes s' i)" if "i \<in> set ids" for i
    by (rule live_step_applied [OF replicated_live(2) rs(1) assms(2) h'(1) h(1) h'(2) h(2) rs(2) that]) (use h(3) that replicated_live(4) in blast)+
  then show ?case using h' by blast
next
  case (replicated_restart s s')
  then obtain h where h: "safe_inv h ids s" "commit_inv h ids s" "\<forall>i \<in> set ids. applied_ok (nodes s i)" by blast
  note r = run_reachable [OF replicated_run [OF replicated_restart(1), of False]]
  note h' = restart_safe(1) [OF replicated_restart(2,3) r assms(2) h(1)]
  have "applied_ok (nodes s' i)" if "i \<in> set ids" for i
    by (rule restart_applied [OF replicated_restart(2) h' that]) (use h(3) that replicated_restart(5) in blast)+
  then show ?case using h' restart_commit [OF replicated_restart(2,3) r assms(2) h(1,2)] by blast
qed

end

section \<open>Committed entries\<close>

lemma commit_inv_committed: "commit_inv h ids s \<Longrightarrow> i \<in> set ids \<Longrightarrow> idx \<le> commitIndex (nodes s i) \<Longrightarrow> committed h ids s (terms s i) (logs s i) (unat idx)"
  using committed_down unfolding commit_inv_def node_safe_def word_le_nat_alt by blast

lemma committed_entry:
  assumes "safe_inv h ids s" "i \<in> set ids" "committed h ids s (terms s i) (logs s i) (unat idx)"
  shows "idx \<le> LastIndex (rlog (nodes s i))" "GetEntry idx (rlog (nodes s i)) = Inr (logs s i ! unat idx)"
proof -
  note g = node_get [OF leader_node(1) [OF assms(1,2)]]
  have "unat idx < length (logs s i)" using assms(3) g(5) by (auto simp: committed_def carries_def)
  then show "idx \<le> LastIndex (rlog (nodes s i))" "GetEntry idx (rlog (nodes s i)) = Inr (logs s i ! unat idx)" using g(1,3) by simp_all
qed

lemma same_first:
  assumes "safe_inv h ids s" "i \<in> set ids" "j \<in> set ids" "c \<noteq> 0 \<Longrightarrow> take (Suc c) (logs s i) = take (Suc c) (logs s j)"
  shows "logs s i ! c = logs s j ! c"
proof (cases "c = 0")
  case True
  have "logs s k ! 0 = sentinel" if "k \<in> set ids" for k using node_log(1) [OF assms(1) that] unfolding matches_def by (metis hd_conv_nth)
  then show ?thesis using True assms(2,3) by simp
next
  case False
  then show ?thesis using assms(4) by (metis lessI nth_take)
qed

end
