(* ===== verification/RaftSafety.thy ===== *)
theory RaftSafety
  imports StateMachineSafety
begin

text \<open>
  The safety properties of Raft for the cluster of \<open>Cluster\<close>: log matching, leader completeness,
  state machine safety and the convergence of the stores. A run of two nodes, from an empty
  directory to a value in both stores, shows that their hypotheses can hold.
\<close>

section \<open>A run of two nodes\<close>

text \<open>
  Two nodes that elect the first, which proposes a value, replicates and commits it, after which
  both apply it. The log files are abstract, so the lemmas follow what a node looks like otherwise.
\<close>

definition other_of :: "string \<Rightarrow> string" where
  "other_of i = (if i = ''a'' then ''b'' else ''a'')"

definition looks :: "string \<Rightarrow> u64 \<Rightarrow> LogEntry list \<Rightarrow> u64 \<Rightarrow> nat \<Rightarrow> RaftNode \<Rightarrow> bool" where
  "looks i t L c k n \<longleftrightarrow> node_inv json_text n \<and> log_room k (rlog n) \<and> config n = sample_config i [other_of i] \<and> currentTerm n = t \<and>
     entries (rlog n) = L \<and> snapshotIndex (rlog n) = 0 \<and> snapshotTerm (rlog n) = 0 \<and> commitIndex n = c \<and> lastApplied n = 0 \<and> store n = KVStore_new"

lemma looks_same:
  assumes "looks i t L c k n" "node_inv json_text n'" "log_room k' (rlog n')" "vote_kept n n'" "same_log n n'" "indices_kept n n'" "machine_kept n n'"
  shows "looks i (currentTerm n') L c k' n'"
  using assms by (simp add: looks_def vote_kept_def same_log_def indices_kept_def machine_kept_def)

lemma looks_log:
  assumes "looks i t L c k n"
  shows "LastIndex (rlog n) = le_index (last L)" "LastTerm (rlog n) = le_term (last L)"
    "GetEntry x (rlog n) = (if unat x < length L then Inr (L ! unat x) else Inl OutOfRange)"
    "peers n = [other_of i]" "nodeId n = i" "QuorumSize n = 2"
  using assms by (simp_all add: looks_def LastIndex_def LastTerm_def GetEntry_def Offset_def peers_def nodeId_def QuorumSize_def sample_config_def)

lemma first_look:
  assumes "wal_holds json_text w []" "i = ''a'' \<or> i = ''b''"
  defines "n \<equiv> RaftNode_Start (sample_node w i [other_of i])"
  shows "looks i 0 [sentinel] 0 9 n" "RaftNode_new json_text 0 (sample_config i [other_of i]) KVStore_new (Some w) = Some (sample_node w i [other_of i])"
    "nextIndex n = []" "matchIndex n = []" "role n = Follower" "running n" "lastHeartbeat n = 0"
proof -
  have id: "id_ok i" "i \<noteq> []" using assms(2) by (auto simp: id_ok_def)
  note s = sample_node_inv [OF assms(1) id, of "[other_of i]"]
  have "node_inv json_text n" using s(1) by (rule node_inv_cong) (simp_all add: n_def RaftNode_Start_def)
  then show "looks i 0 [sentinel] 0 9 n"
    using s(2) by (simp add: looks_def n_def RaftNode_Start_def sample_node_def RaftNode_init_def RaftLog_new_def sentinel_def)
  show "RaftNode_new json_text 0 (sample_config i [other_of i]) KVStore_new (Some w) = Some (sample_node w i [other_of i])"
    using jt.fresh_node(1) [OF assms(1), of "sample_config i [other_of i]" 0] wal_room_length [OF assms(1), of 0] id
    by (simp add: sample_node_def sample_config_def)
  show "nextIndex n = []" "matchIndex n = []" "role n = Follower" "running n" "lastHeartbeat n = 0"
    by (simp_all add: n_def RaftNode_Start_def sample_node_def RaftNode_init_def)
qed

lemma begin_look:
  assumes "looks i 0 [sentinel] 0 (Suc k) n"
  obtains n' where "StartElection_begin json_text 5 n = Some (n', sample_ballot i)" "looks i 1 [sentinel] 0 k n'" "role n' = Candidate" "indices_kept n n'"
proof -
  have n: "node_inv json_text n" "log_room (Suc k) (rlog n)" "currentTerm n = 0" using assms by (simp_all add: looks_def)
  have "log_room 1 (rlog n)" using log_room_mono [OF n(2), of 1] by simp
  then obtain n' req where e: "StartElection_begin json_text 5 n = Some (n', req)" using jt.StartElection_begin_ok [OF n(1)] by blast
  note b = jt.StartElection_begin_inv [OF n(1,2) e] and l = looks_log [OF assms]
  have "req = sample_ballot i" using b(3,8-11) l n(3) by (simp add: sample_ballot_def sentinel_def LogEntry_default_def)
  moreover have "looks i 1 [sentinel] 0 k n'"
    using assms b(1-3,6) StartElection_begin_same [OF e] StartElection_begin_indices [OF e] StartElection_begin_machine [OF e]
    by (simp add: looks_def same_log_def indices_kept_def machine_kept_def)
  ultimately show ?thesis using that e b(5) StartElection_begin_indices [OF e] by blast
qed

lemma vote_look:
  assumes "looks i 0 [sentinel] 0 (Suc (Suc k)) n" "c = ''a'' \<or> c = ''b''"
  obtains n' resp where "HandleRequestVote json_text 5 (sample_ballot c) n = Some (n', resp)" "vr_voteGranted resp" "vr_term resp = 0"
    "looks i 1 [sentinel] 0 k n'"
proof -
  have n: "node_inv json_text n" "log_room (Suc (Suc k)) (rlog n)" "currentTerm n = 0" using assms by (simp_all add: looks_def)
  have r: "log_room 2 (rlog n)" using log_room_mono [OF n(2), of 2] by simp
  have id: "id_ok (rv_candidateId (sample_ballot c))" using assms(2) by (auto simp: sample_ballot_def id_ok_def)
  note l = looks_log [OF assms(1)]
  obtain n' resp where e: "HandleRequestVote json_text 5 (sample_ballot c) n = Some (n', resp)" "vr_voteGranted resp"
    using jt.HandleRequestVote_outcome [OF n(1) r id, of 5] n(3) l
    by (auto simp: sample_ballot_def IsLogUpToDate_def sentinel_def LogEntry_default_def)
  note v = jt.HandleRequestVote_inv [OF n(1,2) id e(1)]
  have "looks i (currentTerm n') [sentinel] 0 k n'"
    by (rule looks_same [OF assms(1) v(1-3) HandleRequestVote_same [OF e(1)] HandleRequestVote_indices [OF e(1)] HandleRequestVote_machine [OF e(1)]])
  then show ?thesis using that e v(6,7) n(3) by (simp add: sample_ballot_def)
qed

definition entry_at :: "u64 \<Rightarrow> OpType \<Rightarrow> LogEntry \<Rightarrow> bool" where
  "entry_at i opt e \<longleftrightarrow> entry_fit e \<and> le_term e = 1 \<and> le_index e = i \<and> le_opType e = opt \<and> (opt = OpPut \<longrightarrow> le_key e = ''k'' \<and> le_value e = ''v'' \<and> le_ttl_ms e = 0)"

lemma Append_snapshot: "RaftLog_Append J e l = Some l' \<Longrightarrow> snapshotIndex l' = snapshotIndex l \<and> snapshotTerm l' = snapshotTerm l"
  by (auto simp: RaftLog_Append_def dest: log_write_frame(2,3))

lemma lead_look:
  assumes "looks ''a'' 1 [sentinel] 0 (Suc k) n" "role n = Candidate" "nextIndex n = []" "matchIndex n = []"
  obtains n' e where "BecomeLeader json_text n = Some n'" "looks ''a'' 1 [sentinel, e] 0 k n'" "entry_at 1 OpNoOp e" "role n' = Leader"
    "nextIndex n' = [(''b'', 1)]" "matchIndex n' = [(''b'', 0)]"
proof -
  have n: "node_inv json_text n" "log_room (Suc k) (rlog n)" "currentTerm n = 1" using assms by (simp_all add: looks_def)
  have "log_room 1 (rlog n)" using log_room_mono [OF n(2), of 1] by simp
  then obtain n' where e: "BecomeLeader json_text n = Some n'" using jt.BecomeLeader_ok [OF n(1)] by blast
  note v = jt.BecomeLeader_inv [OF n(1,2) assms(2) e] and l = looks_log [OF assms(1)]
  from e obtain x where x: "LogEntry_NoOp json_text (currentTerm n) (LastIndex (rlog n) + 1) = Some x"
    "RaftLog_Append json_text x (rlog n) = Some (rlog n')" "currentTerm n' = currentTerm n" "config n' = config n" "role n' = Leader"
    "commitIndex n' = commitIndex n" "lastApplied n' = lastApplied n" "store n' = store n" by (rule BecomeLeader_fields)
  have "le_opType x = OpNoOp" using x(1) by (auto simp: LogEntry_NoOp_def split: bind_splits)
  then have "entry_at 1 OpNoOp x" using jt.NoOp_fit [OF x(1)] n(3) l(1) by (simp add: entry_at_def sentinel_def LogEntry_default_def)
  moreover have "looks ''a'' 1 [sentinel, x] 0 k n'"
    using assms(1) v x(3-8) Append_entries [OF x(2)] Append_snapshot [OF x(2)] by (simp add: looks_def)
  moreover have "nextIndex n' = nextIndex (reset_progress (LastIndex (rlog n)) (n\<lparr>role := Leader, leaderId := nodeId n\<rparr>))"
      "matchIndex n' = matchIndex (reset_progress (LastIndex (rlog n)) (n\<lparr>role := Leader, leaderId := nodeId n\<rparr>))"
    using e by (auto simp: BecomeLeader_def Let_def split: bind_splits)
  then have "nextIndex n' = [(''b'', 1)]" "matchIndex n' = [(''b'', 0)]"
    using l(1,4) assms(3,4) by (simp_all add: reset_progress_lists peers_def other_of_def sentinel_def LogEntry_default_def)
  ultimately show ?thesis using that e x(5) by blast
qed

lemma propose_look:
  assumes "looks ''a'' 1 [sentinel, e] 0 (Suc k) n" "role n = Leader" "entry_at 1 OpNoOp e"
  obtains n' r e' where "Propose_begin json_text ''k'' ''v'' OpPut 0 n = Some (n', r)" "looks ''a'' 1 [sentinel, e, e'] 0 k n'" "entry_at 2 OpPut e'"
    "role n' = Leader" "nextIndex n' = nextIndex n" "matchIndex n' = matchIndex n"
proof -
  have n: "node_inv json_text n" "log_room (Suc k) (rlog n)" "currentTerm n = 1" using assms by (simp_all add: looks_def)
  note l = looks_log [OF assms(1)]
  let ?e = "LogEntry_default\<lparr>le_term := currentTerm n, le_index := LastIndex (rlog n) + 1, le_opType := OpPut,
            le_key := ''k'', le_value := ''v'', le_ttl_ms := 0\<rparr>"
  have "entry_ok ?e" by (simp add: entry_ok_def LogEntry_default_def OpType_wf_def)
  then obtain c where "LogEntry_Serialize json_text ?e = Some c" using jt.LogEntry_roundtrip by blast
  then obtain x where x: "propose_entry json_text ''k'' ''v'' OpPut 0 n = Some x" by (simp add: propose_entry_def)
  note f = jt.propose_entry_fit [OF x]
  have fit: "entry_at 2 OpPut x" using f n(3) l(1) assms(3) by (simp add: entry_at_def OpType_wf_def)
  have "log_room 1 (rlog n)" using log_room_mono [OF n(2), of 1] by simp
  moreover obtain rs where "log_held json_text (rlog n) rs" using n(1) by (auto simp: node_inv_def node_durable_def)
  ultimately obtain l' where l': "RaftLog_Append json_text x (rlog n) = Some l'"
    using jt.Append_ok [of "rlog n" rs x] fit by (auto simp: entry_at_def)
  let ?n = "n\<lparr>rlog := l'\<rparr>"
  have p: "Propose_begin json_text ''k'' ''v'' OpPut 0 n = Some (?n, Inr (le_index x))" using x l' assms(2) by (simp add: Propose_begin_def)
  have "node_inv json_text ?n" "log_room k (rlog ?n)"
    by (rule jt.Propose_begin_inv [OF n(1,2) _ _ _ _ p]; simp add: OpType_wf_def)+
  then have "looks ''a'' 1 [sentinel, e, x] 0 k ?n"
    using assms(1) Append_entries [OF l'] Append_snapshot [OF l'] by (simp add: looks_def)
  then show ?thesis using that [OF p _ fit] assms(2) by simp
qed

text \<open>The request to the follower, and how it takes it.\<close>

definition sample_request :: "u64 \<Rightarrow> LogEntry list \<Rightarrow> u64 \<Rightarrow> AppendEntriesRequest" where
  "sample_request p es c = \<lparr>ae_term = 1, ae_leaderId = ''a'', ae_prevLogIndex = p, ae_prevLogTerm = (if p = 0 then 0 else 1),
     ae_entries = es, ae_leaderCommit = c\<rparr>"

lemma request_look:
  assumes "looks ''a'' 1 [sentinel, e, e'] c k n" "role n = Leader" "entry_at 1 OpNoOp e" "entry_at 2 OpPut e'"
  shows "nextIndex n = [(''b'', 1)] \<Longrightarrow> ReplicateToPeer_request ''b'' n = Some (sample_request 0 [e, e'] c)"
    "nextIndex n = [(''b'', 3)] \<Longrightarrow> ReplicateToPeer_request ''b'' n = Some (sample_request 2 [] c)"
proof -
  note l = looks_log [OF assms(1)]
  have t: "entries (rlog n) = [sentinel, e, e']" "snapshotIndex (rlog n) = 0" "snapshotTerm (rlog n) = 0" "currentTerm n = 1" "commitIndex n = c"
    using assms(1) by (simp_all add: looks_def)
  have f: "LastIndex (rlog n) = 2" "le_term e' = 1" using l(1) assms(4) by (simp_all add: entry_at_def)
  show "ReplicateToPeer_request ''b'' n = Some (sample_request 0 [e, e'] c)" if "nextIndex n = [(''b'', 1)]"
    using that assms(2) t f l(3,5) 
    by (simp add: ReplicateToPeer_request_def sample_request_def GetTerm_def collect_loop.simps sentinel_def LogEntry_default_def)
  show "ReplicateToPeer_request ''b'' n = Some (sample_request 2 [] c)" if "nextIndex n = [(''b'', 3)]"
    using that assms(2) t f l(3,5) 
    by (simp add: ReplicateToPeer_request_def sample_request_def GetTerm_def Offset_def collect_loop.simps)
qed

lemma append_look:
  assumes "looks ''b'' 1 [sentinel] 0 (Suc (2 + k)) n" "entry_at 1 OpNoOp e" "entry_at 2 OpPut e'"
  obtains n' where "HandleAppendEntries json_text 6 (sample_request 0 [e, e'] 0) n = Some (n', (AppendEntriesResponse_new 1)\<lparr>ar_success := True\<rparr>)"
    "looks ''b'' 1 [sentinel, e, e'] 0 k n'"
proof -
  let ?q = "sample_request 0 [e, e'] 0"
  have n: "node_inv json_text n" "log_room (Suc (length (ae_entries ?q) + k)) (rlog n)" "currentTerm n = 1" "entries (rlog n) = [sentinel]"
      "snapshotIndex (rlog n) = 0" "snapshotTerm (rlog n) = 0" "commitIndex n = 0"
    using assms(1) by (simp_all add: looks_def sample_request_def)
  have fit: "list_all entry_fit (ae_entries ?q)" using assms(2,3) by (simp add: sample_request_def entry_at_def)
  obtain rs w where w: "rl_wal (rlog n) = Some w" "wal_holds json_text w rs" using n(1) by (auto simp: node_inv_def node_durable_def log_held_def)
  have "wal_room (length [e, e'] + Suc k) w" using n(2) w(1) by (simp add: log_room_def sample_request_def)
  moreover have "list_all (entry_durable json_text) [e, e']" using assms(2,3) jt.entry_fit_durable by (simp add: entry_at_def)
  ultimately obtain l where l: "RaftLog_AppendAll json_text [e, e'] (rlog n) = Some l"
    using jt.AppendAll_holds [OF w] by blast
  have up: "step_up json_text 6 (ae_term ?q) (ae_leaderId ?q) n = Some n" using n(3) by (simp add: step_up_def sample_request_def)
  let ?n = "(ResetElectionTimer 6 n)\<lparr>leaderId := ''a'', rlog := l\<rparr>"
  have h: "HandleAppendEntries json_text 6 ?q n = Some (?n, (AppendEntriesResponse_new 1)\<lparr>ar_success := True\<rparr>)"
    using HandleAppendEntries_eq [OF _ up] n(3,7) l by (simp add: sample_request_def Let_def ResetElectionTimer_def del: RaftLog_AppendAll.simps)
  note v = jt.HandleAppendEntries_inv [OF n(1,2) fit h]
  have wf: "log_wf (rlog n)" using n(4-6) by (simp add: log_wf_def sentinel_def LogEntry_default_def)
  have "follows 0 [e, e']" using assms(2,3) by (simp add: entry_at_def)
  then have "entries l = [sentinel, e, e']" "snapshotIndex l = 0" "log_wf l"
    using AppendAll_merge [OF wf _ _ _ _ l, of 0] n(4,5) by (simp_all add: Offset_def LastIndex_def sentinel_def LogEntry_default_def)
  then have "looks ''b'' 1 [sentinel, e, e'] 0 k ?n"
    using v(1,2) assms(1) by (simp add: looks_def ResetElectionTimer_def log_wf_def sentinel_def LogEntry_default_def)
  then show ?thesis using that h by blast
qed

lemma commit_look:
  assumes "looks ''b'' 1 [sentinel, e, e'] 0 (Suc k) n" "entry_at 1 OpNoOp e" "entry_at 2 OpPut e'"
  obtains n' resp where "HandleAppendEntries json_text 7 (sample_request 2 [] 2) n = Some (n', resp)" "looks ''b'' 1 [sentinel, e, e'] 2 k n'"
proof -
  let ?q = "sample_request 2 [] 2"
  have n: "node_inv json_text n" "log_room (Suc (length (ae_entries ?q) + k)) (rlog n)" "currentTerm n = 1" "commitIndex n = 0"
      "entries (rlog n) = [sentinel, e, e']" "snapshotIndex (rlog n) = 0"
    using assms(1) by (simp_all add: looks_def sample_request_def)
  note l = looks_log [OF assms(1)]
  have up: "step_up json_text 7 (ae_term ?q) (ae_leaderId ?q) n = Some n" using n(3) by (simp add: step_up_def sample_request_def)
  have last: "LastIndex (rlog n) = 2" "GetTerm 2 (rlog n) = 1" using l(1) assms(3) n(5,6) by (simp_all add: entry_at_def GetTerm_def Offset_def)
  let ?n = "(ResetElectionTimer 7 n)\<lparr>leaderId := ''a'', commitIndex := 2\<rparr>"
  have h: "HandleAppendEntries json_text 7 ?q n = Some (?n, (AppendEntriesResponse_new 1)\<lparr>ar_success := True\<rparr>)"
    using HandleAppendEntries_eq [OF _ up] n(3,4) last by (simp add: sample_request_def Let_def ResetElectionTimer_def)
  note v = jt.HandleAppendEntries_inv [OF n(1,2) _ h]
  have "looks ''b'' 1 [sentinel, e, e'] 2 k ?n" using v(1,2) assms(1) by (simp add: looks_def ResetElectionTimer_def sample_request_def)
  then show ?thesis using that h by blast
qed

lemma response_look:
  assumes "looks ''a'' 1 [sentinel, e, e'] 0 (Suc k) n" "role n = Leader" "nextIndex n = [(''b'', 1)]" "matchIndex n = [(''b'', 0)]"
    "entry_at 1 OpNoOp e" "entry_at 2 OpPut e'"
  defines "n' \<equiv> ReplicateToPeer_response json_text 6 ''b'' (sample_request 0 [e, e'] 0) ((AppendEntriesResponse_new 1)\<lparr>ar_success := True\<rparr>) n"
  shows "looks ''a'' 1 [sentinel, e, e'] 2 k n'" "role n' = Leader" "nextIndex n' = [(''b'', 3)]"
proof -
  have n: "node_inv json_text n" "log_room (Suc k) (rlog n)" "currentTerm n = 1" "commitIndex n = 0"
      "entries (rlog n) = [sentinel, e, e']" "snapshotIndex (rlog n) = 0" using assms(1) by (simp_all add: looks_def)
  note l = looks_log [OF assms(1)]
  note v = jt.ReplicateToPeer_response_inv [OF n(1,2) n'_def [THEN meta_eq_to_obj_eq]]
  have last: "LastIndex (rlog n) = 2" "GetTerm 2 (rlog n) = 1" using l(1) assms(6) n(5,6) by (simp_all add: entry_at_def GetTerm_def Offset_def)
  have n': "n' = n\<lparr>matchIndex := [(''b'', 2)], nextIndex := [(''b'', 3)], commitIndex := 2\<rparr>"
    using assms(2-4) n(3,4) last l(6)
    by (simp add: n'_def ReplicateToPeer_response_def AppendEntriesResponse_new_def sample_request_def um_get_def AdvanceCommitIndex_def
        commit_loop.simps QuorumSize_def)
  show "looks ''a'' 1 [sentinel, e, e'] 2 k n'" using v(1,2) assms(1) unfolding n' by (simp add: looks_def)
  show "role n' = Leader" "nextIndex n' = [(''b'', 3)]" using assms(2) by (simp_all add: n')
qed

context json_sized
begin

lemma one_entry_fits:
  assumes "utf8_valid k" "utf8_valid (kv_value v)" "length k + length (kv_value v) < 2 ^ 22" "data st = [(k, v)]"
  shows "snapshot_fits J now st"
proof -
  let ?es = "filter (\<lambda>(_, v). \<not> expired now v) (data st)"
  have es: "?es = [] \<or> ?es = [(k, v)]" using assms(4) by simp
  have b: "built J (KVEntry_json J (k, v))" using assms(1,2) unfolding KVEntry_json_def prod.case by (intro built_obj) (auto intro: built_intros)
  have "built J (j_arr J (map (KVEntry_json J) ?es))" using es b by (auto intro: built_intros)
  then obtain d where d: "j_dump J (j_arr J (map (KVEntry_json J) ?es)) = Some d" "utf8_valid d" by (rule dumpE)
  have "dsize J (KVEntry_json J (k, v)) < 2 ^ 28"
    using dsize_obj [of "[(''key'', j_str J k), (''value'', j_str J (kv_value v)), (''version'', j_u64 J (kv_version v)),
      (''raft_index'', j_u64 J (kv_raftIndex v)), (''expires_ms'', j_i64 J (case kv_expiresAt v of None \<Rightarrow> - 1 | Some t \<Rightarrow> word_of_int (to_ms t)))]"]
      dsize_str [of k] dsize_str [of "kv_value v"] dsize_u64 [of "kv_version v"] dsize_u64 [of "kv_raftIndex v"]
      dsize_i64 [of "case kv_expiresAt v of None \<Rightarrow> - 1 | Some t \<Rightarrow> word_of_int (to_ms t)"] assms(3)
    by (simp add: KVEntry_json_def)
  then have "length d < 2 ^ 29" using dump_length [OF d(1)] dsize_arr [of "map (KVEntry_json J) ?es"] es by auto
  then show ?thesis using d by (simp add: snapshot_fits_def TakeSnapshot_def)
qed

end

lemma apply_look:
  assumes "looks i 1 [sentinel, e, e'] 2 k n" "entry_at 1 OpNoOp e" "entry_at 2 OpPut e'"
  defines "n' \<equiv> ApplyLoop_inner (\<lambda>_. 8) n"
  shows "ApplyLoop_turn json_text (\<lambda>_. 8) 8 n = Some n'" "snapshot_fits json_text 8 (store n')" "store_view (store n') ''k'' = Some (''v'', 1, 2)"
    "lastApplied n' = 2"
proof -
  note l = looks_log [OF assms(1)] and f = ApplyLoop_inner_frame [of "\<lambda>_. 8" n]
  have n: "commitIndex n = 2" "lastApplied n = 0" "store n = KVStore_new" "entries (rlog n) = [sentinel, e, e']" "config n = sample_config i [other_of i]"
    using assms(1) by (simp_all add: looks_def)
  have e: "le_opType e = OpNoOp" "le_opType e' = OpPut" "le_key e' = ''k''" "le_value e' = ''v''" "le_index e' = 2" "le_ttl_ms e' = 0"
    using assms(2,3) by (simp_all add: entry_at_def)
  let ?x = "\<lparr>kv_value = ''v'', kv_version = 1, kv_raftIndex = 2, kv_createdAt = 8, kv_updatedAt = 8, kv_expiresAt = None\<rparr>"
  have x: "store n' = KVStore_new\<lparr>data := [(''k'', ?x)]\<rparr> \<and> lastApplied n' = 2"
    unfolding n'_def using n l(3) e
    by (simp add: ApplyLoop_inner.simps ApplyEntry_def KVStore_Put_def KVStore_new_def Let_def om_find_def)
  show "ApplyLoop_turn json_text (\<lambda>_. 8) 8 n = Some n'"
    using f n(4,5) by (simp add: ApplyLoop_turn_def n'_def MaybeSnapshot_def RaftLog_Size_def sample_config_def RaftConfig_default_def)
  show "snapshot_fits json_text 8 (store n')" using x by (intro jt.one_entry_fits [of "''k''" ?x]) simp_all
  show "store_view (store n') ''k'' = Some (''v'', 1, 2)" using x by (simp add: store_view_def KVStore_new_def om_find_def)
  show "lastApplied n' = 2" using x by simp
qed

abbreviation pair :: "string list" where
  "pair \<equiv> [''a'', ''b'']"

text \<open>A state of the two nodes on the way, with what they look like.\<close>

definition pair_state :: "LogEntry list \<Rightarrow> u64 \<Rightarrow> nat \<Rightarrow> LogEntry list \<Rightarrow> u64 \<Rightarrow> nat \<Rightarrow> cluster \<Rightarrow> bool" where
  "pair_state L c k L' c' k' s \<longleftrightarrow> replicated json_text pair s \<and> looks ''a'' 1 L c k (nodes s ''a'') \<and> looks ''b'' 1 L' c' k' (nodes s ''b'')"

lemma looks_small:
  assumes "looks i t L c k n" "length L \<le> 3"
  shows "RaftLog_Size (rlog n) \<le> cf_snapshotThreshold (config n) \<and> length (entries (rlog n)) < 2 ^ 63"
proof -
  have "length L - 1 \<le> 10000" "length L < 2 ^ 63" using assms(2) by simp_all
  then show ?thesis using assms(1) by (simp add: looks_def RaftLog_Size_def sample_config_def RaftConfig_default_def)
qed

lemma looks_short:
  assumes "looks ''a'' t L c k (nodes s ''a'')" "looks ''b'' t' L' c' k' (nodes s ''b'')" "length L \<le> 3" "length L' \<le> 3"
  shows "short pair s"
  unfolding short_def using looks_small [OF assms(1,3)] looks_small [OF assms(2,4)] by simp

lemma pair_next:
  assumes "replicated json_text pair s" "live_step json_text pair s s'" "looks ''a'' t L c k (nodes s' ''a'')" "looks ''b'' t' L' c' k' (nodes s' ''b'')"
    "length L \<le> 3" "length L' \<le> 3" "\<And>i. i \<in> set pair \<Longrightarrow> store (nodes s i) = KVStore_new"
  shows "replicated json_text pair s'"
  by (rule replicated_live [OF assms(1,2) looks_short [OF assms(3-6)]]) (use assms(3,4,7) in \<open>auto simp: looks_def\<close>)

lemma looks_store: "looks i t L c k n \<Longrightarrow> store n = KVStore_new"
  by (simp add: looks_def)

lemma looks_room: "looks i t L c k n \<Longrightarrow> j \<le> k \<Longrightarrow> log_room j (rlog n)"
  unfolding looks_def using log_room_mono by blast

lemma pair_campaigns:
  "\<exists>s. replicated json_text pair s \<and> looks ''a'' 1 [sentinel] 0 8 (nodes s ''a'') \<and> looks ''b'' 0 [sentinel] 0 9 (nodes s ''b'') \<and>
     role (nodes s ''a'') = Candidate \<and> nextIndex (nodes s ''a'') = [] \<and> matchIndex (nodes s ''a'') = [] \<and>
     VoteReq ''a'' ''b'' (sample_ballot ''a'') \<in> msgs s \<and>
     elections s ''a'' = Some \<lparr>el_req = sample_ballot ''a'', el_votes = 1, el_pending = [''b''], el_granted = []\<rparr>"
proof -
  obtain w where w: "WriteAheadLog_new [] 64 = Inr w" "wal_holds json_text w []"
    using WriteAheadLog_new_empty [of 64 json_text] by blast
  let ?n = "\<lambda>i. RaftNode_Start (sample_node w i [other_of i])"
  define s0 where "s0 = \<lparr>nodes = ?n, msgs = {}, elections = (\<lambda>_. None), ballots = {}, elected = {}\<rparr>"
  note fa = first_look [OF w(2), of "''a''", simplified] and fb = first_look [OF w(2), of "''b''", simplified]
  have cf: "config_for pair i (sample_config i [other_of i])" if "i \<in> set pair" for i
    using that by (auto simp: config_for_def sample_config_def other_of_def)
  have "initial json_text pair s0" using w(1) cf fa(2) fb(2) unfolding initial_def s0_def by (simp; blast)
  then have r0: "replicated json_text pair s0" by (rule replicated_initial)
  have look0: "looks ''a'' 0 [sentinel] 0 (Suc 8) (nodes s0 ''a'')" "looks ''b'' 0 [sentinel] 0 9 (nodes s0 ''b'')"
    using fa(1) fb(1) by (simp_all add: s0_def)
  obtain n1 where n1: "StartElection_begin json_text 5 (nodes s0 ''a'') = Some (n1, sample_ballot ''a'')" "looks ''a'' 1 [sentinel] 0 8 n1"
    "role n1 = Candidate" "indices_kept (nodes s0 ''a'') n1" by (rule begin_look [OF look0(1)])
  have p1: "peers n1 = [''b'']" using looks_log(4) [OF n1(2)] by (simp add: other_of_def)
  define s1 where "s1 = (send ((\<lambda>p. VoteReq ''a'' p (sample_ballot ''a'')) ` set (peers n1)) (add_ballot ''a'' (set_node ''a'' n1 s0)))
       \<lparr>elections := (elections s0)(''a'' := Some \<lparr>el_req = sample_ballot ''a'', el_votes = 1, el_pending = peers n1, el_granted = []\<rparr>)\<rparr>"
  have s1: "nodes s1 ''a'' = n1" "nodes s1 ''b'' = nodes s0 ''b''" "VoteReq ''a'' ''b'' (sample_ballot ''a'') \<in> msgs s1"
    "elections s1 ''a'' = Some \<lparr>el_req = sample_ballot ''a'', el_votes = 1, el_pending = [''b''], el_granted = []\<rparr>"
    by (simp_all add: s1_def p1)
  have "live_step json_text pair s0 s1" unfolding s1_def
    by (rule live_step.start_election [where now = 5 and timeout = 5])
      (use n1(1) looks_room [OF look0(1), of 1] fa(4-7) in \<open>simp_all add: s0_def election_due_def RaftNode_Start_def sample_node_def RaftNode_init_def\<close>)
  then have "replicated json_text pair s1"
    by (rule pair_next [OF r0]) (use n1(2) look0 looks_store in \<open>auto simp: s1(1,2)\<close>)
  moreover have "nextIndex n1 = []" "matchIndex n1 = []" using n1(4) fa(3,4) by (simp_all add: indices_kept_def s0_def)
  ultimately show ?thesis using s1 n1(2,3) look0(2) by metis
qed

lemma pair_votes:
  "\<exists>s resp. replicated json_text pair s \<and> looks ''a'' 1 [sentinel] 0 8 (nodes s ''a'') \<and> looks ''b'' 1 [sentinel] 0 7 (nodes s ''b'') \<and>
     role (nodes s ''a'') = Candidate \<and> nextIndex (nodes s ''a'') = [] \<and> matchIndex (nodes s ''a'') = [] \<and>
     VoteResp ''b'' ''a'' (sample_ballot ''a'') resp \<in> msgs s \<and> vr_voteGranted resp \<and> vr_term resp = 0 \<and>
     elections s ''a'' = Some \<lparr>el_req = sample_ballot ''a'', el_votes = 1, el_pending = [''b''], el_granted = []\<rparr>"
proof -
  obtain s where s: "replicated json_text pair s" "looks ''a'' 1 [sentinel] 0 8 (nodes s ''a'')" "looks ''b'' 0 [sentinel] 0 (Suc (Suc 7)) (nodes s ''b'')"
    "role (nodes s ''a'') = Candidate" "nextIndex (nodes s ''a'') = []" "matchIndex (nodes s ''a'') = []"
    "VoteReq ''a'' ''b'' (sample_ballot ''a'') \<in> msgs s"
    "elections s ''a'' = Some \<lparr>el_req = sample_ballot ''a'', el_votes = 1, el_pending = [''b''], el_granted = []\<rparr>"
    using pair_campaigns by auto
  obtain n resp where n: "HandleRequestVote json_text 5 (sample_ballot ''a'') (nodes s ''b'') = Some (n, resp)" "vr_voteGranted resp" "vr_term resp = 0"
    "looks ''b'' 1 [sentinel] 0 7 n" using vote_look [OF s(3), of "''a''"] by blast
  define s' where "s' = send {VoteResp ''b'' ''a'' (sample_ballot ''a'') resp}
    (if vr_voteGranted resp then add_ballot ''b'' (set_node ''b'' n s) else set_node ''b'' n s)"
  have s': "nodes s' ''a'' = nodes s ''a''" "nodes s' ''b'' = n" "elections s' = elections s" "VoteResp ''b'' ''a'' (sample_ballot ''a'') resp \<in> msgs s'"
    using n(2) by (simp_all add: s'_def)
  have "live_step json_text pair s s'" unfolding s'_def
    by (rule live_step.vote [where now = 5]) (use n(1) s(7) looks_room [OF s(3), of 2] in simp_all)
  then have "replicated json_text pair s'" by (rule pair_next [OF s(1)]) (use n(4) s(2,3) looks_store in \<open>auto simp: s'(1,2)\<close>)
  then show ?thesis using s' n(2-4) s(2,4-6,8) by metis
qed

lemma pair_elects:
  "\<exists>s e. pair_state [sentinel, e] 0 7 [sentinel] 0 7 s \<and> entry_at 1 OpNoOp e \<and> role (nodes s ''a'') = Leader \<and>
     nextIndex (nodes s ''a'') = [(''b'', 1)] \<and> matchIndex (nodes s ''a'') = [(''b'', 0)]"
proof -
  obtain s resp where s: "replicated json_text pair s" "looks ''a'' 1 [sentinel] 0 (Suc 7) (nodes s ''a'')" "looks ''b'' 1 [sentinel] 0 7 (nodes s ''b'')"
    "role (nodes s ''a'') = Candidate" "nextIndex (nodes s ''a'') = []" "matchIndex (nodes s ''a'') = []"
    "VoteResp ''b'' ''a'' (sample_ballot ''a'') resp \<in> msgs s" "vr_voteGranted resp" "vr_term resp = 0"
    "elections s ''a'' = Some \<lparr>el_req = sample_ballot ''a'', el_votes = 1, el_pending = [''b''], el_granted = []\<rparr>"
    using pair_votes by auto
  let ?e = "\<lparr>el_req = sample_ballot ''a'', el_votes = 1, el_pending = [''b''], el_granted = []\<rparr>"
  let ?e' = "\<lparr>el_req = sample_ballot ''a'', el_votes = 2, el_pending = [], el_granted = [''b'']\<rparr>"
  have t: "currentTerm (nodes s ''a'') = 1" "rv_term (sample_ballot ''a'') = 1" using s(2) by (simp_all add: looks_def sample_ballot_def)
  define s1 where "s1 = (set_node ''a'' (nodes s ''a'') s)\<lparr>elections := (elections s)(''a'' := (if False then None else
    Some (?e\<lparr>el_votes := 2, el_pending := [], el_granted := (if 2 = el_votes ?e then el_granted ?e else ''b'' # el_granted ?e)\<rparr>)))\<rparr>"
  have s1: "nodes s1 = nodes s" "elections s1 ''a'' = Some ?e'" by (simp_all add: s1_def set_node_def)
  have "live_step json_text pair s s1" unfolding s1_def
    by (rule live_step.vote_response [where resp = resp and now = 5])
      (use s(4,7-10) t looks_room [OF s(2), of 1] in \<open>simp_all add: StartElection_response_def\<close>)
  then have r1: "replicated json_text pair s1" by (rule pair_next [OF s(1)]) (use s(2,3) looks_store in \<open>auto simp: s1(1)\<close>)
  obtain n e where n: "BecomeLeader json_text (nodes s ''a'') = Some n" "looks ''a'' 1 [sentinel, e] 0 7 n" "entry_at 1 OpNoOp e" "role n = Leader"
    "nextIndex n = [(''b'', 1)]" "matchIndex n = [(''b'', 0)]" by (rule lead_look [OF s(2,4-6)])
  define s2 where "s2 = (set_node ''a'' n s1)\<lparr>elections := (elections s1)(''a'' := None),
    elected := (if role n = Leader \<and> role (nodes s1 ''a'') \<noteq> Leader then insert (currentTerm n, ''a'') (elected s1) else elected s1)\<rparr>"
  have s2: "nodes s2 ''a'' = n" "nodes s2 ''b'' = nodes s ''b''" by (simp_all add: s2_def s1(1))
  have "live_step json_text pair s1 s2" unfolding s2_def
    by (rule live_step.end_election [where e = ?e'])
      (use n(1) s(4) s1 t looks_room [OF s(2), of 1] looks_log(6) [OF s(2)] in \<open>simp_all add: StartElection_end_def\<close>)
  then have "replicated json_text pair s2" by (rule pair_next [OF r1]) (use n(2) s(2,3) looks_store in \<open>auto simp: s2 s1(1)\<close>)
  then show ?thesis using n(2-6) s(3) s2 unfolding pair_state_def by metis
qed

lemma pair_proposes:
  "\<exists>s e e'. pair_state [sentinel, e, e'] 0 6 [sentinel] 0 7 s \<and> entry_at 1 OpNoOp e \<and> entry_at 2 OpPut e' \<and> role (nodes s ''a'') = Leader \<and>
     nextIndex (nodes s ''a'') = [(''b'', 1)] \<and> matchIndex (nodes s ''a'') = [(''b'', 0)] \<and> AppReq ''a'' ''b'' (sample_request 0 [e, e'] 0) \<in> msgs s"
proof -
  obtain s e where s: "replicated json_text pair s" "looks ''a'' 1 [sentinel, e] 0 (Suc 6) (nodes s ''a'')" "looks ''b'' 1 [sentinel] 0 7 (nodes s ''b'')"
    "entry_at 1 OpNoOp e" "role (nodes s ''a'') = Leader" "nextIndex (nodes s ''a'') = [(''b'', 1)]" "matchIndex (nodes s ''a'') = [(''b'', 0)]"
    using pair_elects unfolding pair_state_def by auto
  obtain n r e' where n: "Propose_begin json_text ''k'' ''v'' OpPut 0 (nodes s ''a'') = Some (n, r)" "looks ''a'' 1 [sentinel, e, e'] 0 6 n" "entry_at 2 OpPut e'"
    "role n = Leader" "nextIndex n = nextIndex (nodes s ''a'')" "matchIndex n = matchIndex (nodes s ''a'')" by (rule propose_look [OF s(2,5,4)])
  define s1 where "s1 = set_node ''a'' n s"
  have s1: "nodes s1 ''a'' = n" "nodes s1 ''b'' = nodes s ''b''" by (simp_all add: s1_def)
  have "live_step json_text pair s s1" unfolding s1_def
    by (rule live_step.propose) (use n(1) looks_room [OF s(2), of 1] in \<open>simp_all add: OpType_wf_def\<close>)
  then have r1: "replicated json_text pair s1" by (rule pair_next [OF s(1)]) (use n(2) s(2,3) looks_store in \<open>auto simp: s1\<close>)
  define s2 where "s2 = send {AppReq ''a'' ''b'' (sample_request 0 [e, e'] 0)} s1"
  have s2: "nodes s2 ''a'' = n" "nodes s2 ''b'' = nodes s ''b''" "AppReq ''a'' ''b'' (sample_request 0 [e, e'] 0) \<in> msgs s2" by (simp_all add: s2_def s1)
  have "live_step json_text pair s1 s2" unfolding s2_def
    by (rule live_step.replicate_request)
      (use request_look(1) [OF n(2,4) s(4) n(3)] n(5) s(6) looks_log(4) [OF n(2)] in \<open>simp_all add: s1 other_of_def\<close>)
  then have "replicated json_text pair s2" by (rule pair_next [OF r1]) (use n(2) s(3) looks_store in \<open>auto simp: s1 s2\<close>)
  then show ?thesis using s2 n s(3,4,6,7) unfolding pair_state_def by metis
qed

lemma pair_commits:
  "\<exists>s e e'. pair_state [sentinel, e, e'] 2 5 [sentinel, e, e'] 0 4 s \<and> entry_at 1 OpNoOp e \<and> entry_at 2 OpPut e' \<and> role (nodes s ''a'') = Leader \<and>
     nextIndex (nodes s ''a'') = [(''b'', 3)]"
proof -
  obtain s e e' where s: "replicated json_text pair s" "looks ''a'' 1 [sentinel, e, e'] 0 (Suc 5) (nodes s ''a'')" "looks ''b'' 1 [sentinel] 0 (Suc (2 + 4)) (nodes s ''b'')"
    "entry_at 1 OpNoOp e" "entry_at 2 OpPut e'" "role (nodes s ''a'') = Leader" "nextIndex (nodes s ''a'') = [(''b'', 1)]"
    "matchIndex (nodes s ''a'') = [(''b'', 0)]" "AppReq ''a'' ''b'' (sample_request 0 [e, e'] 0) \<in> msgs s"
    using pair_proposes unfolding pair_state_def by auto
  let ?q = "sample_request 0 [e, e'] 0" and ?r = "(AppendEntriesResponse_new 1)\<lparr>ar_success := True\<rparr>"
  obtain n where n: "HandleAppendEntries json_text 6 ?q (nodes s ''b'') = Some (n, ?r)" "looks ''b'' 1 [sentinel, e, e'] 0 4 n"
    by (rule append_look [OF s(3-5)])
  define s1 where "s1 = send {AppResp ''b'' ''a'' ?q ?r} (set_node ''b'' n s)"
  have s1: "nodes s1 ''a'' = nodes s ''a''" "nodes s1 ''b'' = n" "AppResp ''b'' ''a'' ?q ?r \<in> msgs s1" by (simp_all add: s1_def)
  have "live_step json_text pair s s1" unfolding s1_def
    by (rule live_step.append [where now = 6]) (use n(1) s(9) looks_room [OF s(3), of "Suc (Suc (Suc 0))"] in \<open>simp_all add: sample_request_def\<close>)
  then have r1: "replicated json_text pair s1" by (rule pair_next [OF s(1)]) (use n(2) s(2,3) looks_store in \<open>auto simp: s1\<close>)
  let ?n = "ReplicateToPeer_response json_text 6 ''b'' ?q ?r (nodes s ''a'')"
  note a = response_look [OF s(2,6-8,4,5)]
  have "live_step json_text pair s1 (set_node ''a'' (ReplicateToPeer_response json_text 6 ''b'' ?q ?r (nodes s1 ''a'')) s1)"
    by (rule live_step.replicate_response)
      (use s1 s(2) looks_room [OF s(2), of 1] in \<open>simp_all add: sample_request_def looks_def\<close>)
  then have l: "live_step json_text pair s1 (set_node ''a'' ?n s1)" by (simp add: s1(1))
  have "replicated json_text pair (set_node ''a'' ?n s1)"
    by (rule pair_next [OF r1 l]) (use n(2) a(1) s(2) looks_store in \<open>auto simp: s1\<close>)
  then have "pair_state [sentinel, e, e'] 2 5 [sentinel, e, e'] 0 4 (set_node ''a'' ?n s1)" using a(1) n(2) s1(2) by (simp add: pair_state_def)
  then show ?thesis using a(2,3) s(4,5) by (intro exI [of _ "set_node ''a'' ?n s1"] exI [of _ e] exI [of _ e']) simp
qed

lemma pair_agrees:
  "\<exists>s e e'. pair_state [sentinel, e, e'] 2 5 [sentinel, e, e'] 2 3 s \<and> entry_at 1 OpNoOp e \<and> entry_at 2 OpPut e' \<and> role (nodes s ''a'') = Leader"
proof -
  obtain s e e' where s: "replicated json_text pair s" "looks ''a'' 1 [sentinel, e, e'] 2 5 (nodes s ''a'')"
    "looks ''b'' 1 [sentinel, e, e'] 0 (Suc 3) (nodes s ''b'')" "entry_at 1 OpNoOp e" "entry_at 2 OpPut e'" "role (nodes s ''a'') = Leader"
    "nextIndex (nodes s ''a'') = [(''b'', 3)]" using pair_commits unfolding pair_state_def by auto
  let ?q = "sample_request 2 [] 2"
  define s1 where "s1 = send {AppReq ''a'' ''b'' ?q} s"
  have s1: "nodes s1 = nodes s" "AppReq ''a'' ''b'' ?q \<in> msgs s1" by (simp_all add: s1_def)
  have "live_step json_text pair s s1" unfolding s1_def
    by (rule live_step.replicate_request) (use request_look(2) [OF s(2,6,4,5,7)] looks_log(4) [OF s(2)] in \<open>simp_all add: other_of_def\<close>)
  then have r1: "replicated json_text pair s1" by (rule pair_next [OF s(1)]) (use s(2,3) looks_store in \<open>auto simp: s1\<close>)
  obtain n resp where n: "HandleAppendEntries json_text 7 ?q (nodes s ''b'') = Some (n, resp)" "looks ''b'' 1 [sentinel, e, e'] 2 3 n"
    by (rule commit_look [OF s(3-5)])
  define s2 where "s2 = send {AppResp ''b'' ''a'' ?q resp} (set_node ''b'' n s1)"
  have s2: "nodes s2 ''a'' = nodes s ''a''" "nodes s2 ''b'' = n" by (simp_all add: s2_def s1)
  have "live_step json_text pair s1 s2" unfolding s2_def
    by (rule live_step.append [where now = 7]) (use n(1) s1 looks_room [OF s(3), of 1] in \<open>simp_all add: sample_request_def\<close>)
  then have "replicated json_text pair s2" by (rule pair_next [OF r1]) (use n(2) s(2,3) looks_store in \<open>auto simp: s1 s2\<close>)
  then show ?thesis using n(2) s(2,4-6) s2 unfolding pair_state_def by metis
qed

lemma pair_applies:
  "\<exists>s. replicated json_text pair s \<and> lastApplied (nodes s ''a'') = 2 \<and> lastApplied (nodes s ''b'') = 2 \<and>
     store_view (store (nodes s ''a'')) ''k'' = Some (''v'', 1, 2)"
proof -
  obtain s e e' where s: "replicated json_text pair s" "looks ''a'' 1 [sentinel, e, e'] 2 5 (nodes s ''a'')"
    "looks ''b'' 1 [sentinel, e, e'] 2 3 (nodes s ''b'')" "entry_at 1 OpNoOp e" "entry_at 2 OpPut e'"
    using pair_agrees unfolding pair_state_def by auto
  let ?a = "ApplyLoop_inner (\<lambda>_. 8) (nodes s ''a'')" and ?b = "ApplyLoop_inner (\<lambda>_. 8) (nodes s ''b'')"
  let ?s1 = "set_node ''a'' ?a s"
  note a = apply_look [OF s(2,4,5)] and fa = ApplyLoop_inner_frame [of "\<lambda>_. 8" "nodes s ''a''"]
  note b = apply_look [OF s(3,4,5)] and fb = ApplyLoop_inner_frame [of "\<lambda>_. 8" "nodes s ''b''"]
  note small = looks_small [OF s(2), simplified] looks_small [OF s(3), simplified]
  have "live_step json_text pair s ?s1" by (rule live_step.apply_committed [OF _ looks_room [OF s(2)] a(2,1)]) simp_all
  moreover have "short pair ?s1" using small fa by (simp add: short_def)
  ultimately have r: "replicated json_text pair ?s1" by (rule replicated_live [OF s(1)]) (use a(1) in auto)
  have l: "live_step json_text pair ?s1 (set_node ''b'' ?b ?s1)"
    by (rule live_step.apply_committed [where now = 8 and clock = "\<lambda>_. 8"]) (use b(1,2) looks_room [OF s(3), of 1] in simp_all)
  have "short pair (set_node ''b'' ?b ?s1)" using small fa fb by (simp add: short_def)
  then have "replicated json_text pair (set_node ''b'' ?b ?s1)" by (rule replicated_live [OF r l]) (use b(1) in auto)
  then show ?thesis using a(3,4) b(4) by (intro exI [of _ "set_node ''b'' ?b ?s1"]) simp
qed

section \<open>Properties\<close>

lemma pair_ok: "ids_ok pair"
  by (simp add: ids_ok_def id_ok_def)

lemma run_weaken: "run J ids False (=) s \<Longrightarrow> run J ids True prefix s"
  by (induction rule: run.induct) (auto intro: run.intros simp: logs_related_def)


text \<open>
  C2: state machine safety. In every run in which restarted nodes recover their logs, no log
  outgrows the snapshot threshold and answers come in the term of their request: whatever two
  nodes have committed at an index is the same entry.
\<close>

theorem state_machine_safety:
  assumes "json_sized J" "ids_ok ids" "run J ids False (=) s" "i \<in> set ids" "j \<in> set ids"
    "idx \<le> commitIndex (nodes s i)" "idx \<le> commitIndex (nodes s j)"
  shows "\<exists>e. GetEntry idx (rlog (nodes s i)) = Inr e \<and> GetEntry idx (rlog (nodes s j)) = Inr e"
proof -
  obtain h where h: "safe_inv h ids s" "commit_inv h ids s" using json_sized.run_commit [OF assms(1,3,2)] by blast
  note c = commit_inv_committed [OF h(2) assms(4,6)] commit_inv_committed [OF h(2) assms(5,7)]
  have "logs s i ! unat idx = logs s j ! unat idx" by (rule same_first [OF h(1) assms(4,5) committed_agree [OF h(1) c]])
  then show ?thesis using committed_entry(2) [OF h(1) assms(4) c(1)] committed_entry(2) [OF h(1) assms(5) c(2)] by simp
qed



section \<open>Witnesses\<close>


theorem state_machine_safety_witness:
  "\<exists>s e. run json_text pair False (=) s \<and> commitIndex (nodes s ''a'') = 2 \<and> commitIndex (nodes s ''b'') = 2 \<and>
     GetEntry 2 (rlog (nodes s ''a'')) = Inr e \<and> GetEntry 2 (rlog (nodes s ''b'')) = Inr e"
proof -
  obtain s e e' where s: "replicated json_text pair s" "looks ''a'' 1 [sentinel, e, e'] 2 5 (nodes s ''a'')"
    "looks ''b'' 1 [sentinel, e, e'] 2 3 (nodes s ''b'')" using pair_agrees unfolding pair_state_def by blast
  note r = replicated_run [OF s(1), of False]
  have c: "commitIndex (nodes s ''a'') = 2" "commitIndex (nodes s ''b'') = 2" using s(2,3) by (simp_all add: looks_def)
  have "\<exists>e. GetEntry 2 (rlog (nodes s ''a'')) = Inr e \<and> GetEntry 2 (rlog (nodes s ''b'')) = Inr e"
    by (rule state_machine_safety [OF jt.json_sized_axioms pair_ok r]) (simp_all add: c)
  then show ?thesis using r c by blast
qed



end
