(* ===== verification/RaftTransport.thy ===== *)
theory RaftTransport
  imports RaftNode "HOL-Library.Multiset"
begin

text \<open>
  \<open>raft/RaftPeer\<close> and \<open>raft/RaftRpcServer\<close>: the client and the server side of the RPC
  connections between nodes. The socket is what arrives and leaves: a connection is the list
  of chunks \<open>recv\<close> returns and the bytes sent. Promises are numbers; resolving one is an
  event of its number and either the reason of a failure or the payload. \<open>None\<close> is an
  abnormal end of the process: an uncaught exception, \<open>std::terminate\<close> or undefined behaviour.
\<close>

section \<open>Streams of chunks\<close>

text \<open>
  What both receive loops do: append a chunk to the bytes left over from the last one and
  run an inner loop that takes the complete frames off the front.
\<close>

fun feed_chunks :: "('b list \<Rightarrow> 's \<Rightarrow> ('b list \<times> 's) option) \<Rightarrow> 'b list list \<Rightarrow> 'b list \<Rightarrow> 's \<Rightarrow> ('b list \<times> 's) option" where
  "feed_chunks loop [] buf s = Some (buf, s)"
| "feed_chunks loop (d # ds) buf s = do { (buf', s') \<leftarrow> loop (buf @ d) s; feed_chunks loop ds buf' s' }"

section \<open>\<open>RaftPeer\<close>\<close>

type_synonym promise = nat

type_synonym resolution = "promise \<times> (string + string)"

record RaftPeer =
  rp_peerId :: string
  rp_host :: string
  rp_port :: u16
  rp_sockfd :: bool       \<comment> \<open>the socket is open\<close>
  rp_connected :: bool
  rp_recvRunning :: bool
  rp_recvThread :: bool   \<comment> \<open>\<open>recvThread_.joinable()\<close>\<close>
  rp_seqGen :: u32
  rp_pending :: "(u32 \<times> promise) list"

text \<open>\<open>ok\<close>: the address resolves and the connection is made. Assigning to a joinable thread terminates.\<close>

definition Connect :: "bool \<Rightarrow> RaftPeer \<Rightarrow> RaftPeer option" where
  "Connect ok p =
     (if \<not> ok then Some p
      else if rp_recvThread p then None
      else Some (p\<lparr>rp_sockfd := True, rp_connected := True, rp_recvRunning := True, rp_recvThread := True\<rparr>))"

definition RaftPeer_new :: "bool \<Rightarrow> string \<Rightarrow> string \<Rightarrow> u16 \<Rightarrow> RaftPeer option" where
  "RaftPeer_new ok peerId host port =
     Connect ok \<lparr>rp_peerId = peerId, rp_host = host, rp_port = port, rp_sockfd = False, rp_connected = False,
       rp_recvRunning = False, rp_recvThread = False, rp_seqGen = 0, rp_pending = []\<rparr>"

definition Disconnect :: "RaftPeer \<Rightarrow> RaftPeer \<times> resolution list" where
  "Disconnect p =
     (p\<lparr>rp_connected := False, rp_sockfd := False, rp_pending := []\<rparr>,
      map (\<lambda>(seq, pr). (pr, Inl ''peer disconnected'')) (rp_pending p))"

text \<open>
  The inner loop of \<open>RecvLoop\<close>, on the bytes not consumed yet. It may run forever: a frame
  of length 0xFFFFFFF7 in a buffer of four gigabytes consumes nothing.
\<close>

partial_function (option) resolve_frames ::
  "u8 list \<Rightarrow> (u32 \<times> promise) list \<times> resolution list \<Rightarrow> (u8 list \<times> (u32 \<times> promise) list \<times> resolution list) option" where
  "resolve_frames buf st =
     (case RpcFrame_Decode buf of
        Inl _ \<Rightarrow> None
      | Inr None \<Rightarrow> Some (buf, st)
      | Inr (Some (frame, c)) \<Rightarrow>
          resolve_frames (drop c buf)
            (case map_of (fst st) (fr_seq frame) of
               None \<Rightarrow> st
             | Some pr \<Rightarrow> (AList.delete (fr_seq frame) (fst st), snd st @ [(pr, Inr (fr_payload frame))])))"

text \<open>
  \<open>RecvLoop\<close> on the chunks received; the connection ends behind them. The thread stays
  joinable: nothing joins it but the destructor.
\<close>

definition RecvLoop :: "u8 list list \<Rightarrow> RaftPeer \<Rightarrow> (RaftPeer \<times> resolution list) option" where
  "RecvLoop chunks p =
     do { (_, pending, rs) \<leftarrow> feed_chunks resolve_frames chunks [] (rp_pending p, []);
          let (p', rs') = Disconnect (p\<lparr>rp_pending := pending\<rparr>) in Some (p', rs @ rs') }"

definition RaftPeer_destroy :: "RaftPeer \<Rightarrow> RaftPeer \<times> resolution list" where
  "RaftPeer_destroy p = (let (p', rs) = Disconnect (p\<lparr>rp_recvRunning := False\<rparr>) in (p'\<lparr>rp_recvThread := False\<rparr>, rs))"

text \<open>\<open>accept k\<close> is what \<open>send\<close> returns when \<open>k\<close> bytes are left: at most \<open>k\<close>, not positive on an error.\<close>

function send_loop :: "(nat \<Rightarrow> int) \<Rightarrow> u8 list \<Rightarrow> u8 list \<times> bool" where
  "send_loop accept [] = ([], True)"
| "send_loop accept (b # bs) =
     (let n = accept (length (b # bs)) in
      if n \<le> 0 then ([], False)
      else let k = nat n; (sent, ok) = send_loop accept (drop k (b # bs)) in (take k (b # bs) @ sent, ok))"
  by pat_completeness auto
termination
  by (relation "measure (\<lambda>(_, bs). length bs)") auto

definition SendRaw :: "(nat \<Rightarrow> int) \<Rightarrow> u8 list \<Rightarrow> RaftPeer \<Rightarrow> (RaftPeer \<times> resolution list \<times> u8 list) \<times> bool" where
  "SendRaw accept bytes p =
     (if \<not> rp_sockfd p then ((p, [], []), False)
      else let (sent, ok) = send_loop accept bytes in
        if ok then ((p, [], sent), True)
        else let (p', rs) = Disconnect p in ((p', rs, sent), False))"

definition NextSeq :: "RaftPeer \<Rightarrow> u32 \<times> RaftPeer" where
  "NextSeq p = (rp_seqGen p, p\<lparr>rp_seqGen := rp_seqGen p + 1\<rparr>)"

text \<open>
  The two RPCs differ in the frame type and the serialiser only. \<open>inner\<close> is the promise
  registered for the answer. The result is the reason of an immediate failure, or
  nothing when the answer is awaited.
\<close>

definition send_rpc ::
  "RpcType \<Rightarrow> string option \<Rightarrow> bool \<Rightarrow> (nat \<Rightarrow> int) \<Rightarrow> promise \<Rightarrow> RaftPeer \<Rightarrow>
   (RaftPeer \<times> resolution list \<times> u8 list \<times> string option) option" where
  "send_rpc ty payload ok accept inner p =
     (let (seq, p1) = NextSeq p in
      do { p2 \<leftarrow> (if \<not> rp_connected p1 then Connect ok p1 else Some p1);
           if \<not> rp_connected p2 then Some (p2, [], [], Some ''peer not connected'')
           else do {
             let p3 = p2\<lparr>rp_pending := AList.update seq inner (rp_pending p2)\<rparr>;
             body \<leftarrow> payload;
             (case RpcFrame_Encode \<lparr>fr_type = ty, fr_seq = seq, fr_payload = body\<rparr> of
                Inl _ \<Rightarrow> None
              | Inr bytes \<Rightarrow>
                  let ((p4, rs, sent), done) = SendRaw accept bytes p3 in
                  if \<not> done then Some (p4\<lparr>rp_pending := AList.delete seq (rp_pending p4)\<rparr>, rs, sent, Some ''send failed'')
                  else Some (p4, rs, sent, None)) } })"

definition SendAppendEntries ::
  "'j json_ops \<Rightarrow> AppendEntriesRequest \<Rightarrow> bool \<Rightarrow> (nat \<Rightarrow> int) \<Rightarrow> promise \<Rightarrow> RaftPeer \<Rightarrow>
   (RaftPeer \<times> resolution list \<times> u8 list \<times> string option) option" where
  "SendAppendEntries J req = send_rpc AppendEntriesReq (AppendEntriesRequest_Serialize J req)"

definition SendRequestVote ::
  "'j json_ops \<Rightarrow> RequestVoteRequest \<Rightarrow> bool \<Rightarrow> (nat \<Rightarrow> int) \<Rightarrow> promise \<Rightarrow> RaftPeer \<Rightarrow>
   (RaftPeer \<times> resolution list \<times> u8 list \<times> string option) option" where
  "SendRequestVote J req = send_rpc RequestVoteReq (RequestVoteRequest_Serialize J req)"

text \<open>The waiting thread: \<open>None\<close> is a timeout, otherwise how the inner promise was resolved.\<close>

definition await_rpc :: "(string \<Rightarrow> 'r option) \<Rightarrow> (string + string) option \<Rightarrow> string + 'r" where
  "await_rpc deserialize r =
     (case r of
        None \<Rightarrow> Inl ''RPC timeout''
      | Some (Inl e) \<Rightarrow> Inl e
      | Some (Inr payload) \<Rightarrow> (case deserialize payload of None \<Rightarrow> Inl ''json exception'' | Some resp \<Rightarrow> Inr resp))"

definition await_AppendEntries :: "'j json_ops \<Rightarrow> (string + string) option \<Rightarrow> string + AppendEntriesResponse" where
  "await_AppendEntries J = await_rpc (AppendEntriesResponse_Deserialize J)"

definition await_RequestVote :: "'j json_ops \<Rightarrow> (string + string) option \<Rightarrow> string + RequestVoteResponse" where
  "await_RequestVote J = await_rpc (RequestVoteResponse_Deserialize J)"

section \<open>\<open>RaftRpcServer\<close>\<close>

text \<open>
  A connection of the server: the node, the bytes sent back and the number of requests
  handled. \<open>others k\<close> is what the other threads do to the node before request \<open>k\<close> of the
  connection, \<open>clock k\<close> the clock then.
\<close>

record rpc_conn =
  cn_node :: RaftNode
  cn_out :: "u8 list"
  cn_count :: nat

definition handle_request ::
  "'j json_ops \<Rightarrow> (nat \<Rightarrow> time) \<Rightarrow> (nat \<Rightarrow> RaftNode \<Rightarrow> RaftNode) \<Rightarrow> RpcFrame \<Rightarrow> rpc_conn \<Rightarrow> (RpcType \<times> string \<times> RaftNode) option" where
  "handle_request J clock others req c =
     (let n = others (cn_count c) (cn_node c); now = clock (cn_count c) in
      if fr_type req = AppendEntriesReq then
        do { r \<leftarrow> AppendEntriesRequest_Deserialize J (fr_payload req);
             (n', resp) \<leftarrow> HandleAppendEntries J now r n;
             s \<leftarrow> AppendEntriesResponse_Serialize J resp;
             Some (AppendEntriesResp, s, n') }
      else
        do { r \<leftarrow> RequestVoteRequest_Deserialize J (fr_payload req);
             (n', resp) \<leftarrow> HandleRequestVote J now r n;
             s \<leftarrow> RequestVoteResponse_Serialize J resp;
             Some (RequestVoteResp, s, n') })"

definition answer ::
  "'j json_ops \<Rightarrow> (nat \<Rightarrow> time) \<Rightarrow> (nat \<Rightarrow> RaftNode \<Rightarrow> RaftNode) \<Rightarrow> RpcFrame \<Rightarrow> rpc_conn \<Rightarrow> rpc_conn option" where
  "answer J clock others req c =
     do { (ty, s, n') \<leftarrow> handle_request J clock others req c;
          (case RpcFrame_Encode \<lparr>fr_type = ty, fr_seq = fr_seq req, fr_payload = s\<rparr> of
             Inl _ \<Rightarrow> None
           | Inr encoded \<Rightarrow> Some (c\<lparr>cn_node := n', cn_out := cn_out c @ encoded, cn_count := Suc (cn_count c)\<rparr>)) }"

partial_function (option) serve_frames ::
  "'j json_ops \<Rightarrow> (nat \<Rightarrow> time) \<Rightarrow> (nat \<Rightarrow> RaftNode \<Rightarrow> RaftNode) \<Rightarrow> u8 list \<Rightarrow> rpc_conn \<Rightarrow> (u8 list \<times> rpc_conn) option" where
  "serve_frames J clock others buf c =
     (case RpcFrame_Decode buf of
        Inl _ \<Rightarrow> None
      | Inr None \<Rightarrow> Some (buf, c)
      | Inr (Some (req, k)) \<Rightarrow>
          if fr_type req = AppendEntriesReq \<or> fr_type req = RequestVoteReq
          then do { c' \<leftarrow> answer J clock others req c; serve_frames J clock others (drop k buf) c' }
          else Some (drop k buf, c))"

definition HandleConn ::
  "'j json_ops \<Rightarrow> (nat \<Rightarrow> time) \<Rightarrow> (nat \<Rightarrow> RaftNode \<Rightarrow> RaftNode) \<Rightarrow> u8 list list \<Rightarrow> RaftNode \<Rightarrow> (RaftNode \<times> u8 list) option" where
  "HandleConn J clock others chunks n =
     do { (_, c) \<leftarrow> feed_chunks (serve_frames J clock others) chunks [] \<lparr>cn_node = n, cn_out = [], cn_count = 0\<rparr>;
          Some (cn_node c, cn_out c) }"

section \<open>Framed streams\<close>

primrec fold_opt :: "('f \<Rightarrow> 's \<Rightarrow> 's option) \<Rightarrow> 'f list \<Rightarrow> 's \<Rightarrow> 's option" where
  "fold_opt step [] s = Some s"
| "fold_opt step (f # fs) s = Option.bind (step f s) (fold_opt step fs)"

lemma fold_opt_append: "fold_opt step (fs @ gs) s = Option.bind (fold_opt step fs s) (fold_opt step gs)"
  by (induction fs arbitrary: s) (auto split: bind_splits)

text \<open>
  The contract between a frame format and a receive loop: whole frames decode whatever
  follows them, proper prefixes ask for more bytes, and the loop performs a step per frame.
  Then the way a stream is cut into chunks makes no difference.
\<close>

locale framed_stream =
  fixes encode :: "'f \<Rightarrow> 'b list"
    and decode :: "'b list \<Rightarrow> 'e + ('f \<times> nat) option"
    and good :: "'f \<Rightarrow> bool"
    and step :: "'f \<Rightarrow> 's \<Rightarrow> 's option"
    and loop :: "'b list \<Rightarrow> 's \<Rightarrow> ('b list \<times> 's) option"
  assumes decode_nil: "decode [] = Inr None"
    and decode_whole: "good f \<Longrightarrow> decode (encode f @ rest) = Inr (Some (f, length (encode f)))"
    and decode_part: "good f \<Longrightarrow> strict_prefix p (encode f) \<Longrightarrow> decode p = Inr None"
    and loop_stop: "decode b = Inr None \<Longrightarrow> loop b s = Some (b, s)"
    and loop_step: "good f \<Longrightarrow> decode b = Inr (Some (f, k)) \<Longrightarrow> loop b s = Option.bind (step f s) (loop (drop k b))"
begin

definition clean :: "'f list \<Rightarrow> 'b list \<Rightarrow> bool" where
  "clean fs b \<longleftrightarrow> b = [] \<or> (\<exists>f fs'. fs = f # fs' \<and> strict_prefix b (encode f))"

lemma loop_frames:
  "list_all good fs \<Longrightarrow> decode p = Inr None \<Longrightarrow>
     loop (concat (map encode fs) @ p) s = map_option (Pair p) (fold_opt step fs s)"
proof (induction fs arbitrary: s)
  case (Cons f fs)
  then have "decode (concat (map encode (f # fs)) @ p) = Inr (Some (f, length (encode f)))"
    using decode_whole [of f "concat (map encode fs) @ p"] by simp
  with Cons loop_step show ?case by (auto split: bind_splits)
qed (simp add: loop_stop)

lemma prefix_frames:
  "prefix x (concat (map encode fs)) \<Longrightarrow>
     \<exists>fs1 fs2 p. fs = fs1 @ fs2 \<and> x = concat (map encode fs1) @ p \<and> clean fs2 p"
proof (induction fs arbitrary: x)
  case (Cons f fs)
  show ?case
  proof (cases "strict_prefix x (encode f)")
    case True
    then show ?thesis by (intro exI [of _ "[]"] exI [of _ "f # fs"] exI [of _ x]) (simp add: clean_def)
  next
    case False
    then obtain y where y: "x = encode f @ y" "prefix y (concat (map encode fs))"
      using Cons.prems by (auto simp: prefix_append strict_prefix_def)
    then obtain fs1 fs2 p where "fs = fs1 @ fs2" "y = concat (map encode fs1) @ p" "clean fs2 p" using Cons.IH by blast
    with y(1) show ?thesis by (intro exI [of _ "f # fs1"] exI [of _ fs2] exI [of _ p]) simp
  qed
qed (simp add: clean_def)

lemma clean_decode: "list_all good fs \<Longrightarrow> clean fs b \<Longrightarrow> decode b = Inr None"
  by (auto simp: clean_def decode_nil decode_part)

lemma chunks:
  "list_all good fs \<Longrightarrow> clean fs b \<Longrightarrow> b @ concat ds = concat (map encode fs) \<Longrightarrow>
     feed_chunks loop ds b s = map_option (Pair []) (fold_opt step fs s)"
proof (induction ds arbitrary: fs b s)
  case Nil
  have "fs = []"
  proof (cases fs)
    case (Cons f fs')
    with Nil have "b = encode f @ concat (map encode fs')" "b = [] \<or> strict_prefix b (encode f)" by (auto simp: clean_def)
    moreover have "encode f \<noteq> []" using Nil.prems(1) Cons decode_whole [of f "[]"] decode_nil by auto
    ultimately show ?thesis by (auto simp: strict_prefix_def prefix_def)
  qed
  with Nil show ?case by simp
next
  case (Cons d ds)
  then have "prefix (b @ d) (concat (map encode fs))" by (metis append.assoc concat.simps(2) prefixI)
  then obtain fs1 fs2 p where p: "fs = fs1 @ fs2" "b @ d = concat (map encode fs1) @ p" "clean fs2 p"
    using prefix_frames by blast
  have "(b @ d) @ concat ds = concat (map encode fs1) @ concat (map encode fs2)" using Cons.prems(3) p(1) by simp
  then have g: "p @ concat ds = concat (map encode fs2)" unfolding p(2) by simp
  have l: "list_all good fs1" "list_all good fs2" using Cons.prems(1) p(1) by simp_all
  have "loop (b @ d) s = map_option (Pair p) (fold_opt step fs1 s)"
    unfolding p(2) by (rule loop_frames [OF l(1) clean_decode [OF l(2) p(3)]])
  with Cons.IH [OF l(2) p(3) g] show ?case
    unfolding p(1) fold_opt_append by (cases "fold_opt step fs1 s") simp_all
qed

lemma stream: "list_all good fs \<Longrightarrow> concat ds = concat (map encode fs) \<Longrightarrow>
    feed_chunks loop ds [] s = map_option (Pair []) (fold_opt step fs s)"
  using chunks [of fs "[]" ds s] by (simp add: clean_def)

end

definition resolve_step ::
  "RpcFrame \<Rightarrow> (u32 \<times> promise) list \<times> resolution list \<Rightarrow> ((u32 \<times> promise) list \<times> resolution list) option" where
  "resolve_step f st = Some (case map_of (fst st) (fr_seq f) of
     None \<Rightarrow> st | Some pr \<Rightarrow> (AList.delete (fr_seq f) (fst st), snd st @ [(pr, Inr (fr_payload f))]))"

definition is_request :: "RpcFrame \<Rightarrow> bool" where
  "is_request f \<longleftrightarrow> frame_ok f \<and> (fr_type f = AppendEntriesReq \<or> fr_type f = RequestVoteReq)"

lemma Decode_strict_prefix: "frame_ok f \<Longrightarrow> strict_prefix p (frame_bytes f) \<Longrightarrow> RpcFrame_Decode p = Inr None"
  using Decode_partial [of f "length p"] by (auto simp: strict_prefix_def prefix_def)

interpretation rs: framed_stream frame_bytes RpcFrame_Decode frame_ok resolve_step resolve_frames
proof unfold_locales
  show "RpcFrame_Decode [] = Inr None" by (simp add: RpcFrame_Decode_def)
  show "resolve_frames b s = Some (b, s)" if "RpcFrame_Decode b = Inr None" for b s
    using that by (subst resolve_frames.simps) simp
  show "resolve_frames b s = Option.bind (resolve_step f s) (resolve_frames (drop k b))"
    if "RpcFrame_Decode b = Inr (Some (f, k))" for b s f k
    using that by (subst resolve_frames.simps) (simp add: resolve_step_def)
qed (auto simp: Decode_frame_bytes Decode_strict_prefix)

interpretation sv: framed_stream frame_bytes RpcFrame_Decode is_request "answer J clock others" "serve_frames J clock others"
  for J clock others
proof unfold_locales
  show "RpcFrame_Decode [] = Inr None" by (simp add: RpcFrame_Decode_def)
  show "serve_frames J clock others b s = Some (b, s)" if "RpcFrame_Decode b = Inr None" for b s
    using that by (subst serve_frames.simps) simp
  show "serve_frames J clock others b s = Option.bind (answer J clock others f s) (serve_frames J clock others (drop k b))"
    if "is_request f" "RpcFrame_Decode b = Inr (Some (f, k))" for b s f k
    using that by (subst serve_frames.simps) (auto simp: is_request_def)
qed (auto simp: Decode_frame_bytes Decode_strict_prefix is_request_def)

section \<open>Sending\<close>

lemma send_all: "(\<And>k. 0 < k \<Longrightarrow> 0 < accept k) \<Longrightarrow> send_loop accept bs = (bs, True)"
proof (induction accept bs rule: send_loop.induct)
  case (2 accept b bs)
  have "\<not> accept (length (b # bs)) \<le> 0" using "2.prems" [of "length (b # bs)"] by simp
  with 2 show ?case by (simp add: Let_def del: drop_Cons' take_Cons')
qed simp

lemma send_rpc_connected:
  assumes "rp_connected p" "rp_sockfd p" "\<And>k. 0 < k \<Longrightarrow> 0 < accept k" "length body < 4294967287"
    "ty = AppendEntriesReq \<or> ty = RequestVoteReq"
  shows "send_rpc ty (Some body) ok accept pr p =
      Some (p\<lparr>rp_seqGen := rp_seqGen p + 1, rp_pending := AList.update (rp_seqGen p) pr (rp_pending p)\<rparr>, [],
        frame_bytes \<lparr>fr_type = ty, fr_seq = rp_seqGen p, fr_payload = body\<rparr>, None)"
    "is_request \<lparr>fr_type = ty, fr_seq = rp_seqGen p, fr_payload = body\<rparr>"
proof -
  show r: "is_request \<lparr>fr_type = ty, fr_seq = rp_seqGen p, fr_payload = body\<rparr>"
    using assms(4,5) by (auto simp: is_request_def frame_ok_def RpcType_wf_def)
  then have "RpcFrame_Encode \<lparr>fr_type = ty, fr_seq = rp_seqGen p, fr_payload = body\<rparr> =
      Inr (frame_bytes \<lparr>fr_type = ty, fr_seq = rp_seqGen p, fr_payload = body\<rparr>)"
    by (simp add: Encode_frame_bytes is_request_def)
  then show "send_rpc ty (Some body) ok accept pr p =
      Some (p\<lparr>rp_seqGen := rp_seqGen p + 1, rp_pending := AList.update (rp_seqGen p) pr (rp_pending p)\<rparr>, [],
        frame_bytes \<lparr>fr_type = ty, fr_seq = rp_seqGen p, fr_payload = body\<rparr>, None)"
    using assms(1,2) send_all [OF assms(3)] by (simp add: send_rpc_def NextSeq_def SendRaw_def Let_def)
qed

text \<open>A connection that carries one request, and one that carries the answer.\<close>

lemma HandleConn_one:
  assumes "is_request f" "concat chunks = frame_bytes f" "handle_request J clock others f \<lparr>cn_node = n, cn_out = [], cn_count = 0\<rparr> = Some (ty, s, n')"
    "frame_ok \<lparr>fr_type = ty, fr_seq = fr_seq f, fr_payload = s\<rparr>"
  shows "HandleConn J clock others chunks n = Some (n', frame_bytes \<lparr>fr_type = ty, fr_seq = fr_seq f, fr_payload = s\<rparr>)"
proof -
  have "answer J clock others f \<lparr>cn_node = n, cn_out = [], cn_count = 0\<rparr> =
      Some \<lparr>cn_node = n', cn_out = frame_bytes \<lparr>fr_type = ty, fr_seq = fr_seq f, fr_payload = s\<rparr>, cn_count = 1\<rparr>"
    using assms(3) Encode_frame_bytes [OF assms(4)] by (simp add: answer_def)
  then show ?thesis
    using sv.stream [of "[f]" chunks J clock others] assms(1,2) by (simp add: HandleConn_def)
qed

lemma RecvLoop_one:
  assumes "frame_ok f" "concat chunks = frame_bytes f" "map_of (rp_pending p) (fr_seq f) = Some pr"
  shows "RecvLoop chunks p = Some (fst (Disconnect p),
    (pr, Inr (fr_payload f)) # map (\<lambda>(seq, pr). (pr, Inl ''peer disconnected'')) (AList.delete (fr_seq f) (rp_pending p)))"
  using rs.stream [of "[f]" chunks "(rp_pending p, [])"] assms
  by (simp add: RecvLoop_def resolve_step_def Disconnect_def)

context json_sized
begin

lemma AppendEntriesResponse_size:
  assumes "AppendEntriesResponse_Serialize J r = Some s" shows "length s < 4294967287"
proof -
  let ?kvs = "[(''term'', j_u64 J (ar_term r)), (''success'', j_bool J (ar_success r)),
      (''conflict_index'', j_u64 J (ar_conflictIndex r)), (''conflict_term'', j_u64 J (ar_conflictTerm r))]"
  have "length s = dsize J (j_obj J ?kvs)"
    using assms dump_length by (simp add: AppendEntriesResponse_Serialize_def)
  also have "\<dots> \<le> 1000"
    using dsize_obj [of ?kvs] dsize_u64 [of "ar_term r"] dsize_u64 [of "ar_conflictIndex r"] dsize_u64 [of "ar_conflictTerm r"]
      dsize_bool [of "ar_success r"] by simp
  finally show ?thesis by simp
qed

lemma heartbeat_size:
  assumes "AppendEntriesRequest_Serialize J r = Some s" "ae_entries r = []" "length (ae_leaderId r) < 100"
  shows "length s < 4294967287"
proof -
  let ?kvs = "[(''term'', j_u64 J (ae_term r)), (''leader_id'', j_str J (ae_leaderId r)),
    (''prev_log_index'', j_u64 J (ae_prevLogIndex r)), (''prev_log_term'', j_u64 J (ae_prevLogTerm r)),
    (''entries'', j_arr J []), (''leader_commit'', j_u64 J (ae_leaderCommit r))]"
  have "length s = dsize J (j_obj J ?kvs)"
    using assms(1,2) dump_length by (simp add: AppendEntriesRequest_Serialize_def)
  also have "\<dots> \<le> 2000"
    using dsize_obj [of ?kvs] dsize_u64 [of "ae_term r"] dsize_u64 [of "ae_prevLogIndex r"] dsize_u64 [of "ae_prevLogTerm r"]
      dsize_u64 [of "ae_leaderCommit r"] dsize_str [of "ae_leaderId r"] dsize_arr [of "[]"] assms(3) by simp
  finally show ?thesis by simp
qed

end

section \<open>Every RPC is resolved\<close>

definition promises :: "(u32 \<times> promise) list \<times> resolution list \<Rightarrow> promise multiset" where
  "promises st = mset (map snd (fst st)) + mset (map fst (snd st))"

lemma mset_delete:
  "distinct (map fst xs) \<Longrightarrow> map_of xs k = Some v \<Longrightarrow> mset (map snd xs) = add_mset v (mset (map snd (AList.delete k xs)))"
proof (induction xs)
  case (Cons x xs)
  show ?case
  proof (cases "fst x = k")
    case True
    then have "k \<notin> fst ` set xs" using Cons.prems(1) by auto
    then have "AList.delete k xs = xs" by (induction xs) auto
    with True Cons.prems show ?thesis by (cases x) auto
  next
    case False
    with Cons show ?thesis by (cases x) auto
  qed
qed simp

lemma resolve_promises_result:
  assumes "resolve_frames buf st = Some r"
  shows "distinct (map fst (fst st)) \<longrightarrow> promises (snd r) = promises st \<and> distinct (map fst (fst (snd r)))"
proof (rule resolve_frames.raw_induct [OF _ assms])
  fix loop :: "u8 list \<Rightarrow> (u32 \<times> promise) list \<times> resolution list \<Rightarrow> (u8 list \<times> (u32 \<times> promise) list \<times> resolution list) option"
    and buf st r
  assume ih: "\<And>buf st r. loop buf st = Some r \<Longrightarrow>
      distinct (map fst (fst st)) \<longrightarrow> promises (snd r) = promises st \<and> distinct (map fst (fst (snd r)))"
    and step: "(case RpcFrame_Decode buf of Inl _ \<Rightarrow> None | Inr None \<Rightarrow> Some (buf, st) | Inr (Some (frame, c)) \<Rightarrow>
      loop (drop c buf) (case map_of (fst st) (fr_seq frame) of None \<Rightarrow> st
        | Some pr \<Rightarrow> (AList.delete (fr_seq frame) (fst st), snd st @ [(pr, Inr (fr_payload frame))]))) = Some r"
  show "distinct (map fst (fst st)) \<longrightarrow> promises (snd r) = promises st \<and> distinct (map fst (fst (snd r)))"
  proof (cases "RpcFrame_Decode buf")
    case (Inr d)
    show ?thesis
    proof (cases d)
      case (Some fc)
      obtain f c where fc: "fc = (f, c)" by (cases fc)
      show ?thesis
      proof (cases "map_of (fst st) (fr_seq f)")
        case (Some pr)
        let ?st = "(AList.delete (fr_seq f) (fst st), snd st @ [(pr, Inr (fr_payload f))])"
        have "loop (drop c buf) ?st = Some r" using step Inr \<open>d = Some fc\<close> fc Some by simp
        from ih [OF this] have "distinct (map fst (fst ?st)) \<longrightarrow> promises (snd r) = promises ?st \<and> distinct (map fst (fst (snd r)))" .
        moreover have "distinct (map fst (fst st)) \<Longrightarrow> distinct (map fst (fst ?st))" by (simp add: distinct_delete)
        moreover have "distinct (map fst (fst st)) \<Longrightarrow> promises ?st = promises st"
          using mset_delete [of "fst st" "fr_seq f" pr] Some by (simp add: promises_def)
        ultimately show ?thesis by simp
      next
        case None
        then have "loop (drop c buf) st = Some r" using step Inr \<open>d = Some fc\<close> fc by simp
        from ih [OF this] show ?thesis .
      qed
    qed (use step Inr in auto)
  qed (use step in simp)
qed

lemma resolve_promises:
  "resolve_frames buf st = Some (buf', st') \<Longrightarrow> distinct (map fst (fst st)) \<Longrightarrow>
     promises st' = promises st \<and> distinct (map fst (fst st'))"
  using resolve_promises_result [of buf st "(buf', st')"] by simp

lemma chunks_promises:
  "feed_chunks resolve_frames ds buf st = Some (buf', st') \<Longrightarrow> distinct (map fst (fst st)) \<Longrightarrow>
     promises st' = promises st \<and> distinct (map fst (fst st'))"
proof (induction ds arbitrary: buf st)
  case (Cons d ds)
  then obtain b s where "resolve_frames (buf @ d) st = Some (b, s)" "feed_chunks resolve_frames ds b s = Some (buf', st')"
    by (auto split: bind_splits)
  then show ?case using Cons resolve_promises by metis
qed simp

section \<open>Properties\<close>

text \<open>
  C17: an \<open>AppendEntries\<close> RPC works across the network. The request a peer sends, cut into
  chunks in any way, makes the server run the handler on exactly that request; the answer, cut
  in any way, resolves exactly the promise registered for it, with the handler's response; and
  promises of other RPCs only fail when the connection ends.
\<close>

theorem rpc_exchange:
  assumes "json_sized J" "utf8_valid (ae_leaderId req)" "\<forall>e \<in> set (ae_entries req). entry_ok e"
    "AppendEntriesRequest_Serialize J req = Some body" "length body < 4294967287"
    "rp_connected p" "rp_sockfd p" "rp_seqGen p \<notin> fst ` set (rp_pending p)" "\<forall>k > 0. 0 < accept k"
    "HandleAppendEntries J (clock 0) req (others 0 n) = Some (n', resp)"
  shows "\<exists>p1 sent s out. SendAppendEntries J req ok accept pr p = Some (p1, [], sent, None) \<and>
    (\<forall>chunks. concat chunks = sent \<longrightarrow> HandleConn J clock others chunks n = Some (n', out)) \<and>
    (\<forall>chunks. concat chunks = out \<longrightarrow> RecvLoop chunks p1 = Some (fst (Disconnect p1),
       (pr, Inr s) # map (\<lambda>(seq, pr). (pr, Inl ''peer disconnected'')) (rp_pending p))) \<and>
    await_AppendEntries J (Some (Inr s)) = Inr resp"
proof -
  note J = json_sized.axioms(1) [OF assms(1)]
  let ?f = "\<lparr>fr_type = AppendEntriesReq, fr_seq = rp_seqGen p, fr_payload = body\<rparr>"
  let ?p1 = "p\<lparr>rp_seqGen := rp_seqGen p + 1, rp_pending := AList.update (rp_seqGen p) pr (rp_pending p)\<rparr>"
  note sr = send_rpc_connected [OF assms(6,7) assms(9) [rule_format] assms(5) disjI1 [OF refl]]
  obtain s where s: "AppendEntriesResponse_Serialize J resp = Some s" "AppendEntriesResponse_Deserialize J s = Some resp"
    using json_lib.AppendEntriesResponse_roundtrip [OF J] by blast
  let ?g = "\<lparr>fr_type = AppendEntriesResp, fr_seq = rp_seqGen p, fr_payload = s\<rparr>"
  have g: "frame_ok ?g" using json_sized.AppendEntriesResponse_size [OF assms(1) s(1)] by (simp add: frame_ok_def RpcType_wf_def)
  have "AppendEntriesRequest_Deserialize J body = Some req"
    using json_lib.AppendEntriesRequest_roundtrip [OF J assms(2,3)] assms(4) by auto
  then have "handle_request J clock others ?f \<lparr>cn_node = n, cn_out = [], cn_count = 0\<rparr> = Some (AppendEntriesResp, s, n')"
    using assms(10) s(1) by (simp add: handle_request_def Let_def)
  then have "HandleConn J clock others chunks n = Some (n', frame_bytes ?g)" if "concat chunks = frame_bytes ?f" for chunks
    using HandleConn_one [of ?f] sr(2) that g by simp
  moreover have "RecvLoop chunks ?p1 = Some (fst (Disconnect ?p1),
       (pr, Inr s) # map (\<lambda>(seq, pr). (pr, Inl ''peer disconnected'')) (rp_pending p))" if "concat chunks = frame_bytes ?g" for chunks
    using RecvLoop_one [OF g that, of ?p1 pr] assms(8) by (simp add: update_conv delete_update_same delete_id)
  moreover have "await_AppendEntries J (Some (Inr s)) = Inr resp" using s(2) by (simp add: await_AppendEntries_def await_rpc_def)
  ultimately show ?thesis using sr(1) assms(4) unfolding SendAppendEntries_def by auto
qed

definition sample_peer :: RaftPeer where
  "sample_peer = the (RaftPeer_new True ''b'' ''localhost'' 2380)"

lemma sample_peer_fields:
  "RaftPeer_new True ''b'' ''localhost'' 2380 = Some sample_peer" "rp_connected sample_peer" "rp_sockfd sample_peer"
  "rp_recvThread sample_peer" "rp_pending sample_peer = []" "rp_seqGen sample_peer = 0"
  by (simp_all add: sample_peer_def RaftPeer_new_def Connect_def)

definition sample_heartbeat :: AppendEntriesRequest where
  "sample_heartbeat = \<lparr>ae_term = 1, ae_leaderId = ''a'', ae_prevLogIndex = 0, ae_prevLogTerm = 0, ae_entries = [], ae_leaderCommit = 0\<rparr>"

definition sample_follower :: RaftNode where
  "sample_follower = (RaftNode_init 0 (sample_config ''b'' [''a'']) KVStore_new None)\<lparr>currentTerm := 2\<rparr>"

theorem rpc_exchange_witness:
  "\<exists>p1 sent s out. SendAppendEntries json_text sample_heartbeat True int 7 sample_peer = Some (p1, [], sent, None) \<and>
     HandleConn json_text (\<lambda>_. 0) (\<lambda>_ n. n) [take 3 sent, drop 3 sent] sample_follower = Some (sample_follower, out) \<and>
     RecvLoop [out] p1 = Some (fst (Disconnect p1), [(7, Inr s)]) \<and>
     await_AppendEntries json_text (Some (Inr s)) = Inr ((AppendEntriesResponse_new 2)\<lparr>ar_success := False\<rparr>)"
proof -
  let ?J = json_text and ?r = sample_heartbeat and ?n = sample_follower
  have r: "utf8_valid (ae_leaderId ?r)" "\<forall>e \<in> set (ae_entries ?r). entry_ok e" by (simp_all add: sample_heartbeat_def)
  obtain body where b: "AppendEntriesRequest_Serialize ?J ?r = Some body" using jt.AppendEntriesRequest_roundtrip [OF r] by blast
  have l: "length body < 4294967287"
    by (rule json_sized.heartbeat_size [OF jt.json_sized_axioms b]) (simp_all add: sample_heartbeat_def)
  have h: "HandleAppendEntries ?J 0 ?r ?n = Some (?n, (AppendEntriesResponse_new 2)\<lparr>ar_success := False\<rparr>)"
    by (simp add: HandleAppendEntries_def sample_heartbeat_def sample_follower_def Let_def)
  have q: "rp_seqGen sample_peer \<notin> fst ` set (rp_pending sample_peer)" by (simp add: sample_peer_fields)
  have a: "\<forall>k > 0. 0 < int k" by simp
  note x = rpc_exchange [where accept = int and clock = "\<lambda>_. 0" and others = "\<lambda>_ n. n" and n = ?n and ok = True and pr = 7,
    OF jt.json_sized_axioms r b l sample_peer_fields(2,3) q a h]
  then show ?thesis
  proof (elim exE conjE, intro exI conjI)
    fix p1 sent s out
    assume c: "\<forall>chunks. concat chunks = sent \<longrightarrow> HandleConn ?J (\<lambda>_. 0) (\<lambda>_ n. n) chunks ?n = Some (?n, out)"
      "\<forall>chunks. concat chunks = out \<longrightarrow> RecvLoop chunks p1 = Some (fst (Disconnect p1),
         (7, Inr s) # map (\<lambda>(seq, pr). (pr, Inl ''peer disconnected'')) (rp_pending sample_peer))"
    show "HandleConn ?J (\<lambda>_. 0) (\<lambda>_ n. n) [take 3 sent, drop 3 sent] ?n = Some (?n, out)" using c(1) by simp
    show "RecvLoop [out] p1 = Some (fst (Disconnect p1), [(7, Inr s)])" using c(2) by (simp add: sample_peer_fields)
  qed
qed

text \<open>
  C29: every RPC is resolved exactly once. When the receive loop of a connection has ended, the
  promises resolved, by an answer or by the disconnection, are exactly those that were pending.
\<close>

theorem resolved_once:
  assumes "RecvLoop chunks p = Some (q, rs)" "distinct (map fst (rp_pending p))"
  shows "mset (map fst rs) = mset (map snd (rp_pending p)) \<and> rp_pending q = [] \<and> \<not> rp_connected q"
proof -
  obtain b pending rs1 where r: "feed_chunks resolve_frames chunks [] (rp_pending p, []) = Some (b, pending, rs1)"
    "rs = rs1 @ map (\<lambda>(seq, pr). (pr, Inl ''peer disconnected'')) pending"
    "q = p\<lparr>rp_pending := [], rp_connected := False, rp_sockfd := False\<rparr>"
    using assms(1) by (auto simp: RecvLoop_def Disconnect_def split: bind_splits)
  have "fst \<circ> (\<lambda>(seq :: u32, pr :: promise). (pr, Inl ''peer disconnected'' :: string + string)) = snd"
    by (simp add: fun_eq_iff split_beta)
  with chunks_promises [OF r(1)] assms(2) r(2,3) show ?thesis by (simp add: promises_def add.commute)
qed

theorem resolved_once_witness:
  "\<exists>q rs. RecvLoop [] (sample_peer\<lparr>rp_pending := [(0, 4), (1, 5)]\<rparr>) = Some (q, rs) \<and> mset (map fst rs) = {#4, 5#} \<and> rp_pending q = []"
proof -
  have r: "RecvLoop [] (sample_peer\<lparr>rp_pending := [(0, 4), (1, 5)]\<rparr>) = Some (fst (Disconnect sample_peer),
      [(4, Inl ''peer disconnected''), (5, Inl ''peer disconnected'')])"
    by (simp add: RecvLoop_def Disconnect_def)
  from resolved_once [OF r] r show ?thesis by auto
qed

text \<open>
  A lost connection is never made again. Once the receive loop has ended, any RPC to a
  peer that is reachable again assigns to a thread that was not joined and ends the process;
  as long as the peer is unreachable the RPC fails as it should.
\<close>

theorem reconnect_terminates:
  assumes "rp_recvThread p" "RecvLoop chunks p = Some (q, rs)"
  shows "SendAppendEntries J req True accept pr q = None \<and> SendRequestVote J vote True accept pr q = None \<and>
    (\<exists>q'. SendAppendEntries J req False accept pr q = Some (q', [], [], Some ''peer not connected''))"
proof -
  have "rp_recvThread q" "\<not> rp_connected q"
    using assms by (auto simp: RecvLoop_def Disconnect_def split: bind_splits)
  then show ?thesis
    by (simp add: SendAppendEntries_def SendRequestVote_def send_rpc_def NextSeq_def Connect_def Let_def)
qed

theorem reconnect_terminates_witness:
  "\<exists>q rs. RecvLoop [] sample_peer = Some (q, rs) \<and> SendAppendEntries json_text sample_heartbeat True int 7 q = None"
proof -
  have r: "RecvLoop [] sample_peer = Some (fst (Disconnect sample_peer), [])"
    by (simp add: RecvLoop_def Disconnect_def sample_peer_fields(5))
  from reconnect_terminates [OF sample_peer_fields(4) r] r show ?thesis by blast
qed

end
