(* ===== verification/RaftLoops.thy ===== *)
theory RaftLoops
  imports RaftTransport
begin

text \<open>
  The loops of the threads of a node (\<open>ElectionLoop\<close> and \<open>ReplicationLoop\<close> of
  \<open>raft/RaftNode.cpp\<close>) and of its RPC server (\<open>raft/RaftRpcServer.cpp\<close>), turn by turn: a turn
  is what a loop does once its wait is over. The random timeout is drawn by an argument.
\<close>

section \<open>Elections\<close>

text \<open>A draw from \<open>uniform_int_distribution\<close>, which asks for a non-empty range; in milliseconds.\<close>

definition RandomElectionTimeout :: "int \<Rightarrow> RaftConfig \<Rightarrow> int option" where
  "RandomElectionTimeout draw cf =
     (if cf_electionTimeoutMin cf \<le> cf_electionTimeoutMax cf
      then Some (cf_electionTimeoutMin cf + draw mod (cf_electionTimeoutMax cf - cf_electionTimeoutMin cf + 1))
      else None)"

text \<open>The result is whether the loop goes on, and the node.\<close>

definition ElectionLoop_turn ::
  "'j json_ops \<Rightarrow> (RequestVoteRequest \<Rightarrow> RequestVoteResponse option list) \<Rightarrow> int \<Rightarrow> time \<Rightarrow> RaftNode \<Rightarrow> (bool \<times> RaftNode) option" where
  "ElectionLoop_turn J ask draw now n =
     do { timeout \<leftarrow> RandomElectionTimeout draw (config n);
          if \<not> running n then Some (False, n)
          else if role n = Leader then Some (True, n)
          else if timeout * 1000000 \<le> now - lastHeartbeat n then map_option (\<lambda>n'. (True, n')) (StartElection J now ask n)
          else Some (True, n) }"

section \<open>Replication\<close>

definition ReplicationLoop_turn ::
  "'j json_ops \<Rightarrow> time \<Rightarrow> (string \<Rightarrow> AppendEntriesRequest \<Rightarrow> AppendEntriesResponse option) \<Rightarrow> RaftNode \<Rightarrow> RaftNode" where
  "ReplicationLoop_turn J now send n = (if role n = Leader then SendHeartbeatsToAll J now send n else n)"

section \<open>The RPC server\<close>

record RaftRpcServer =
  rp_port :: u16
  rp_running :: bool

definition RaftRpcServer_new :: "u16 \<Rightarrow> RaftRpcServer" where
  "RaftRpcServer_new port = \<lparr>rp_port = port, rp_running = False\<rparr>"

datatype rpc_start_failure = RpcNoSocket | RpcNoBind | RpcNoListen

definition RaftRpcServer_Start :: "rpc_start_failure option \<Rightarrow> RaftRpcServer \<Rightarrow> exn + RaftRpcServer" where
  "RaftRpcServer_Start fail r =
     (case fail of
        Some RpcNoSocket \<Rightarrow> Inl (RuntimeError ''RaftRpcServer: socket() failed'')
      | Some RpcNoBind \<Rightarrow> Inl (RuntimeError (''RaftRpcServer: bind() failed on port '' @ to_string (unat (rp_port r))))
      | Some RpcNoListen \<Rightarrow> Inl (RuntimeError ''RaftRpcServer: listen() failed'')
      | None \<Rightarrow> Inr (r\<lparr>rp_running := True\<rparr>))"

definition RaftRpcServer_Stop :: "RaftRpcServer \<Rightarrow> RaftRpcServer" where
  "RaftRpcServer_Stop r = (if \<not> rp_running r then r else r\<lparr>rp_running := False\<rparr>)"

text \<open>
  The connections for which \<open>AcceptLoop\<close> starts a thread, given for each turn whether the
  server still runs and what \<open>accept\<close> returns.
\<close>

fun RaftRpcServer_AcceptLoop :: "(bool \<times> int) list \<Rightarrow> int list" where
  "RaftRpcServer_AcceptLoop [] = []"
| "RaftRpcServer_AcceptLoop ((go, fd) # rs) = (if \<not> go \<or> fd < 0 then [] else fd # RaftRpcServer_AcceptLoop rs)"

section \<open>A node without peers\<close>

text \<open>What a node without peers does: its own loops and the proposals of its clients.\<close>

inductive solo_step :: "'j json_ops \<Rightarrow> RaftNode \<Rightarrow> RaftNode \<Rightarrow> bool" for J where
  solo_election: "ElectionLoop_turn J (\<lambda>_. []) draw now n = Some (go, n') \<Longrightarrow> solo_step J n n'"
| solo_replication: "solo_step J n (ReplicationLoop_turn J now send n)"
| solo_apply: "ApplyLoop_turn J clock now n = Some n' \<Longrightarrow> solo_step J n n'"
| solo_propose: "Propose_begin J key v opt ttl n = Some (n', r) \<Longrightarrow> solo_step J n n'"

text \<open>The commit index does not move, and what is applied stays below it.\<close>

definition commit_kept :: "RaftNode \<Rightarrow> RaftNode \<Rightarrow> bool" where
  "commit_kept n n' \<longleftrightarrow> config n' = config n \<and> commitIndex n' = commitIndex n \<and>
     (lastApplied n \<le> commitIndex n \<longrightarrow> lastApplied n' \<le> commitIndex n)"

section \<open>Timing of elections\<close>

lemma RandomElectionTimeout_range:
  assumes "RandomElectionTimeout draw cf = Some t"
  shows "cf_electionTimeoutMin cf \<le> t" "t \<le> cf_electionTimeoutMax cf"
proof -
  let ?r = "cf_electionTimeoutMax cf - cf_electionTimeoutMin cf + 1"
  have r: "0 < ?r" "t = cf_electionTimeoutMin cf + draw mod ?r" using assms by (auto simp: RandomElectionTimeout_def split: if_splits)
  then show "cf_electionTimeoutMin cf \<le> t" "t \<le> cf_electionTimeoutMax cf"
    using pos_mod_bound [OF r(1), of draw] pos_mod_sign [OF r(1), of draw] by linarith+
qed

text \<open>A turn starts an election exactly when one is due, as the steps of a cluster have it.\<close>

lemma ElectionLoop_turn_due:
  "RandomElectionTimeout draw (config n) = Some t \<Longrightarrow> ElectionLoop_turn J ask draw now n =
     (if election_due now (t * 1000000) n then map_option (\<lambda>n'. (True, n')) (StartElection J now ask n) else Some (running n, n))"
  by (auto simp: ElectionLoop_turn_def election_due_def)

lemma step_up_config: "step_up J now t lead n = Some n' \<Longrightarrow> config n' = config n"
  by (auto simp: step_up_def BecomeFollower_def PersistHardState_def follower_state_def ResetElectionTimer_def
    split: if_splits option.splits bind_splits)

lemma HandleAppendEntries_timer:
  assumes "HandleAppendEntries J now req n = Some (n', resp)" "currentTerm n \<le> ae_term req"
  shows "lastHeartbeat n' = now" "config n' = config n"
  using assms
  by (auto simp: HandleAppendEntries_def ResetElectionTimer_def Let_def dest!: step_up_config split: if_splits bind_splits)

lemma StartElection_begin_term:
  "StartElection_begin J now n = Some (n', req) \<Longrightarrow> currentTerm n' = currentTerm n + 1 \<and> rv_term req = currentTerm n + 1 \<and> role n' = Candidate"
  by (auto simp: StartElection_begin_def PersistHardState_def Let_def split: option.splits bind_splits)

lemma ElectionLoop_turn_early:
  assumes "running n" "cf_electionTimeoutMin (config n) \<le> cf_electionTimeoutMax (config n)"
    "now - lastHeartbeat n < cf_electionTimeoutMin (config n) * 1000000"
  shows "ElectionLoop_turn J ask draw now n = Some (True, n)"
proof -
  obtain t where t: "RandomElectionTimeout draw (config n) = Some t" using assms(2) by (simp add: RandomElectionTimeout_def)
  then have "\<not> t * 1000000 \<le> now - lastHeartbeat n" using RandomElectionTimeout_range(1) [OF t] assms(3) by linarith
  then show ?thesis using t assms(1) by (simp add: ElectionLoop_turn_def)
qed

lemma ElectionLoop_turn_late:
  assumes "running n" "role n \<noteq> Leader" "cf_electionTimeoutMin (config n) \<le> cf_electionTimeoutMax (config n)"
    "cf_electionTimeoutMax (config n) * 1000000 \<le> now - lastHeartbeat n"
  shows "ElectionLoop_turn J ask draw now n = map_option (\<lambda>n'. (True, n')) (StartElection J now ask n)"
proof -
  obtain t where t: "RandomElectionTimeout draw (config n) = Some t" using assms(3) by (simp add: RandomElectionTimeout_def)
  then have "t * 1000000 \<le> now - lastHeartbeat n" using RandomElectionTimeout_range(2) [OF t] assms(4) by linarith
  then show ?thesis using t assms(1,2) by (simp add: ElectionLoop_turn_def)
qed

section \<open>Commitment without peers\<close>

lemma StartElection_solo:
  assumes "StartElection J now (\<lambda>_. []) n = Some n'"
  shows "commit_kept n n'"
proof -
  obtain n1 req where b: "StartElection_begin J now n = Some (n1, req)" "StartElection_end J (rv_term req) 1 n1 = Some n'"
    using assms by (auto simp: StartElection_def split: bind_splits)
  let ?c = "n\<lparr>currentTerm := currentTerm n + 1, votedFor := nodeId n, role := Candidate\<rparr>"
  obtain n0 where n0: "PersistHardState J ?c = Some n0" "n1 = n0\<lparr>lastHeartbeat := now\<rparr>"
    using b(1) by (auto simp: StartElection_begin_def Let_def split: bind_splits)
  obtain w where "n0 = ?c\<lparr>rlog := (rlog ?c)\<lparr>rl_wal := w\<rparr>\<rparr>" using n0(1) by (rule Persist_frame)
  then have k: "config n1 = config n" "commitIndex n1 = commitIndex n" "lastApplied n1 = lastApplied n" using n0(2) by simp_all
  show ?thesis
  proof (cases "BecomeLeader J n1 = Some n'")
    case True
    then show ?thesis using k by (elim BecomeLeader_fields) (simp add: commit_kept_def)
  next
    case False
    then have "n' = n1" using b(2) by (auto simp: StartElection_end_def split: if_splits)
    then show ?thesis using k by (simp add: commit_kept_def)
  qed
qed

lemma ApplyLoop_inner_bound:
  "lastApplied n \<le> commitIndex n \<Longrightarrow> lastApplied (ApplyLoop_inner clock n) \<le> commitIndex n"
proof (induction clock n rule: ApplyLoop_inner.induct)
  case (1 clock n)
  show ?case
  proof (cases "lastApplied n < commitIndex n")
    case True
    then have "lastApplied n + 1 \<le> commitIndex n" by (rule inc_le)
    with True 1 show ?thesis by (cases "GetEntry (lastApplied n + 1) (rlog n)") (simp_all add: ApplyLoop_inner.simps [of clock n] Let_def)
  qed (use 1 in \<open>simp add: ApplyLoop_inner.simps [of clock n]\<close>)
qed

lemma ApplyLoop_turn_commit:
  assumes "ApplyLoop_turn J clock now n = Some n'"
  shows "commit_kept n n'"
proof -
  have "config n' = config (ApplyLoop_inner clock n) \<and> commitIndex n' = commitIndex (ApplyLoop_inner clock n) \<and>
      lastApplied n' = lastApplied (ApplyLoop_inner clock n)"
    using assms by (auto simp: ApplyLoop_turn_def MaybeSnapshot_def Let_def split: if_splits bind_splits)
  then show ?thesis using ApplyLoop_inner_frame [of clock n] ApplyLoop_inner_bound [of n clock] by (simp add: commit_kept_def)
qed

lemma solo_step_commit:
  assumes "solo_step J n n'" "cf_peers (config n) = []"
  shows "commit_kept n n'"
  using assms(1)
proof cases
  case (solo_election draw now go)
  then have "n' = n \<or> StartElection J now (\<lambda>_. []) n = Some n'"
    by (auto simp: ElectionLoop_turn_def split: if_splits bind_splits)
  then show ?thesis using StartElection_solo by (auto simp: commit_kept_def)
next
  case (solo_replication now send)
  then show ?thesis using assms(2) by (simp add: ReplicationLoop_turn_def SendHeartbeatsToAll_def peers_def commit_kept_def)
next
  case (solo_apply clock now)
  then show ?thesis by (rule ApplyLoop_turn_commit)
next
  case (solo_propose key v opt ttl r)
  then show ?thesis by (auto simp: Propose_begin_def commit_kept_def split: if_splits bind_splits)
qed

lemma solo_run_commit:
  assumes "(solo_step J)\<^sup>*\<^sup>* n n'" "cf_peers (config n) = []"
  shows "commit_kept n n'"
  using assms
proof (induction rule: rtranclp_induct)
  case (step y z)
  then have "commit_kept n y" "commit_kept y z" using solo_step_commit [of J y z] by (auto simp: commit_kept_def)
  then show ?case by (simp add: commit_kept_def)
qed (simp add: commit_kept_def)

section \<open>Properties\<close>

text \<open>
  C15: heartbeats keep elections away, silence brings them. After an AppendEntries request of a
  current leader, whatever timeout is drawn, a turn of the election loop does nothing before
  the minimal timeout has passed since the request; once the maximal timeout has passed and
  the node is not a leader it starts an election, as a candidate of the next term.
\<close>

theorem heartbeat_delays_election:
  assumes "HandleAppendEntries J t req n = Some (n', resp)" "currentTerm n \<le> ae_term req" "running n'"
    "cf_electionTimeoutMin (config n) \<le> cf_electionTimeoutMax (config n)"
  shows "(now < t + cf_electionTimeoutMin (config n) * 1000000 \<longrightarrow> ElectionLoop_turn J ask draw now n' = Some (True, n')) \<and>
    (t + cf_electionTimeoutMax (config n) * 1000000 \<le> now \<and> role n' \<noteq> Leader \<longrightarrow>
      ElectionLoop_turn J ask draw now n' = map_option (\<lambda>n''. (True, n'')) (StartElection J now ask n') \<and>
      (\<forall>n1 vr. StartElection_begin J now n' = Some (n1, vr) \<longrightarrow> role n1 = Candidate \<and> rv_term vr = currentTerm n' + 1))"
proof -
  note h = HandleAppendEntries_timer [OF assms(1,2)]
  show ?thesis
  proof (intro conjI impI allI)
    assume "now < t + cf_electionTimeoutMin (config n) * 1000000"
    then show "ElectionLoop_turn J ask draw now n' = Some (True, n')"
      using assms(3,4) by (intro ElectionLoop_turn_early) (simp_all add: h)
  next
    assume "t + cf_electionTimeoutMax (config n) * 1000000 \<le> now \<and> role n' \<noteq> Leader"
    then show "ElectionLoop_turn J ask draw now n' = map_option (\<lambda>n''. (True, n'')) (StartElection J now ask n')"
      using assms(3,4) by (intro ElectionLoop_turn_late) (simp_all add: h)
  qed (use StartElection_begin_term in blast)+
qed

theorem heartbeat_delays_election_witness:
  "\<exists>n' resp. HandleAppendEntries json_text 7 \<lparr>ae_term = 0, ae_leaderId = ''b'', ae_prevLogIndex = 0, ae_prevLogTerm = 0, ae_entries = [],
       ae_leaderCommit = 0\<rparr> (RaftNode_Start (RaftNode_init 0 (sample_config ''a'' [''b'']) KVStore_new None)) = Some (n', resp) \<and>
     ElectionLoop_turn json_text (\<lambda>_. []) 3 8 n' = Some (True, n')"
proof -
  let ?n = "RaftNode_Start (RaftNode_init 0 (sample_config ''a'' [''b'']) KVStore_new None)"
  let ?req = "\<lparr>ae_term = 0, ae_leaderId = ''b'', ae_prevLogIndex = 0, ae_prevLogTerm = 0, ae_entries = [], ae_leaderCommit = 0\<rparr>"
  obtain n' resp where h: "HandleAppendEntries json_text 7 ?req ?n = Some (n', resp)" "running n'"
    by (simp add: HandleAppendEntries_def step_up_def RaftNode_Start_def RaftNode_init_def ResetElectionTimer_def Let_def)
  have c: "currentTerm ?n \<le> ae_term ?req" "cf_electionTimeoutMin (config ?n) = 150" "cf_electionTimeoutMax (config ?n) = 300"
    by (simp_all add: RaftNode_Start_def RaftNode_init_def sample_config_def RaftConfig_default_def)
  show ?thesis
    using heartbeat_delays_election [OF h(1) c(1) h(2), of 8 "\<lambda>_. []" 3] h(1) unfolding c by auto
qed



end
