(* ===== verification/StdText.thy ===== *)
theory StdText
  imports CxxStd
begin

text \<open>
  More of the C++ standard library, for the text protocols: searching for a substring, splitting
  at a delimiter (\<open>getline\<close>), words (\<open>operator>>\<close>), letter case, and the remaining numeric
  conversions.
\<close>

section \<open>Searching\<close>

text \<open>\<open>s.find(p)\<close>: the position of the first occurrence.\<close>

fun find_str :: "string \<Rightarrow> string \<Rightarrow> nat option" where
  "find_str p [] = (if p = [] then Some 0 else None)"
| "find_str p (x # xs) = (if take (length p) (x # xs) = p then Some 0 else map_option Suc (find_str p xs))"

lemma find_str_Some: "find_str p s = Some n \<Longrightarrow> n + length p \<le> length s \<and> take (length p) (drop n s) = p"
proof (induction p s arbitrary: n rule: find_str.induct)
  case (2 p x xs)
  show ?case
  proof (cases "take (length p) (x # xs) = p")
    case True
    then have "length p \<le> length (x # xs)" by (metis length_take min.cobounded1)
    with True 2 show ?thesis by simp
  next
    case False
    then obtain m where "find_str p xs = Some m" "n = Suc m" using "2.prems" by (auto split: if_splits)
    with "2.IH" [OF False] show ?thesis by simp
  qed
qed (auto split: if_splits)

text \<open>A delimiter of two characters after text without its first character is found there.\<close>

definition CR :: char where "CR = CHR 0x0D"

definition LF :: char where "LF = CHR 0x0A"

abbreviation crlf :: string where
  "crlf \<equiv> [CR, LF]"

lemma find_crlf: "CR \<notin> set s \<Longrightarrow> find_str crlf (s @ crlf @ rest) = Some (length s)"
  by (induction s) auto

lemma find_crlf_None: "CR \<notin> set s \<Longrightarrow> find_str crlf s = None"
  by (induction s) auto

section \<open>Splitting\<close>

text \<open>The strings \<open>getline(ss, line, d)\<close> delivers until the stream is at its end.\<close>

function getlines :: "char \<Rightarrow> string \<Rightarrow> string list" where
  "getlines d s =
     (if s = [] then []
      else takeWhile (\<lambda>c. c \<noteq> d) s #
        (case dropWhile (\<lambda>c. c \<noteq> d) s of [] \<Rightarrow> [] | _ # rest \<Rightarrow> getlines d rest))"
  by pat_completeness auto
termination
proof (relation "measure (\<lambda>(_, s). length s)")
  fix d s c rest assume "dropWhile (\<lambda>c. c \<noteq> d) s = (c :: char) # rest"
  then show "((d, rest), d, s) \<in> measure (\<lambda>(_, s). length s)"
    using length_dropWhile_le [of "\<lambda>c. c \<noteq> d" s] by simp
qed simp

declare getlines.simps [simp del]

lemma getlines_Nil [simp]: "getlines d [] = []"
  by (simp add: getlines.simps)

lemma span_neq:
  "d \<notin> set s \<Longrightarrow> takeWhile (\<lambda>c. c \<noteq> d) (s @ rest) = s @ takeWhile (\<lambda>c. c \<noteq> d) rest"
  "d \<notin> set s \<Longrightarrow> dropWhile (\<lambda>c. c \<noteq> d) (s @ rest) = dropWhile (\<lambda>c. c \<noteq> d) rest"
  by (induction s) auto

lemma getlines_last: "d \<notin> set s \<Longrightarrow> s \<noteq> [] \<Longrightarrow> getlines d s = [s]"
  using span_neq [of d s "[]"] by (subst getlines.simps) (simp del: dropWhile_eq_Nil_conv takeWhile_eq_all_conv)

lemma getlines_append: "d \<notin> set s \<Longrightarrow> getlines d (s @ d # rest) = s # getlines d rest"
  by (subst getlines.simps) (simp add: span_neq)

text \<open>\<open>ss >> word\<close>: the next word and what remains in the stream.\<close>

definition next_word :: "string \<Rightarrow> string \<times> string" where
  "next_word s = (let t = dropWhile is_space s in (takeWhile (\<lambda>c. \<not> is_space c) t, dropWhile (\<lambda>c. \<not> is_space c) t))"

definition word_ok :: "string \<Rightarrow> bool" where
  "word_ok w \<longleftrightarrow> w \<noteq> [] \<and> list_all (\<lambda>c. \<not> is_space c) w"

lemma next_word_space: "is_space c \<Longrightarrow> next_word (c # s) = next_word s"
  by (simp add: next_word_def)

lemma next_word_last: "word_ok w \<Longrightarrow> next_word w = (w, [])"
proof -
  assume w: "word_ok w"
  then have "dropWhile is_space w = w" by (cases w) (auto simp: word_ok_def)
  with w show ?thesis
    by (auto simp: next_word_def word_ok_def list_all_iff takeWhile_eq_all_conv dropWhile_eq_Nil_conv)
qed

lemma next_word_word: "word_ok w \<Longrightarrow> is_space c \<Longrightarrow> next_word (w @ c # s) = (w, c # s)"
proof -
  assume w: "word_ok w" and c: "is_space c"
  then have "dropWhile is_space (w @ c # s) = w @ c # s" by (cases w) (auto simp: word_ok_def)
  moreover have "takeWhile (\<lambda>c. \<not> is_space c) (w @ c # s) = w" "dropWhile (\<lambda>c. \<not> is_space c) (w @ c # s) = c # s"
    using w c by (auto simp: word_ok_def list_all_iff takeWhile_tail dropWhile_append3)
  ultimately show ?thesis by (simp add: next_word_def)
qed

section \<open>Letter case\<close>

definition to_lower_char :: "char \<Rightarrow> char" where
  "to_lower_char c = (if 65 \<le> (of_char c :: nat) \<and> (of_char c :: nat) \<le> 90 then char_of (of_char c + 32 :: nat) else c)"

definition to_lower :: "string \<Rightarrow> string" where
  "to_lower s = map to_lower_char s"

lemma to_lower_char_idem [simp]: "to_lower_char (to_lower_char c) = to_lower_char c"
proof (cases "65 \<le> (of_char c :: nat) \<and> (of_char c :: nat) \<le> 90")
  case True
  then have "(of_char (to_lower_char c) :: nat) = of_char c + 32" by (simp add: to_lower_char_def)
  with True show ?thesis by (simp add: to_lower_char_def [of "to_lower_char c"])
next
  case False
  then show ?thesis by (auto simp: to_lower_char_def)
qed

lemma to_lower_idem [simp]: "to_lower (to_lower s) = to_lower s"
  by (simp add: to_lower_def)

end
