(* ===== verification/HttpParser.thy ===== *)
theory HttpParser
  imports StdText "HOL-Library.AList"
begin

text \<open>
  \<open>network/HttpParser.{hpp,cpp}\<close>: the request parser of a client connection. An
  \<open>unordered_map\<close> is an association list; where the code iterates over one, the list
  order stands for the unspecified order of iteration. \<open>Inl\<close> is an exception
  (\<open>stoull\<close> on the value of a \<open>Content-Length\<close> header), which leaves \<open>Feed\<close>.
\<close>

section \<open>Requests\<close>

record HttpRequest =
  rq_method :: string
  rq_path :: string
  rq_version :: string
  rq_headers :: "(string \<times> string) list"
  rq_body :: string
  rq_queryParams :: "(string \<times> string) list"
  rq_pathParams :: "(string \<times> string) list"

definition HttpRequest_default :: HttpRequest where
  "HttpRequest_default = \<lparr>rq_method = [], rq_path = [], rq_version = ''HTTP/1.1'', rq_headers = [], rq_body = [],
     rq_queryParams = [], rq_pathParams = []\<rparr>"

fun get_header_loop :: "string \<Rightarrow> (string \<times> string) list \<Rightarrow> string" where
  "get_header_loop lower [] = []"
| "get_header_loop lower ((k, v) # hs) = (if to_lower k = lower then v else get_header_loop lower hs)"

definition GetHeader :: "string \<Rightarrow> HttpRequest \<Rightarrow> string" where
  "GetHeader name r = get_header_loop (to_lower name) (rq_headers r)"

definition GetQueryParam :: "string \<Rightarrow> HttpRequest \<Rightarrow> string option" where
  "GetQueryParam key r = map_of (rq_queryParams r) key"

definition IsKeepAlive :: "HttpRequest \<Rightarrow> bool" where
  "IsKeepAlive r =
     (let conn = to_lower (GetHeader ''connection'' r)
      in if rq_version r = ''HTTP/1.1'' then conn \<noteq> ''close'' else conn = ''keep-alive'')"

section \<open>URL decoding\<close>

definition hex_nibble :: "char \<Rightarrow> nat" where
  "hex_nibble c = (let n = of_char c :: nat in
     if 48 \<le> n \<and> n \<le> 57 then n - 48
     else if 97 \<le> n \<and> n \<le> 102 then n - 97 + 10
     else if 65 \<le> n \<and> n \<le> 70 then n - 65 + 10 else 0)"

fun UrlDecode :: "string \<Rightarrow> string" where
  "UrlDecode [] = []"
| "UrlDecode (c # s) =
     (if c = CHR ''%'' \<and> 2 \<le> length s
      then char_of (16 * hex_nibble (s ! 0) + hex_nibble (s ! 1)) # UrlDecode (drop 2 s)
      else if c = CHR ''+'' then CHR '' '' # UrlDecode s
      else c # UrlDecode s)"

definition query_pair :: "string \<Rightarrow> (string \<times> string) list \<Rightarrow> (string \<times> string) list" where
  "query_pair pair m =
     (case find_char (CHR ''='') pair of
        None \<Rightarrow> AList.update (UrlDecode pair) [] m
      | Some eq \<Rightarrow> AList.update (UrlDecode (take eq pair)) (UrlDecode (drop (eq + 1) pair)) m)"

definition ParseQueryString :: "string \<Rightarrow> HttpRequest \<Rightarrow> HttpRequest" where
  "ParseQueryString raw r = r\<lparr>rq_queryParams := fold query_pair (getlines (CHR ''&'') raw) (rq_queryParams r)\<rparr>"

section \<open>The parser\<close>

datatype ParseResult = ParseComplete | ParseIncomplete | ParseError

datatype ParserState = PSRequestLine | PSHeaders | PSBody | PSComplete | PSError

record HttpParser =
  hp_state :: ParserState
  hp_buffer :: string
  hp_current :: HttpRequest
  hp_contentLength :: u64
  hp_bodyBytesRead :: u64
  hp_consumed :: u64

definition HttpParser_new :: HttpParser where
  "HttpParser_new = \<lparr>hp_state = PSRequestLine, hp_buffer = [], hp_current = HttpRequest_default, hp_contentLength = 0,
     hp_bodyBytesRead = 0, hp_consumed = 0\<rparr>"

definition ParseBody :: "HttpParser \<Rightarrow> HttpParser \<times> ParseResult" where
  "ParseBody p =
     (if hp_contentLength p = 0 then (p\<lparr>hp_state := PSComplete\<rparr>, ParseComplete)
      else let needed = hp_contentLength p - hp_bodyBytesRead p;
               n = min (length (hp_buffer p)) (unat needed);
               p1 = p\<lparr>hp_current := (hp_current p)\<lparr>rq_body := rq_body (hp_current p) @ take n (hp_buffer p)\<rparr>,
                 hp_buffer := drop n (hp_buffer p), hp_consumed := hp_consumed p + of_nat n,
                 hp_bodyBytesRead := hp_bodyBytesRead p + of_nat n\<rparr>
           in if hp_contentLength p1 \<le> hp_bodyBytesRead p1 then (p1\<lparr>hp_state := PSComplete\<rparr>, ParseComplete)
              else (p1, ParseIncomplete))"

text \<open>The length announced by the headers: the exact name first, then ignoring case.\<close>

fun content_length_loop :: "(string \<times> string) list \<Rightarrow> u64 \<Rightarrow> exn + u64" where
  "content_length_loop [] n = Inr n"
| "content_length_loop ((k, v) # hs) n = (if to_lower k = ''content-length'' then stoull v else content_length_loop hs n)"

definition header_length :: "(string \<times> string) list \<Rightarrow> u64 \<Rightarrow> exn + u64" where
  "header_length hs n =
     (case map_of hs ''content-length'' of None \<Rightarrow> content_length_loop hs n | Some v \<Rightarrow> stoull v)"

definition trim_left :: "string \<Rightarrow> string" where
  "trim_left = dropWhile (\<lambda>c. c = CHR '' '' \<or> c = CHR 0x09)"

text \<open>Removing the first line from the buffer.\<close>

definition take_line :: "nat \<Rightarrow> HttpParser \<Rightarrow> HttpParser" where
  "take_line pos p = p\<lparr>hp_buffer := drop (pos + 2) (hp_buffer p), hp_consumed := hp_consumed p + of_nat (pos + 2)\<rparr>"

lemma find_str_shorter: "find_str crlf s = Some pos \<Longrightarrow> length (drop (pos + 2) s) < length s"
  by (drule find_str_Some) auto

function ParseHeaders :: "HttpParser \<Rightarrow> exn + (HttpParser \<times> ParseResult)" where
  "ParseHeaders p =
     (case find_str crlf (hp_buffer p) of
        None \<Rightarrow> Inr (p, ParseIncomplete)
      | Some pos \<Rightarrow>
          (let line = take pos (hp_buffer p); p1 = take_line pos p in
           if line = [] then
             bind_exn (header_length (rq_headers (hp_current p1)) (hp_contentLength p1))
               (\<lambda>n. Inr (ParseBody (p1\<lparr>hp_contentLength := n, hp_state := PSBody\<rparr>)))
           else
             (case find_char (CHR '':'') line of
                None \<Rightarrow> Inr (p1\<lparr>hp_state := PSError\<rparr>, ParseError)
              | Some colon \<Rightarrow>
                  ParseHeaders (p1\<lparr>hp_current := (hp_current p1)\<lparr>rq_headers :=
                    AList.update (take colon line) (trim_left (drop (colon + 1) line)) (rq_headers (hp_current p1))\<rparr>\<rparr>))))"
  by pat_completeness auto
termination
  by (relation "measure (\<lambda>p. length (hp_buffer p))") (auto simp: take_line_def dest: find_str_shorter)

declare ParseHeaders.simps [simp del]

definition ParseRequestLine :: "HttpParser \<Rightarrow> exn + (HttpParser \<times> ParseResult)" where
  "ParseRequestLine p =
     (if hp_state p = PSComplete \<or> hp_state p = PSError then Inr (p, ParseError)
      else case find_str crlf (hp_buffer p) of
        None \<Rightarrow> Inr (p, ParseIncomplete)
      | Some pos \<Rightarrow>
          (let line = take pos (hp_buffer p); p1 = take_line pos p;
               (meth, s1) = next_word line; (fullPath, s2) = next_word s1; (version, _) = next_word s2 in
           if meth = [] \<or> fullPath = [] then Inr (p1\<lparr>hp_state := PSError\<rparr>, ParseError)
           else let r1 = (hp_current p1)\<lparr>rq_method := meth, rq_version := version\<rparr>;
                    r2 = (case find_char (CHR ''?'') fullPath of
                            Some qpos \<Rightarrow> ParseQueryString (drop (qpos + 1) fullPath) (r1\<lparr>rq_path := take qpos fullPath\<rparr>)
                          | None \<Rightarrow> r1\<lparr>rq_path := fullPath\<rparr>)
                in ParseHeaders (p1\<lparr>hp_current := r2, hp_state := PSHeaders\<rparr>)))"

definition Feed :: "string \<Rightarrow> HttpParser \<Rightarrow> exn + (HttpParser \<times> ParseResult)" where
  "Feed input p = ParseRequestLine (p\<lparr>hp_buffer := hp_buffer p @ input\<rparr>)"

definition HasCompleteRequest :: "HttpParser \<Rightarrow> bool" where
  "HasCompleteRequest p \<longleftrightarrow> hp_state p = PSComplete"

definition BytesConsumed :: "HttpParser \<Rightarrow> u64" where
  "BytesConsumed p = hp_consumed p"

definition HttpParser_Reset :: "HttpParser \<Rightarrow> HttpParser" where
  "HttpParser_Reset p = p\<lparr>hp_current := HttpRequest_default, hp_contentLength := 0, hp_bodyBytesRead := 0,
     hp_consumed := 0, hp_state := PSRequestLine\<rparr>"

definition TakeRequest :: "HttpParser \<Rightarrow> HttpRequest \<times> HttpParser" where
  "TakeRequest p = (hp_current p, HttpParser_Reset p)"

section \<open>No byte is lost\<close>

text \<open>\<open>p'\<close> has consumed the first bytes of what \<open>p\<close> had buffered, and counted them.\<close>

definition advanced :: "HttpParser \<Rightarrow> HttpParser \<Rightarrow> bool" where
  "advanced p p' \<longleftrightarrow> (\<exists>n \<le> length (hp_buffer p).
     hp_buffer p' = drop n (hp_buffer p) \<and> hp_consumed p' = hp_consumed p + of_nat n)"

lemma advanced_same: "hp_buffer p' = hp_buffer p \<Longrightarrow> hp_consumed p' = hp_consumed p \<Longrightarrow> advanced p p'"
  unfolding advanced_def by (intro exI [of _ 0]) simp

lemma advanced_trans: "advanced p q \<Longrightarrow> advanced q r \<Longrightarrow> advanced p r"
proof -
  assume "advanced p q" "advanced q r"
  then obtain m n where "m \<le> length (hp_buffer p)" "hp_buffer q = drop m (hp_buffer p)" "hp_consumed q = hp_consumed p + of_nat m"
    "n \<le> length (hp_buffer q)" "hp_buffer r = drop n (hp_buffer q)" "hp_consumed r = hp_consumed q + of_nat n"
    by (auto simp: advanced_def)
  then show ?thesis unfolding advanced_def by (intro exI [of _ "m + n"]) (simp add: add.commute)
qed

lemma advanced_fields [simp]:
  "advanced p (q\<lparr>hp_state := x\<rparr>) = advanced p q" "advanced (p\<lparr>hp_state := x\<rparr>) q = advanced p q"
  "advanced p (q\<lparr>hp_current := r\<rparr>) = advanced p q" "advanced (p\<lparr>hp_current := r\<rparr>) q = advanced p q"
  "advanced p (q\<lparr>hp_contentLength := n\<rparr>) = advanced p q" "advanced (p\<lparr>hp_contentLength := n\<rparr>) q = advanced p q"
  by (simp_all add: advanced_def)

lemma advanced_line: "find_str crlf (hp_buffer p) = Some pos \<Longrightarrow> advanced p (take_line pos p)"
  unfolding advanced_def take_line_def by (drule find_str_Some) (intro exI [of _ "pos + 2"], simp)

lemma ParseBody_advanced: "advanced p (fst (ParseBody p))"
proof (cases "hp_contentLength p = 0")
  case False
  let ?n = "min (length (hp_buffer p)) (unat (hp_contentLength p - hp_bodyBytesRead p))"
  show ?thesis
    using False unfolding advanced_def ParseBody_def Let_def by (intro exI [of _ ?n]) simp
qed (simp add: ParseBody_def advanced_same)

lemma ParseHeaders_advanced: "ParseHeaders p = Inr (p', res) \<Longrightarrow> advanced p p'"
proof (induction p rule: ParseHeaders.induct)
  case (1 p)
  show ?case
  proof (cases "find_str crlf (hp_buffer p)")
    case None
    with "1.prems" show ?thesis by (simp add: ParseHeaders.simps [of p] advanced_same)
  next
    case (Some pos)
    let ?line = "take pos (hp_buffer p)"
    note adv = advanced_line [OF Some]
    consider (blank) "?line = []" | (bad) "?line \<noteq> []" "find_char (CHR '':'') ?line = None"
      | (header) colon where "?line \<noteq> []" "find_char (CHR '':'') ?line = Some colon"
      by (cases "find_char (CHR '':'') ?line") blast+
    then show ?thesis
    proof cases
      case blank
      then obtain n where "ParseBody ((take_line pos p)\<lparr>hp_contentLength := n, hp_state := PSBody\<rparr>) = (p', res)"
        using "1.prems" Some by (auto simp: ParseHeaders.simps [of p] Let_def bind_exn_Inr)
      with ParseBody_advanced [of "(take_line pos p)\<lparr>hp_contentLength := n, hp_state := PSBody\<rparr>"] adv show ?thesis
        by (auto intro: advanced_trans)
    next
      case bad
      then show ?thesis using "1.prems" Some adv by (auto simp: ParseHeaders.simps [of p] Let_def)
    next
      case header
      note IH = "1.IH" [OF Some refl refl header]
      from header Some "1.prems" show ?thesis
        using IH adv by (simp add: ParseHeaders.simps [of p] Let_def) (blast intro: advanced_trans)
    qed
  qed
qed

lemma ParseRequestLine_advanced: "ParseRequestLine p = Inr (p', res) \<Longrightarrow> advanced p p'"
  by (auto simp: ParseRequestLine_def Let_def split_beta advanced_same split: if_splits option.splits
    dest!: ParseHeaders_advanced intro: advanced_trans advanced_line)

section \<open>Parsing what a client sends\<close>

definition render_headers :: "(string \<times> string) list \<Rightarrow> string" where
  "render_headers hs = concat (map (\<lambda>(k, v). k @ '': '' @ v @ crlf) hs)"

definition render_request :: "string \<Rightarrow> string \<Rightarrow> string \<Rightarrow> (string \<times> string) list \<Rightarrow> string \<Rightarrow> string" where
  "render_request meth path version hs body =
     meth @ '' '' @ path @ '' '' @ version @ crlf @ render_headers hs @ crlf @ body"

definition header_ok :: "string \<times> string \<Rightarrow> bool" where
  "header_ok h = (case h of (k, v) \<Rightarrow> CHR '':'' \<notin> set k \<and> CR \<notin> set k \<and> CR \<notin> set v \<and> trim_left v = v)"

lemma word_no_CR: "word_ok w \<Longrightarrow> CR \<notin> set w"
  by (auto simp: word_ok_def list_all_iff is_space_def CR_def)

lemma is_space_space [simp]: "is_space (CHR '' '')"
  by (simp add: is_space_def)

lemma update_fresh: "k \<notin> fst ` set m \<Longrightarrow> AList.update k v m = m @ [(k, v)]"
  by (induction m) auto

lemma ParseHeaders_header:
  assumes "hp_buffer p = k @ '': '' @ v @ crlf @ rest" "header_ok (k, v)"
  shows "ParseHeaders p = ParseHeaders ((take_line (length k + 2 + length v) p)\<lparr>hp_current :=
    (hp_current p)\<lparr>rq_headers := AList.update k v (rq_headers (hp_current p))\<rparr>\<rparr>)"
proof -
  let ?line = "k @ '': '' @ v"
  have no: "CR \<notin> set ?line" using assms(2) by (auto simp: header_ok_def CR_def)
  then have pos: "find_str crlf (hp_buffer p) = Some (length k + 2 + length v)"
    using find_crlf [of ?line rest] assms(1) by simp
  have line: "take (length k + 2 + length v) (hp_buffer p) = ?line" using assms(1) by simp
  have colon: "find_char (CHR '':'') ?line = Some (length k)"
    using assms(2) find_char_append [of "CHR '':''" k "'' '' @ v"] by (simp add: header_ok_def)
  have "trim_left (CHR '' '' # v) = v" using assms(2) by (simp add: header_ok_def trim_left_def)
  then show ?thesis
    using pos line colon by (subst ParseHeaders.simps) (simp add: Let_def take_line_def)
qed

lemma ParseHeaders_headers:
  assumes "hp_buffer p = render_headers hs @ rest" "list_all header_ok hs" "distinct (map fst (rq_headers (hp_current p) @ hs))"
  shows "ParseHeaders p = ParseHeaders (p\<lparr>hp_buffer := rest, hp_consumed := hp_consumed p + of_nat (length (render_headers hs)),
    hp_current := (hp_current p)\<lparr>rq_headers := rq_headers (hp_current p) @ hs\<rparr>\<rparr>)"
  using assms
proof (induction hs arbitrary: p)
  case (Cons h hs)
  obtain k v where h: "h = (k, v)" by (cases h)
  let ?q = "(take_line (length k + 2 + length v) p)\<lparr>hp_current :=
    (hp_current p)\<lparr>rq_headers := AList.update k v (rq_headers (hp_current p))\<rparr>\<rparr>"
  have "k \<notin> fst ` set (rq_headers (hp_current p))" using Cons.prems(3) h by (auto simp: image_iff)
  note up = update_fresh [OF this, of v]
  have q: "hp_buffer ?q = render_headers hs @ rest" 
    using Cons.prems(1) by (simp add: h render_headers_def take_line_def eval_nat_numeral)
  have "ParseHeaders p = ParseHeaders ?q"
    using Cons.prems(1,2) by (intro ParseHeaders_header [where rest = "render_headers hs @ rest"]) (simp_all add: h render_headers_def)
  also have "\<dots> = ParseHeaders (?q\<lparr>hp_buffer := rest, hp_consumed := hp_consumed ?q + of_nat (length (render_headers hs)),
    hp_current := (hp_current ?q)\<lparr>rq_headers := rq_headers (hp_current ?q) @ hs\<rparr>\<rparr>)"
    using Cons.prems(2,3) h up by (intro Cons.IH [OF q]) auto
  also have "?q\<lparr>hp_buffer := rest, hp_consumed := hp_consumed ?q + of_nat (length (render_headers hs)),
      hp_current := (hp_current ?q)\<lparr>rq_headers := rq_headers (hp_current ?q) @ hs\<rparr>\<rparr> =
    p\<lparr>hp_buffer := rest, hp_consumed := hp_consumed p + of_nat (length (render_headers (h # hs))),
      hp_current := (hp_current p)\<lparr>rq_headers := rq_headers (hp_current p) @ h # hs\<rparr>\<rparr>"
    by (simp add: up h take_line_def render_headers_def algebra_simps)
  finally show ?case .
next
  case Nil
  then show ?case by (cases p) (simp add: render_headers_def)
qed

lemma ParseHeaders_end:
  assumes "hp_buffer p = crlf @ rest" "header_length (rq_headers (hp_current p)) (hp_contentLength p) = Inr n"
  shows "ParseHeaders p = Inr (ParseBody (p\<lparr>hp_buffer := rest, hp_consumed := hp_consumed p + 2,
    hp_contentLength := n, hp_state := PSBody\<rparr>))"
  using assms find_crlf [of "[]" rest] by (subst ParseHeaders.simps) (simp add: take_line_def Let_def)

lemma ParseBody_exact:
  assumes "hp_contentLength p = of_nat (length body)" "length body < 2 ^ 64" "hp_bodyBytesRead p = 0"
    "hp_buffer p = body @ rest" "rq_body (hp_current p) = []"
  shows "\<exists>p'. ParseBody p = (p', ParseComplete) \<and> hp_buffer p' = rest \<and> hp_state p' = PSComplete \<and>
    hp_current p' = (hp_current p)\<lparr>rq_body := body\<rparr>"
proof (cases "body = []")
  case True
  with assms show ?thesis by (cases "hp_current p") (simp add: ParseBody_def)
next
  case False
  have u: "unat (of_nat (length body) :: u64) = length body" using assms(2) by (simp add: unat_of_nat64)
  then have "(of_nat (length body) :: u64) \<noteq> 0" using False by (metis length_0_conv unat_0)
  with assms u show ?thesis by (simp add: ParseBody_def Let_def)
qed

lemma ParseRequestLine_line:
  assumes "hp_buffer p = meth @ '' '' @ path @ '' '' @ version @ crlf @ rest"
    "word_ok meth" "word_ok path" "word_ok version" "CHR ''?'' \<notin> set path" "hp_state p \<noteq> PSComplete" "hp_state p \<noteq> PSError"
  shows "ParseRequestLine p = ParseHeaders (p\<lparr>hp_buffer := rest,
    hp_consumed := hp_consumed p + of_nat (length meth + length path + length version + 4),
    hp_current := (hp_current p)\<lparr>rq_method := meth, rq_version := version, rq_path := path\<rparr>, hp_state := PSHeaders\<rparr>)"
proof -
  let ?line = "meth @ '' '' @ path @ '' '' @ version"
  have "CR \<notin> set ?line" using assms(2-4) by (auto simp: word_no_CR CR_def dest: word_no_CR)
  then have pos: "find_str crlf (hp_buffer p) = Some (length ?line)"
    using find_crlf [of ?line rest] assms(1) by simp
  have line: "take (length ?line) (hp_buffer p) = ?line" "drop (length ?line + 2) (hp_buffer p) = rest"
    using assms(1) by (simp_all add: eval_nat_numeral)
  have w: "next_word ?line = (meth, '' '' @ path @ '' '' @ version)"
    "next_word ('' '' @ path @ '' '' @ version) = (path, '' '' @ version)" "next_word ('' '' @ version) = (version, [])"
    using assms(2-4) by (simp_all add: next_word_word next_word_space next_word_last)
  have ne: "meth \<noteq> []" "path \<noteq> []" using assms(2,3) by (auto simp: word_ok_def)
  have q: "find_char (CHR ''?'') path = None" using assms(5) by (simp add: find_char_None)
  have n: "of_nat (length ?line + 2) = (of_nat (length meth + length path + length version + 4) :: u64)" by simp
  show ?thesis
    unfolding ParseRequestLine_def pos option.case Let_def take_line_def line w prod.case n
    using assms(6,7) ne q by simp
qed

lemma parse_request:
  assumes "hp_buffer p @ input = render_request meth path version hs body @ rest"
    "word_ok meth" "word_ok path" "word_ok version" "CHR ''?'' \<notin> set path" "list_all header_ok hs" "distinct (map fst hs)"
    "header_length hs 0 = Inr (of_nat (length body))" "length body < 2 ^ 64"
    "p = HttpParser_new\<lparr>hp_buffer := hp_buffer p\<rparr>"
  shows "\<exists>p'. Feed input p = Inr (p', ParseComplete) \<and> hp_buffer p' = rest \<and>
    hp_current p' = HttpRequest_default\<lparr>rq_method := meth, rq_path := path, rq_version := version, rq_headers := hs, rq_body := body\<rparr>"
proof -
  let ?p0 = "p\<lparr>hp_buffer := hp_buffer p @ input\<rparr>"
  let ?n1 = "of_nat (length meth + length path + length version + 4) :: u64"
  let ?p1 = "?p0\<lparr>hp_buffer := render_headers hs @ crlf @ body @ rest, hp_consumed := hp_consumed ?p0 + ?n1,
    hp_current := (hp_current ?p0)\<lparr>rq_method := meth, rq_version := version, rq_path := path\<rparr>, hp_state := PSHeaders\<rparr>"
  have new: "hp_state p = PSRequestLine" "hp_current p = HttpRequest_default" "hp_contentLength p = 0" "hp_bodyBytesRead p = 0"
    by (subst assms(10), simp add: HttpParser_new_def)+
  have "hp_buffer ?p0 = meth @ '' '' @ path @ '' '' @ version @ crlf @ render_headers hs @ crlf @ body @ rest"
    using assms(1) by (simp add: render_request_def)
  then have a: "Feed input p = ParseHeaders ?p1"
    unfolding Feed_def using assms(2-5) new(1) by (intro ParseRequestLine_line) simp_all
  let ?p2 = "?p1\<lparr>hp_buffer := crlf @ body @ rest, hp_consumed := hp_consumed ?p1 + of_nat (length (render_headers hs)),
    hp_current := (hp_current ?p1)\<lparr>rq_headers := rq_headers (hp_current ?p1) @ hs\<rparr>\<rparr>"
  have hs0: "rq_headers (hp_current ?p1) = []" using new(2) by (simp add: HttpRequest_default_def)
  have b: "ParseHeaders ?p1 = ParseHeaders ?p2"
    using assms(6,7) hs0 by (intro ParseHeaders_headers) simp_all
  let ?p3 = "?p2\<lparr>hp_buffer := body @ rest, hp_consumed := hp_consumed ?p2 + 2, hp_contentLength := of_nat (length body), hp_state := PSBody\<rparr>"
  have c: "ParseHeaders ?p2 = Inr (ParseBody ?p3)"
    using hs0 assms(8) new(3) by (intro ParseHeaders_end) simp_all
  have "\<exists>p'. ParseBody ?p3 = (p', ParseComplete) \<and> hp_buffer p' = rest \<and> hp_state p' = PSComplete \<and>
      hp_current p' = (hp_current ?p3)\<lparr>rq_body := body\<rparr>"
    using assms(9) new by (intro ParseBody_exact) (simp_all add: HttpRequest_default_def)
  moreover have "(hp_current ?p3)\<lparr>rq_body := body\<rparr> =
      HttpRequest_default\<lparr>rq_method := meth, rq_path := path, rq_version := version, rq_headers := hs, rq_body := body\<rparr>"
    using new(2) by (simp add: HttpRequest_default_def)
  ultimately show ?thesis using a b c by auto
qed

section \<open>Query strings\<close>

definition hex_upper :: "nat \<Rightarrow> char" where
  "hex_upper n = (if n < 10 then char_of (48 + n) else char_of (55 + n))"

text \<open>The encoding of a careful client: every byte as \<open>%XX\<close>.\<close>

definition UrlEncode :: "string \<Rightarrow> string" where
  "UrlEncode s = concat (map (\<lambda>c. [CHR ''%'', hex_upper (of_char c div 16), hex_upper (of_char c mod 16)]) s)"

lemma char_less: "(of_char c :: nat) < 256"
  using unsigned_less [of "of_char c :: u8"] by (simp add: unat_of_char)

lemma hex_nibble_char: "n < 16 \<Longrightarrow> hex_nibble (hex_upper n) = n"
  by (auto simp: hex_nibble_def hex_upper_def Let_def)

lemma UrlDecode_Encode: "UrlDecode (UrlEncode s) = s"
proof (induction s)
  case (Cons c s)
  have lt: "(of_char c :: nat) < 256" by (rule char_less)
  have "of_char c div 16 < (16 :: nat)" "of_char c mod 16 < (16 :: nat)" using lt by (simp_all add: less_mult_imp_div_less)
  then have "char_of (16 * hex_nibble (hex_upper (of_char c div 16)) + hex_nibble (hex_upper (of_char c mod 16))) = c"
    by (simp add: hex_nibble_char)
  with Cons show ?case by (simp add: UrlEncode_def numeral_2_eq_2)
qed (simp add: UrlEncode_def)

lemma UrlEncode_clean: "CHR ''='' \<notin> set (UrlEncode s)" "CHR ''&'' \<notin> set (UrlEncode s)"
proof -
  have h: "hex_upper n \<noteq> CHR ''='' \<and> hex_upper n \<noteq> CHR ''&''" if "n < 16" for n
  proof -
    have "(of_char (hex_upper n) :: nat) = (if n < 10 then 48 + n else 55 + n)" using that by (auto simp: hex_upper_def)
    then show ?thesis using that by (auto split: if_splits)
  qed
  have d: "of_char c div 16 < (16 :: nat)" "of_char c mod 16 < (16 :: nat)" for c
    using char_less [of c] by (simp_all add: less_mult_imp_div_less)
  show "CHR ''='' \<notin> set (UrlEncode s)" "CHR ''&'' \<notin> set (UrlEncode s)"
    using h [OF d(1)] h [OF d(2)] by (auto simp: UrlEncode_def dest: sym)
qed

fun encode_query :: "(string \<times> string) list \<Rightarrow> string" where
  "encode_query [] = []"
| "encode_query [(k, v)] = UrlEncode k @ ''='' @ UrlEncode v"
| "encode_query ((k, v) # kvs) = UrlEncode k @ ''='' @ UrlEncode v @ ''&'' @ encode_query kvs"

lemma query_pair_encoded: "query_pair (UrlEncode k @ ''='' @ UrlEncode v) m = AList.update k v m"
  using find_char_append [OF UrlEncode_clean(1), of k "UrlEncode v"]
  by (simp add: query_pair_def UrlDecode_Encode)

lemma getlines_encode_query:
  "getlines (CHR ''&'') (encode_query kvs) = map (\<lambda>(k, v). UrlEncode k @ ''='' @ UrlEncode v) kvs"
proof (induction kvs rule: encode_query.induct)
  case (2 k v)
  then show ?case
    using getlines_last [of "CHR ''&''" "UrlEncode k @ ''='' @ UrlEncode v"] UrlEncode_clean by simp
next
  case (3 k v h kvs)
  have "CHR ''&'' \<notin> set (UrlEncode k @ ''='' @ UrlEncode v)" using UrlEncode_clean by simp
  from getlines_append [OF this, of "encode_query (h # kvs)"] 3 show ?case by simp
qed simp

lemma query_params:
  "map_of (rq_queryParams (ParseQueryString (encode_query kvs) r)) = map_of (rev kvs @ rq_queryParams r)"
proof -
  have "map_of (fold query_pair (map (\<lambda>(k, v). UrlEncode k @ ''='' @ UrlEncode v) kvs) m) = map_of (rev kvs @ m)" for m
  proof (induction kvs arbitrary: m)
    case (Cons h kvs)
    obtain k v where h: "h = (k, v)" by (cases h)
    have "map_of (rev kvs @ AList.update k v m) = map_of (rev kvs @ (k, v) # m)"
      by (simp add: update_conv map_add_def fun_eq_iff split: option.splits)
    with Cons show ?case by (simp add: h query_pair_encoded [simplified])
  qed simp
  then show ?thesis by (simp add: ParseQueryString_def getlines_encode_query)
qed

section \<open>Properties\<close>

text \<open>
  C23: a request that arrives in one piece, or in pieces that end inside the request line, is
  parsed to its method, path, version, headers and body, and the bytes behind it stay in the
  buffer for the next request.
\<close>

theorem request_parsed:
  assumes "hp_buffer p @ input = render_request meth path version hs body @ rest"
    "word_ok meth" "word_ok path" "word_ok version" "CHR ''?'' \<notin> set path" "list_all header_ok hs" "distinct (map fst hs)"
    "header_length hs 0 = Inr (of_nat (length body))" "length body < 2 ^ 64"
    "p = HttpParser_new\<lparr>hp_buffer := hp_buffer p\<rparr>"
  shows "\<exists>p'. Feed input p = Inr (p', ParseComplete) \<and>
    TakeRequest p' = (HttpRequest_default\<lparr>rq_method := meth, rq_path := path, rq_version := version, rq_headers := hs,
      rq_body := body\<rparr>, HttpParser_new\<lparr>hp_buffer := rest\<rparr>)"
  using parse_request [OF assms] by (auto simp: TakeRequest_def HttpParser_Reset_def HttpParser_new_def)

theorem request_parsed_witness:
  "\<exists>p'. Feed (render_request ''PUT'' ''/v1/kv/a'' ''HTTP/1.1'' [(''content-length'', ''2'')] ''hi'' @ ''GET'') HttpParser_new =
     Inr (p', ParseComplete) \<and> rq_body (hp_current p') = ''hi'' \<and> hp_buffer p' = ''GET''"
proof -
  have "header_length [(''content-length'', ''2'')] 0 = Inr (of_nat (length ''hi''))"
    by (simp add: header_length_def to_lower_def to_lower_char_def stoull_def strip_sign_def is_space_def is_digit_def
      digits_value_def digit_value_def)
  moreover have "word_ok ''PUT''" "word_ok ''/v1/kv/a''" "word_ok ''HTTP/1.1''"
    by (simp_all add: word_ok_def is_space_def)
  moreover have "list_all header_ok [(''content-length'', ''2'')]" by (simp add: header_ok_def CR_def trim_left_def)
  ultimately obtain p' where
    "Feed (render_request ''PUT'' ''/v1/kv/a'' ''HTTP/1.1'' [(''content-length'', ''2'')] ''hi'' @ ''GET'') HttpParser_new =
       Inr (p', ParseComplete)" "TakeRequest p' = (HttpRequest_default\<lparr>rq_method := ''PUT'', rq_path := ''/v1/kv/a'',
       rq_version := ''HTTP/1.1'', rq_headers := [(''content-length'', ''2'')], rq_body := ''hi''\<rparr>, HttpParser_new\<lparr>hp_buffer := ''GET''\<rparr>)"
    using request_parsed [of HttpParser_new "render_request ''PUT'' ''/v1/kv/a'' ''HTTP/1.1'' [(''content-length'', ''2'')] ''hi'' @ ''GET''"
      "''PUT''" "''/v1/kv/a''" "''HTTP/1.1''" "[(''content-length'', ''2'')]" "''hi''" "''GET''"]
    by (auto simp: HttpParser_new_def)
  then show ?thesis by (auto simp: TakeRequest_def HttpParser_Reset_def dest: arg_cong [of _ _ hp_buffer])
qed

text \<open>
  Parsing neither loses nor invents bytes: after every call of \<open>Feed\<close> the buffer is the
  unread end of the old buffer and the new data, and the count of consumed bytes has grown by
  what was taken off the front.
\<close>

theorem Feed_conserves:
  assumes "Feed input p = Inr (p', result)"
  shows "\<exists>n \<le> length (hp_buffer p @ input).
    hp_buffer p' = drop n (hp_buffer p @ input) \<and> hp_consumed p' = hp_consumed p + of_nat n"
  using ParseRequestLine_advanced [OF assms [unfolded Feed_def]] by (simp add: advanced_def)

theorem Feed_conserves_witness:
  "\<exists>p' result n. Feed ''GET'' HttpParser_new = Inr (p', result) \<and> hp_buffer p' = drop n ''GET'' \<and> hp_consumed p' = of_nat n"
proof -
  have eq: "Feed ''GET'' HttpParser_new = Inr (HttpParser_new\<lparr>hp_buffer := ''GET''\<rparr>, ParseIncomplete)"
    by (simp add: Feed_def ParseRequestLine_def HttpParser_new_def CR_def)
  from Feed_conserves [OF eq] eq show ?thesis by (auto simp: HttpParser_new_def)
qed

text \<open>
  A request whose pieces are split after the request line is misread: \<open>Feed\<close> takes the
  next header line for a request line, and reports a complete request with the header's name
  as the method and its value as the path.
\<close>

theorem split_request_misread:
  assumes "word_ok meth" "word_ok path" "word_ok version" "word_ok key" "word_ok v"
    "CHR ''?'' \<notin> set path" "CHR ''?'' \<notin> set v"
  shows "\<exists>p1 p2. Feed (meth @ '' '' @ path @ '' '' @ version @ crlf) HttpParser_new = Inr (p1, ParseIncomplete) \<and>
    Feed (key @ '': '' @ v @ crlf @ crlf) p1 = Inr (p2, ParseComplete) \<and>
    rq_method (hp_current p2) = key @ '':'' \<and> rq_path (hp_current p2) = v \<and> rq_headers (hp_current p2) = []"
proof -
  let ?p0 = "HttpParser_new\<lparr>hp_buffer := meth @ '' '' @ path @ '' '' @ version @ crlf\<rparr>"
  let ?n = "of_nat (length meth + length path + length version + 4) :: u64"
  let ?p1 = "HttpParser_new\<lparr>hp_consumed := ?n, hp_current := HttpRequest_default\<lparr>rq_method := meth, rq_version := version,
    rq_path := path\<rparr>, hp_state := PSHeaders\<rparr>"
  have "ParseRequestLine ?p0 = ParseHeaders ?p1"
    using ParseRequestLine_line [of ?p0 meth path version "[]"] assms by (simp add: HttpParser_new_def)
  moreover have "ParseHeaders ?p1 = Inr (?p1, ParseIncomplete)"
    by (subst ParseHeaders.simps) (simp add: HttpParser_new_def)
  moreover have "HttpParser_new\<lparr>hp_buffer := hp_buffer HttpParser_new @ meth @ '' '' @ path @ '' '' @ version @ crlf\<rparr> = ?p0"
    by (simp add: HttpParser_new_def)
  ultimately have one: "Feed (meth @ '' '' @ path @ '' '' @ version @ crlf) HttpParser_new = Inr (?p1, ParseIncomplete)"
    by (simp only: Feed_def)
  let ?line = "(key @ '':'') @ '' '' @ v" and ?q = "?p1\<lparr>hp_buffer := key @ '': '' @ v @ crlf @ crlf\<rparr>"
  have w: "next_word ?line = (key @ '':'', '' '' @ v)" "next_word ('' '' @ v) = (v, [])" "next_word [] = ([], [])"
    using assms(4,5) next_word_word [of "key @ '':''" "CHR '' ''" v] next_word_last [of v]
    by (simp_all add: word_ok_def next_word_space is_space_def next_word_def)
  have "CR \<notin> set ?line" using assms(4,5) by (auto simp: CR_def dest: word_no_CR)
  then have pos: "find_str crlf (hp_buffer ?q) = Some (length ?line)" using find_crlf [of ?line crlf] by simp
  have line: "take (length ?line) (hp_buffer ?q) = ?line" "drop (length ?line + 2) (hp_buffer ?q) = crlf"
    by (simp_all add: eval_nat_numeral)
  have ne: "v \<noteq> []" "find_char (CHR ''?'') v = None" using assms(5,7) by (auto simp: word_ok_def find_char_None)
  let ?r = "(hp_current ?p1)\<lparr>rq_method := key @ '':'', rq_version := [], rq_path := v\<rparr>"
  let ?q1 = "?q\<lparr>hp_buffer := crlf, hp_consumed := hp_consumed ?q + of_nat (length ?line + 2), hp_current := ?r, hp_state := PSHeaders\<rparr>"
  have "ParseRequestLine ?q = ParseHeaders ?q1"
    unfolding ParseRequestLine_def pos option.case Let_def take_line_def line w prod.case using ne by simp
  also have "\<dots> = Inr (ParseBody (?q1\<lparr>hp_buffer := [], hp_consumed := hp_consumed ?q1 + 2, hp_contentLength := 0, hp_state := PSBody\<rparr>))"
    by (intro ParseHeaders_end) (simp_all add: HttpRequest_default_def HttpParser_new_def header_length_def)
  finally have "\<exists>p2. ParseRequestLine ?q = Inr (p2, ParseComplete) \<and> hp_current p2 = ?r" by (simp add: ParseBody_def)
  then show ?thesis
    using one unfolding Feed_def [of "key @ '': '' @ v @ crlf @ crlf"]
    by (auto simp: HttpParser_new_def HttpRequest_default_def)
qed

theorem split_request_misread_witness:
  "\<exists>p1 p2. Feed (''GET /healthz HTTP/1.1'' @ crlf) HttpParser_new = Inr (p1, ParseIncomplete) \<and>
     Feed (''Host: a'' @ crlf @ crlf) p1 = Inr (p2, ParseComplete) \<and> rq_method (hp_current p2) = ''Host:''"
proof -
  have "word_ok ''GET''" "word_ok ''/healthz''" "word_ok ''HTTP/1.1''" "word_ok ''Host''" "word_ok ''a''"
    by (simp_all add: word_ok_def is_space_def)
  from split_request_misread [OF this] show ?thesis by auto
qed

text \<open>
  Query parameters survive URL encoding: for every list of names and values, encoded byte
  by byte, a lookup after parsing gives the last value of the name.
\<close>

theorem query_roundtrip:
  "GetQueryParam key (ParseQueryString (encode_query kvs) HttpRequest_default) = map_of (rev kvs) key"
  using query_params [of kvs HttpRequest_default] by (simp add: GetQueryParam_def HttpRequest_default_def)

end
