(* ===== verification/HttpResponse.thy ===== *)
theory HttpResponse
  imports StdText JsonText "HOL-Library.AList"
begin

text \<open>
  \<open>network/HttpResponse.{hpp,cpp}\<close>: responses and their wire format. \<open>None\<close> is the exception
  of \<open>json::dump\<close> on a message that is not UTF-8.
\<close>

section \<open>Responses\<close>

record HttpResponse =
  rs_statusCode :: nat
  rs_statusText :: string
  rs_headers :: "(string \<times> string) list"
  rs_body :: string

definition HttpResponse_default :: HttpResponse where
  "HttpResponse_default = \<lparr>rs_statusCode = 200, rs_statusText = ''OK'', rs_headers = [], rs_body = []\<rparr>"

definition JsonErrorBody :: "'j json_ops \<Rightarrow> string \<Rightarrow> string option" where
  "JsonErrorBody J msg = j_dump J (j_obj J [(''error'', j_str J msg)])"

definition HttpResponse_Ok :: "string \<Rightarrow> string \<Rightarrow> HttpResponse" where
  "HttpResponse_Ok body contentType =
     HttpResponse_default\<lparr>rs_statusCode := 200, rs_body := body, rs_headers := [(''Content-Type'', contentType)]\<rparr>"

abbreviation json_type :: string where
  "json_type \<equiv> ''application/json''"

definition HttpResponse_Created :: "string \<Rightarrow> HttpResponse" where
  "HttpResponse_Created body =
     HttpResponse_default\<lparr>rs_statusCode := 201, rs_body := body, rs_headers := [(''Content-Type'', json_type)]\<rparr>"

definition HttpResponse_NoContent :: HttpResponse where
  "HttpResponse_NoContent = HttpResponse_default\<lparr>rs_statusCode := 204\<rparr>"

definition HttpResponse_BadRequest :: "'j json_ops \<Rightarrow> string \<Rightarrow> HttpResponse option" where
  "HttpResponse_BadRequest J msg =
     do { b \<leftarrow> JsonErrorBody J msg;
          Some (HttpResponse_default\<lparr>rs_statusCode := 400, rs_body := b, rs_headers := [(''Content-Type'', json_type)]\<rparr>) }"

definition HttpResponse_Unauthorized :: "'j json_ops \<Rightarrow> string \<Rightarrow> HttpResponse option" where
  "HttpResponse_Unauthorized J msg =
     do { b \<leftarrow> JsonErrorBody J msg;
          Some (HttpResponse_default\<lparr>rs_statusCode := 401, rs_body := b,
            rs_headers := [(''Content-Type'', json_type), (''WWW-Authenticate'', ''Bearer realm=\"orcdb\"'')]\<rparr>) }"

definition HttpResponse_Forbidden :: "'j json_ops \<Rightarrow> string \<Rightarrow> HttpResponse option" where
  "HttpResponse_Forbidden J msg =
     do { b \<leftarrow> JsonErrorBody J msg;
          Some (HttpResponse_default\<lparr>rs_statusCode := 403, rs_body := b, rs_headers := [(''Content-Type'', json_type)]\<rparr>) }"

definition HttpResponse_NotFound :: "'j json_ops \<Rightarrow> string \<Rightarrow> HttpResponse option" where
  "HttpResponse_NotFound J msg =
     do { b \<leftarrow> JsonErrorBody J msg;
          Some (HttpResponse_default\<lparr>rs_statusCode := 404, rs_body := b, rs_headers := [(''Content-Type'', json_type)]\<rparr>) }"

definition HttpResponse_Conflict :: "'j json_ops \<Rightarrow> string \<Rightarrow> HttpResponse option" where
  "HttpResponse_Conflict J msg =
     do { b \<leftarrow> JsonErrorBody J msg;
          Some (HttpResponse_default\<lparr>rs_statusCode := 409, rs_body := b, rs_headers := [(''Content-Type'', json_type)]\<rparr>) }"

definition HttpResponse_InternalError :: "'j json_ops \<Rightarrow> string \<Rightarrow> HttpResponse option" where
  "HttpResponse_InternalError J msg =
     do { b \<leftarrow> JsonErrorBody J msg;
          Some (HttpResponse_default\<lparr>rs_statusCode := 500, rs_body := b, rs_headers := [(''Content-Type'', json_type)]\<rparr>) }"

definition HttpResponse_ServiceUnavailable :: "'j json_ops \<Rightarrow> string \<Rightarrow> HttpResponse option" where
  "HttpResponse_ServiceUnavailable J msg =
     do { b \<leftarrow> JsonErrorBody J msg;
          Some (HttpResponse_default\<lparr>rs_statusCode := 503, rs_body := b, rs_headers := [(''Content-Type'', json_type)]\<rparr>) }"

definition HttpResponse_TemporaryRedirect :: "string \<Rightarrow> HttpResponse" where
  "HttpResponse_TemporaryRedirect location =
     HttpResponse_default\<lparr>rs_statusCode := 307, rs_headers := [(''Location'', location)]\<rparr>"

definition SetHeader :: "string \<Rightarrow> string \<Rightarrow> HttpResponse \<Rightarrow> HttpResponse" where
  "SetHeader key v r = r\<lparr>rs_headers := AList.update key v (rs_headers r)\<rparr>"

definition SetBody :: "string \<Rightarrow> string \<Rightarrow> HttpResponse \<Rightarrow> HttpResponse" where
  "SetBody b contentType r = r\<lparr>rs_body := b, rs_headers := AList.update ''Content-Type'' contentType (rs_headers r)\<rparr>"

definition StatusText :: "nat \<Rightarrow> string" where
  "StatusText code =
     (if code = 200 then ''OK'' else if code = 201 then ''Created'' else if code = 204 then ''No Content''
      else if code = 307 then ''Temporary Redirect'' else if code = 400 then ''Bad Request''
      else if code = 401 then ''Unauthorized'' else if code = 403 then ''Forbidden'' else if code = 404 then ''Not Found''
      else if code = 409 then ''Conflict'' else if code = 500 then ''Internal Server Error''
      else if code = 503 then ''Service Unavailable'' else ''Unknown'')"

definition render_lines :: "(string \<times> string) list \<Rightarrow> string" where
  "render_lines hs = concat (map (\<lambda>(k, v). k @ '': '' @ v @ crlf) hs)"

definition Serialise :: "bool \<Rightarrow> HttpResponse \<Rightarrow> string" where
  "Serialise keepAlive r =
     ''HTTP/1.1 '' @ to_string (rs_statusCode r) @ '' '' @ StatusText (rs_statusCode r) @ crlf @
     render_lines (rs_headers r) @
     ''Content-Length: '' @ to_string (length (rs_body r)) @ crlf @
     ''Connection: '' @ (if keepAlive then ''keep-alive'' else ''close'') @ crlf @ crlf @ rs_body r"

section \<open>Framing\<close>

text \<open>
  What a client does with the bytes of a response: it splits lines until the first empty one,
  reads the length announced and takes that many bytes.
\<close>

function split_head :: "string \<Rightarrow> (string list \<times> string) option" where
  "split_head s =
     (case find_str crlf s of
        None \<Rightarrow> None
      | Some pos \<Rightarrow>
          if pos = 0 then Some ([], drop 2 s)
          else map_option (\<lambda>(ls, rest). (take pos s # ls, rest)) (split_head (drop (pos + 2) s)))"
  by pat_completeness auto
termination
  by (relation "measure length") (auto dest: find_str_Some)

declare split_head.simps [simp del]

lemma split_head_blank: "split_head (crlf @ rest) = Some ([], rest)"
  using find_crlf [of "[]" rest] by (subst split_head.simps) simp

lemma split_head_line:
  assumes "CR \<notin> set l" "l \<noteq> []"
  shows "split_head (l @ crlf @ rest) = map_option (\<lambda>(ls, r). (l # ls, r)) (split_head rest)"
  using find_crlf [OF assms(1), of rest] assms(2) by (subst split_head.simps) (simp add: eval_nat_numeral)

definition line_ok :: "string \<times> string \<Rightarrow> bool" where
  "line_ok h = (case h of (k, v) \<Rightarrow> CR \<notin> set k \<and> CR \<notin> set v)"

lemma split_head_lines:
  assumes "list_all line_ok hs"
  shows "split_head (render_lines hs @ rest) =
    map_option (\<lambda>(ls, r). (map (\<lambda>(k, v). k @ '': '' @ v) hs @ ls, r)) (split_head rest)"
  using assms
proof (induction hs)
  case (Cons h hs)
  obtain k v where h: "h = (k, v)" by (cases h)
  have "CR \<notin> set (k @ '': '' @ v)" using Cons.prems by (auto simp: h line_ok_def CR_def)
  from split_head_line [OF this, of "render_lines hs @ rest"] Cons show ?case
    by (cases "split_head rest") (auto simp: h render_lines_def)
qed (cases "split_head rest"; simp add: render_lines_def)

lemma digits_no_CR: "CR \<notin> set (to_string n)"
  using to_string_digits [of n] by (auto simp: list_all_iff is_digit_def CR_def)

lemma StatusText_no_CR: "CR \<notin> set (StatusText code)"
  by (simp add: StatusText_def CR_def)

lemma Serialise_split:
  assumes "list_all line_ok (rs_headers r)"
  shows "split_head (Serialise keepAlive r @ tail) =
    Some ((''HTTP/1.1 '' @ to_string (rs_statusCode r) @ '' '' @ StatusText (rs_statusCode r)) #
      map (\<lambda>(k, v). k @ '': '' @ v) (rs_headers r) @
      [''Content-Length: '' @ to_string (length (rs_body r)), ''Connection: '' @ (if keepAlive then ''keep-alive'' else ''close'')],
      rs_body r @ tail)"
proof -
  let ?status = "''HTTP/1.1 '' @ to_string (rs_statusCode r) @ '' '' @ StatusText (rs_statusCode r)"
  let ?len = "''Content-Length: '' @ to_string (length (rs_body r))"
  let ?conn = "''Connection: '' @ (if keepAlive then ''keep-alive'' else ''close'')"
  have no: "CR \<notin> set ?status" "CR \<notin> set ?len" "CR \<notin> set ?conn"
    using digits_no_CR StatusText_no_CR by (auto simp: CR_def)
  have eq: "Serialise keepAlive r @ tail =
      ?status @ crlf @ render_lines (rs_headers r) @ ?len @ crlf @ ?conn @ crlf @ crlf @ rs_body r @ tail"
    by (simp add: Serialise_def)
  have ne: "?status \<noteq> []" "?len \<noteq> []" "?conn \<noteq> []" by simp_all
  show ?thesis
    unfolding eq split_head_line [OF no(1) ne(1)] split_head_lines [OF assms] split_head_line [OF no(2) ne(2)]
      split_head_line [OF no(3) ne(3)] split_head_blank option.map prod.case
    by (simp only: append_Nil append_Cons)
qed

section \<open>Properties\<close>

text \<open>
  A client that reads lines up to the first empty one finds the status line, the headers
  and a \<open>Content-Length\<close> that is the length of the body, and the bytes that follow are
  exactly the body and whatever is sent behind it, for every response whose headers contain
  no carriage return.
\<close>

theorem Serialise_framing:
  assumes "list_all line_ok (rs_headers r)"
  shows "\<exists>head. split_head (Serialise keepAlive r @ tail) = Some (head, rs_body r @ tail) \<and>
    hd head = ''HTTP/1.1 '' @ to_string (rs_statusCode r) @ '' '' @ StatusText (rs_statusCode r) \<and>
    (\<exists>v. ''Content-Length: '' @ v \<in> set head \<and> digits_value v = length (rs_body r))"
  using Serialise_split [OF assms] to_string_digits [of "length (rs_body r)"] by auto

theorem Serialise_framing_witness:
  "\<exists>head. split_head (Serialise True (HttpResponse_Ok ''hi'' json_type) @ ''next'') = Some (head, ''hinext'')"
proof -
  have "list_all line_ok (rs_headers (HttpResponse_Ok ''hi'' json_type))"
    by (simp add: HttpResponse_Ok_def HttpResponse_default_def line_ok_def CR_def)
  from Serialise_framing [OF this, of True "''next''"] show ?thesis by (auto simp: HttpResponse_Ok_def)
qed

end
