(* ===== verification/TcpServer.thy ===== *)
theory TcpServer
  imports HttpParser HttpResponse
begin

text \<open>
  \<open>network/TcpServer\<close> and \<open>network/TcpConnection\<close>: client connections and the event loop. What
  the sockets do is part of the events: the results of \<open>recv\<close> and \<open>send\<close> until they would
  block. The handler works on a state of type \<open>'s\<close>; \<open>None\<close> is an exception, which no caller
  catches, or an access outside an array.
\<close>

section \<open>Connections\<close>

record TcpConnection =
  tc_fd :: int
  tc_parser :: HttpParser
  tc_writeBuf :: "u8 list"
  tc_markedClose :: bool
  tc_lastActivity :: time
  tc_epollout :: bool     \<comment> \<open>registered for \<open>EPOLLOUT\<close>\<close>

definition TcpConnection_new :: "time \<Rightarrow> int \<Rightarrow> TcpConnection" where
  "TcpConnection_new now fd = \<lparr>tc_fd = fd, tc_parser = HttpParser_new, tc_writeBuf = [], tc_markedClose = False,
     tc_lastActivity = now, tc_epollout = False\<rparr>"

definition QueueWrite :: "string \<Rightarrow> TcpConnection \<Rightarrow> TcpConnection" where
  "QueueWrite s c = c\<lparr>tc_writeBuf := tc_writeBuf c @ bytes_of s\<rparr>"

definition HasPendingWrite :: "TcpConnection \<Rightarrow> bool" where
  "HasPendingWrite c \<longleftrightarrow> tc_writeBuf c \<noteq> []"

section \<open>Reading and writing\<close>

datatype recv_result = Received string | WouldBlock | PeerClosed | RecvFailed

type_synonym 's RequestHandler = "HttpRequest \<Rightarrow> 's \<Rightarrow> (HttpResponse \<times> 's) option"

text \<open>A complete request: the response is queued and \<open>EPOLLOUT\<close> asked for.\<close>

definition answer_request :: "'s RequestHandler \<Rightarrow> TcpConnection \<Rightarrow> 's \<Rightarrow> (TcpConnection \<times> 's) option" where
  "answer_request handler c s =
     (let (req, p) = TakeRequest (tc_parser c) in
      do { (response, s') \<leftarrow> handler req s;
           let keepAlive = (IsKeepAlive req \<and> \<not> tc_markedClose c);
               c1 = QueueWrite (Serialise keepAlive response) (c\<lparr>tc_parser := p\<rparr>);
               c2 = (if \<not> keepAlive then c1\<lparr>tc_markedClose := True\<rparr> else c1)
           in Some (c2\<lparr>tc_epollout := True\<rparr>, s') })"

fun HandleRead :: "'s RequestHandler \<Rightarrow> time \<Rightarrow> recv_result list \<Rightarrow> TcpConnection \<Rightarrow> 's \<Rightarrow> (TcpConnection \<times> 's) option" where
  "HandleRead handler now [] c s = Some (c, s)"
| "HandleRead handler now (PeerClosed # rs) c s = Some (c\<lparr>tc_markedClose := True\<rparr>, s)"
| "HandleRead handler now (WouldBlock # rs) c s = Some (c, s)"
| "HandleRead handler now (RecvFailed # rs) c s = Some (c\<lparr>tc_markedClose := True\<rparr>, s)"
| "HandleRead handler now (Received d # rs) c s =
     (case Feed d (tc_parser c) of
        Inl _ \<Rightarrow> None
      | Inr (p, result) \<Rightarrow>
          let c1 = c\<lparr>tc_lastActivity := now, tc_parser := p\<rparr> in
          if result = ParseComplete
          then do { (c2, s2) \<leftarrow> answer_request handler c1 s; HandleRead handler now rs c2 s2 }
          else HandleRead handler now rs c1 s)"

text \<open>A result of \<open>send\<close>: the number of bytes taken, and for a number not positive whether it would block.\<close>

fun HandleWrite :: "(int \<times> bool) list \<Rightarrow> TcpConnection \<Rightarrow> TcpConnection \<times> u8 list" where
  "HandleWrite [] c = (c, [])"
| "HandleWrite ((n, again) # rs) c =
     (if tc_writeBuf c = [] then (c, [])
      else if n \<le> 0 then ((if again then c else c\<lparr>tc_markedClose := True\<rparr>), [])
      else let k = nat n; (c', sent) = HandleWrite rs (c\<lparr>tc_writeBuf := drop k (tc_writeBuf c)\<rparr>)
           in (c', take k (tc_writeBuf c) @ sent))"

section \<open>The server\<close>

record TcpServerConfig =
  sc_bindAddress :: string
  sc_port :: u16
  sc_backlog :: int
  sc_numIoThreads :: int
  sc_idleTimeout :: int

definition TcpServerConfig_default :: TcpServerConfig where
  "TcpServerConfig_default = \<lparr>sc_bindAddress = ''0.0.0.0'', sc_port = 2379, sc_backlog = 1024, sc_numIoThreads = 4,
     sc_idleTimeout = 30000\<rparr>"

record TcpServer =
  sv_config :: TcpServerConfig
  sv_running :: bool
  sv_epollFds :: nat      \<comment> \<open>their number\<close>
  sv_nextThread :: u32    \<comment> \<open>an \<open>atomic<int>\<close>\<close>
  sv_connections :: "(int \<times> TcpConnection) list"
  sv_totalConnections :: u64

definition TcpServer_new :: "TcpServerConfig \<Rightarrow> TcpServer" where
  "TcpServer_new cfg = \<lparr>sv_config = cfg, sv_running = False, sv_epollFds = 0, sv_nextThread = 0, sv_connections = [],
     sv_totalConnections = 0\<rparr>"

text \<open>The call that fails while the server starts, if any; otherwise one epoll instance is made for each thread.\<close>

datatype start_failure = NoSocket | NoBind | NoListen | NoEpoll

definition TcpServer_Start :: "start_failure option \<Rightarrow> TcpServer \<Rightarrow> exn + TcpServer" where
  "TcpServer_Start fail sv =
     (case fail of
        Some NoSocket \<Rightarrow> Inl (RuntimeError ''socket() failed'')
      | Some NoBind \<Rightarrow> Inl (RuntimeError (''bind() failed on port '' @ to_string (unat (sc_port (sv_config sv)))))
      | Some NoListen \<Rightarrow> Inl (RuntimeError ''listen() failed'')
      | Some NoEpoll \<Rightarrow> Inl (RuntimeError ''epoll_create1() failed'')
      | None \<Rightarrow> Inr (sv\<lparr>sv_running := True, sv_epollFds := nat (sc_numIoThreads (sv_config sv))\<rparr>))"

definition TcpServer_Stop :: "TcpServer \<Rightarrow> TcpServer" where
  "TcpServer_Stop sv = (if \<not> sv_running sv then sv else sv\<lparr>sv_running := False, sv_epollFds := 0\<rparr>)"

text \<open>The remainder of C++, which has the sign of the dividend.\<close>

definition cxx_rem :: "int \<Rightarrow> int \<Rightarrow> int" where
  "cxx_rem a b = (if a < 0 then - ((- a) mod \<bar>b\<bar>) else a mod \<bar>b\<bar>)"

text \<open>
  An accepted connection is assigned to a thread in turn. Dividing by zero threads and an
  index outside \<open>epollFds_\<close> are undefined.
\<close>

definition AcceptLoop_accept :: "time \<Rightarrow> int \<Rightarrow> TcpServer \<Rightarrow> (TcpServer \<times> nat) option" where
  "AcceptLoop_accept now clientFd sv =
     (let n = sc_numIoThreads (sv_config sv); counter = sint (sv_nextThread sv); tid = cxx_rem counter n in
      if n = 0 \<or> tid < 0 \<or> int (sv_epollFds sv) \<le> tid then None
      else Some (sv\<lparr>sv_nextThread := sv_nextThread sv + 1,
        sv_connections := AList.update clientFd (TcpConnection_new now clientFd) (sv_connections sv),
        sv_totalConnections := sv_totalConnections sv + 1\<rparr>, nat tid))"

text \<open>
  The inner loop of \<open>AcceptLoop\<close> for one readable event: the results of \<open>accept4\<close> in turn, the
  first negative one ends it. The accepted connections are given with their threads.
\<close>

fun AcceptLoop_drain :: "(time \<times> int) list \<Rightarrow> TcpServer \<Rightarrow> (TcpServer \<times> (int \<times> nat) list) option" where
  "AcceptLoop_drain [] sv = Some (sv, [])"
| "AcceptLoop_drain ((now, fd) # rs) sv =
     (if fd < 0 then Some (sv, [])
      else do { (sv1, tid) \<leftarrow> AcceptLoop_accept now fd sv;
                (sv2, rest) \<leftarrow> AcceptLoop_drain rs sv1;
                Some (sv2, (fd, tid) # rest) })"

record io_event =
  ev_fd :: int
  ev_error :: bool        \<comment> \<open>\<open>EPOLLERR | EPOLLHUP\<close>\<close>
  ev_in :: bool
  ev_out :: bool
  ev_reads :: "recv_result list"
  ev_writes :: "(int \<times> bool) list"

definition IoLoop_event ::
  "'s RequestHandler \<Rightarrow> time \<Rightarrow> io_event \<Rightarrow> TcpServer \<Rightarrow> 's \<Rightarrow> (TcpServer \<times> 's \<times> u8 list) option" where
  "IoLoop_event handler now ev sv s =
     (case map_of (sv_connections sv) (ev_fd ev) of
        None \<Rightarrow> Some (sv, s, [])
      | Some conn \<Rightarrow>
          do { let fail = ev_error ev;
               (c1, s1) \<leftarrow> (if \<not> fail \<and> ev_in ev then HandleRead handler now (ev_reads ev) conn s else Some (conn, s));
               let close1 = (fail \<or> ev_in ev \<and> tc_markedClose c1);
                   (c2, sent) = (if \<not> close1 \<and> ev_out ev then HandleWrite (ev_writes ev) c1 else (c1, []));
                   close2 = (close1 \<or> ev_out ev \<and> tc_markedClose c2 \<and> \<not> HasPendingWrite c2)
               in Some (sv\<lparr>sv_connections := (if close2 then AList.delete (ev_fd ev) (sv_connections sv)
                    else AList.update (ev_fd ev) c2 (sv_connections sv))\<rparr>, s1, sent) })"

fun IoLoop ::
  "'s RequestHandler \<Rightarrow> (time \<times> io_event) list \<Rightarrow> TcpServer \<Rightarrow> 's \<Rightarrow> (TcpServer \<times> 's \<times> (int \<times> u8 list) list) option" where
  "IoLoop handler [] sv s = Some (sv, s, [])"
| "IoLoop handler ((now, ev) # evs) sv s =
     do { (sv1, s1, sent) \<leftarrow> IoLoop_event handler now ev sv s;
          (sv2, s2, rest) \<leftarrow> IoLoop handler evs sv1 s1;
          Some (sv2, s2, (ev_fd ev, sent) # rest) }"

definition ActiveConnections :: "TcpServer \<Rightarrow> nat" where
  "ActiveConnections sv = length (sv_connections sv)"

section \<open>Order of the responses\<close>

type_synonym queued = "(bool \<times> HttpResponse) list"

definition response_bytes :: "queued \<Rightarrow> u8 list" where
  "response_bytes rs = concat (map (\<lambda>(keepAlive, r). bytes_of (Serialise keepAlive r)) rs)"

lemma response_bytes_append: "response_bytes (rs @ qs) = response_bytes rs @ response_bytes qs"
  by (simp add: response_bytes_def)

lemma answer_request_queues:
  "answer_request handler c s = Some (c', s') \<Longrightarrow> \<exists>rs. tc_writeBuf c' = tc_writeBuf c @ response_bytes rs"
  by (auto simp: answer_request_def QueueWrite_def Let_def split_beta response_bytes_def split: bind_splits if_splits)
    (metis concat.simps append_Nil2 list.map(1,2) old.prod.case)+

lemma HandleRead_queues:
  "HandleRead handler now rs c s = Some (c', s') \<Longrightarrow> \<exists>qs. tc_writeBuf c' = tc_writeBuf c @ response_bytes qs"
proof (induction handler now rs c s rule: HandleRead.induct)
  case (1 handler now c s)
  then show ?case by (auto intro: exI [of _ "[]"] simp: response_bytes_def)
next
  case (2 handler now rs c s)
  then show ?case by (auto intro: exI [of _ "[]"] simp: response_bytes_def)
next
  case (3 handler now rs c s)
  then show ?case by (auto intro: exI [of _ "[]"] simp: response_bytes_def)
next
  case (4 handler now rs c s)
  then show ?case by (auto intro: exI [of _ "[]"] simp: response_bytes_def)
next
  case (5 handler now d rs c s)
  obtain p result where f: "Feed d (tc_parser c) = Inr (p, result)" using "5.prems" by (auto split: sum.splits)
  let ?c1 = "c\<lparr>tc_lastActivity := now, tc_parser := p\<rparr>"
  show ?case
  proof (cases "result = ParseComplete")
    case True
    then obtain c2 s2 where a: "answer_request handler ?c1 s = Some (c2, s2)" "HandleRead handler now rs c2 s2 = Some (c', s')"
      using "5.prems" f by (auto simp: Let_def split: bind_splits)
    obtain qs where "tc_writeBuf c2 = tc_writeBuf c @ response_bytes qs" using answer_request_queues [OF a(1)] by auto
    moreover obtain qs' where "tc_writeBuf c' = tc_writeBuf c2 @ response_bytes qs'"
      using "5.IH"(1) [OF f refl refl True] a by blast
    ultimately show ?thesis by (intro exI [of _ "qs @ qs'"]) (simp add: response_bytes_append)
  next
    case False
    then show ?thesis using "5.prems" f "5.IH"(2) [OF f refl refl False] by (auto simp: Let_def)
  qed
qed

lemma HandleWrite_conserves: "HandleWrite ws c = (c', sent) \<Longrightarrow> sent @ tc_writeBuf c' = tc_writeBuf c"
proof (induction ws c arbitrary: c' sent rule: HandleWrite.induct)
  case (2 n again rs c)
  show ?case
  proof (cases "tc_writeBuf c = [] \<or> n \<le> 0")
    case False
    then obtain sent' where "HandleWrite rs (c\<lparr>tc_writeBuf := drop (nat n) (tc_writeBuf c)\<rparr>) = (c', sent')"
      "sent = take (nat n) (tc_writeBuf c) @ sent'"
      using "2.prems" by (auto simp: Let_def split: prod.splits)
    then show ?thesis using "2.IH" False by simp
  qed (use "2.prems" in \<open>auto split: if_splits\<close>)
qed simp

text \<open>The bytes sent on a connection in a run of the loop.\<close>

definition sent_on :: "int \<Rightarrow> (int \<times> u8 list) list \<Rightarrow> u8 list" where
  "sent_on fd outs = concat (map snd (filter (\<lambda>(f, _). f = fd) outs))"

lemma event_closed: "map_of (sv_connections sv) (ev_fd ev) = None \<Longrightarrow> IoLoop_event handler now ev sv s = Some (sv, s, [])"
  by (simp add: IoLoop_event_def)

definition must_close :: "io_event \<Rightarrow> TcpConnection \<Rightarrow> bool" where
  "must_close ev c \<longleftrightarrow> ev_error ev \<or> ev_in ev \<and> tc_markedClose c"

lemma IoLoop_eventE:
  assumes "IoLoop_event handler now ev sv s = Some (sv', s', sent)" "map_of (sv_connections sv) (ev_fd ev) = Some c"
  obtains c1 c2 where
    "(if \<not> ev_error ev \<and> ev_in ev then HandleRead handler now (ev_reads ev) c s else Some (c, s)) = Some (c1, s')"
    "(if \<not> must_close ev c1 \<and> ev_out ev then HandleWrite (ev_writes ev) c1 else (c1, [])) = (c2, sent)"
    "sv' = sv\<lparr>sv_connections := (if must_close ev c1 \<or> ev_out ev \<and> tc_markedClose c2 \<and> \<not> HasPendingWrite c2
       then AList.delete (ev_fd ev) (sv_connections sv) else AList.update (ev_fd ev) c2 (sv_connections sv))\<rparr>"
proof -
  obtain c1 s1 where r: "(if \<not> ev_error ev \<and> ev_in ev then HandleRead handler now (ev_reads ev) c s else Some (c, s)) = Some (c1, s1)"
    "(case if \<not> must_close ev c1 \<and> ev_out ev then HandleWrite (ev_writes ev) c1 else (c1, []) of (c2, sent) \<Rightarrow>
        Some (sv\<lparr>sv_connections := (if must_close ev c1 \<or> ev_out ev \<and> tc_markedClose c2 \<and> \<not> HasPendingWrite c2
          then AList.delete (ev_fd ev) (sv_connections sv) else AList.update (ev_fd ev) c2 (sv_connections sv))\<rparr>, s1, sent)) =
      Some (sv', s', sent)"
    using assms(1) unfolding IoLoop_event_def assms(2) option.case Let_def bind_eq_Some_conv must_close_def [symmetric] by auto
  obtain c2 sent' where "(if \<not> must_close ev c1 \<and> ev_out ev then HandleWrite (ev_writes ev) c1 else (c1, [])) = (c2, sent')" by force
  with r that show ?thesis by auto
qed

lemma event_other:
  assumes "IoLoop_event handler now ev sv s = Some (sv', s', sent)" "ev_fd ev \<noteq> fd"
  shows "map_of (sv_connections sv') fd = map_of (sv_connections sv) fd"
proof (cases "map_of (sv_connections sv) (ev_fd ev)")
  case (Some c)
  show ?thesis by (rule IoLoop_eventE [OF assms(1) Some]) (use assms(2) in \<open>simp add: delete_conv' update_conv'\<close>)
next
  case None
  from event_closed [OF this, of handler now s] assms(1) show ?thesis by simp
qed

lemma event_conserves:
  assumes "IoLoop_event handler now ev sv s = Some (sv', s', sent)" "map_of (sv_connections sv) (ev_fd ev) = Some c"
  shows "\<exists>qs rest. sent @ rest = tc_writeBuf c @ response_bytes qs \<and>
    (map_of (sv_connections sv') (ev_fd ev) = None \<or>
     (\<exists>c'. map_of (sv_connections sv') (ev_fd ev) = Some c' \<and> rest = tc_writeBuf c'))"
proof -
  obtain c1 c2 where r: "(if \<not> ev_error ev \<and> ev_in ev then HandleRead handler now (ev_reads ev) c s else Some (c, s)) = Some (c1, s')"
    and w: "(if \<not> must_close ev c1 \<and> ev_out ev then HandleWrite (ev_writes ev) c1 else (c1, [])) = (c2, sent)"
    and sv': "sv' = sv\<lparr>sv_connections := (if must_close ev c1 \<or> ev_out ev \<and> tc_markedClose c2 \<and> \<not> HasPendingWrite c2
       then AList.delete (ev_fd ev) (sv_connections sv) else AList.update (ev_fd ev) c2 (sv_connections sv))\<rparr>"
    using IoLoop_eventE [OF assms] .
  have "\<exists>qs. tc_writeBuf c1 = tc_writeBuf c @ response_bytes qs"
  proof (cases "\<not> ev_error ev \<and> ev_in ev")
    case True
    then have "HandleRead handler now (ev_reads ev) c s = Some (c1, s')" using r by (auto split: if_splits)
    then show ?thesis by (rule HandleRead_queues)
  next
    case False
    then have "c1 = c" using r by (auto split: if_splits)
    then show ?thesis by (intro exI [of _ "[]"]) (simp add: response_bytes_def)
  qed
  then obtain qs where qs: "tc_writeBuf c1 = tc_writeBuf c @ response_bytes qs" ..
  have "sent @ tc_writeBuf c2 = tc_writeBuf c1" using w HandleWrite_conserves [of "ev_writes ev" c1 c2 sent] by (auto split: if_splits)
  moreover have "map_of (sv_connections sv') (ev_fd ev) = None \<or> map_of (sv_connections sv') (ev_fd ev) = Some c2"
    unfolding sv' by (simp add: delete_conv' update_conv')
  ultimately show ?thesis using qs by auto
qed

lemma closed_stays:
  "IoLoop handler evs sv s = Some (sv', s', outs) \<Longrightarrow> map_of (sv_connections sv) fd = None \<Longrightarrow>
     map_of (sv_connections sv') fd = None \<and> sent_on fd outs = []"
proof (induction evs arbitrary: sv s outs)
  case (Cons e evs)
  obtain now ev where e: "e = (now, ev)" by (cases e)
  obtain sv1 s1 sent outs1 where r: "IoLoop_event handler now ev sv s = Some (sv1, s1, sent)"
    "IoLoop handler evs sv1 s1 = Some (sv', s', outs1)" "outs = (ev_fd ev, sent) # outs1"
    using Cons.prems(1) by (auto simp: e split: bind_splits)
  have "map_of (sv_connections sv1) fd = None" "ev_fd ev = fd \<Longrightarrow> sent = []"
    using Cons.prems(2) event_other [OF r(1), of fd] event_closed [of sv ev handler now s] r(1) by (cases "ev_fd ev = fd"; auto)+
  then show ?case using Cons.IH [OF r(2)] r(3) by (simp add: sent_on_def)
qed (simp add: sent_on_def)

lemma run_conserves:
  "IoLoop handler evs sv s = Some (sv', s', outs) \<Longrightarrow> map_of (sv_connections sv) fd = Some c \<Longrightarrow>
     \<exists>qs rest. sent_on fd outs @ rest = tc_writeBuf c @ response_bytes qs \<and>
       (map_of (sv_connections sv') fd = None \<or> (\<exists>c'. map_of (sv_connections sv') fd = Some c' \<and> rest = tc_writeBuf c'))"
proof (induction evs arbitrary: sv s outs c)
  case Nil
  then show ?case by (auto simp: sent_on_def response_bytes_def intro: exI [of _ "[]"])
next
  case (Cons e evs)
  obtain now ev where e: "e = (now, ev)" by (cases e)
  obtain sv1 s1 sent outs1 where r: "IoLoop_event handler now ev sv s = Some (sv1, s1, sent)"
    "IoLoop handler evs sv1 s1 = Some (sv', s', outs1)" "outs = (ev_fd ev, sent) # outs1"
    using Cons.prems(1) by (auto simp: e split: bind_splits)
  show ?case
  proof (cases "ev_fd ev = fd")
    case False
    then have "map_of (sv_connections sv1) fd = Some c" using event_other [OF r(1)] Cons.prems(2) by simp
    from Cons.IH [OF r(2) this] False r(3) show ?thesis by (simp add: sent_on_def)
  next
    case True
    then obtain qs rest where q: "sent @ rest = tc_writeBuf c @ response_bytes qs"
      "map_of (sv_connections sv1) fd = None \<or> (\<exists>c1. map_of (sv_connections sv1) fd = Some c1 \<and> rest = tc_writeBuf c1)"
      using event_conserves [OF r(1)] Cons.prems(2) by blast
    have out: "sent_on fd outs = sent @ sent_on fd outs1" using True r(3) by (simp add: sent_on_def)
    show ?thesis
    proof (cases "map_of (sv_connections sv1) fd")
      case None
      from closed_stays [OF r(2) this] q(1) out show ?thesis by auto
    next
      case (Some c1)
      then have c1: "rest = tc_writeBuf c1" using q(2) by simp
      obtain qs' rest' where "sent_on fd outs1 @ rest' = tc_writeBuf c1 @ response_bytes qs'"
        and n: "map_of (sv_connections sv') fd = None \<or> (\<exists>c'. map_of (sv_connections sv') fd = Some c' \<and> rest' = tc_writeBuf c')"
        using Cons.IH [OF r(2) Some] by blast
      moreover have "sent @ tc_writeBuf c1 = tc_writeBuf c @ response_bytes qs" using q(1) c1 by simp
      ultimately have "sent_on fd outs @ rest' = tc_writeBuf c @ response_bytes (qs @ qs')"
        unfolding out response_bytes_append by (metis append.assoc)
      then show ?thesis using n by blast
    qed
  qed
qed

section \<open>Handlers that keep a part of the state\<close>

text \<open>No call of the handler changes the part \<open>f\<close> of the state.\<close>

definition handler_keeps :: "('s \<Rightarrow> 'a) \<Rightarrow> 's RequestHandler \<Rightarrow> bool" where
  "handler_keeps f handler \<longleftrightarrow> (\<forall>req s resp s'. handler req s = Some (resp, s') \<longrightarrow> f s' = f s)"

lemma answer_request_keeps:
  assumes "handler_keeps f handler" "answer_request handler c s = Some (c', s')"
  shows "f s' = f s"
proof -
  obtain req resp where "handler req s = Some (resp, s')"
    using assms(2) by (auto simp: answer_request_def Let_def split_beta split: bind_splits if_splits)
  then show ?thesis using assms(1) by (auto simp: handler_keeps_def)
qed

lemma HandleRead_keeps:
  assumes "handler_keeps f handler"
  shows "HandleRead handler now rs c s = Some (c', s') \<Longrightarrow> f s' = f s"
proof (induction rs arbitrary: c s)
  case (Cons r rs)
  show ?case
  proof (cases r)
    case (Received d)
    with Cons.prems obtain c1 s1 where "HandleRead handler now rs c1 s1 = Some (c', s')"
        "s1 = s \<or> (\<exists>c0. answer_request handler c0 s = Some (c1, s1))"
      by (auto simp: Let_def split: sum.splits if_splits bind_splits) blast
    then show ?thesis using Cons.IH answer_request_keeps [OF assms] by metis
  qed (use Cons.prems in auto)
qed simp

lemma IoLoop_event_keeps:
  assumes "handler_keeps f handler" "IoLoop_event handler now ev sv s = Some (sv', s', sent)"
  shows "f s' = f s"
proof (cases "map_of (sv_connections sv) (ev_fd ev)")
  case None
  then show ?thesis using assms(2) by (simp add: event_closed)
next
  case (Some c)
  from IoLoop_eventE [OF assms(2) Some] obtain c1 where
    "(if \<not> ev_error ev \<and> ev_in ev then HandleRead handler now (ev_reads ev) c s else Some (c, s)) = Some (c1, s')" by metis
  then show ?thesis using HandleRead_keeps [OF assms(1)] by (auto split: if_splits)
qed

lemma IoLoop_keeps:
  assumes "handler_keeps f handler"
  shows "IoLoop handler evs sv s = Some (sv', s', outs) \<Longrightarrow> f s' = f s"
proof (induction evs arbitrary: sv s outs)
  case (Cons e evs)
  obtain now ev where e: "e = (now, ev)" by (cases e)
  from Cons.prems obtain sv1 s1 sent rest where r: "IoLoop_event handler now ev sv s = Some (sv1, s1, sent)"
    "IoLoop handler evs sv1 s1 = Some (sv', s', rest)" unfolding e by (auto split: bind_splits)
  show ?case using IoLoop_event_keeps [OF assms r(1)] Cons.IH [OF r(2)] by simp
qed simp

section \<open>One request\<close>

text \<open>The bytes a well-behaved client sends for a request.\<close>

definition client_bytes :: "string \<Rightarrow> HttpRequest \<Rightarrow> bool" where
  "client_bytes input req \<longleftrightarrow> (\<exists>meth path version hs body.
     input = render_request meth path version hs body \<and> word_ok meth \<and> word_ok path \<and> word_ok version \<and> CHR ''?'' \<notin> set path \<and>
     list_all header_ok hs \<and> distinct (map fst hs) \<and> header_length hs 0 = Inr (of_nat (length body)) \<and> length body < 2 ^ 64 \<and>
     req = HttpRequest_default\<lparr>rq_method := meth, rq_path := path, rq_version := version, rq_headers := hs, rq_body := body\<rparr>)"

lemma client_bytes_parsed:
  assumes "client_bytes input req"
  obtains p where "Feed input HttpParser_new = Inr (p, ParseComplete)" "TakeRequest p = (req, HttpParser_new)"
proof -
  obtain meth path version hs body where c: "input = render_request meth path version hs body" "word_ok meth" "word_ok path"
    "word_ok version" "CHR ''?'' \<notin> set path" "list_all header_ok hs" "distinct (map fst hs)"
    "header_length hs 0 = Inr (of_nat (length body))" "length body < 2 ^ 64"
    "req = HttpRequest_default\<lparr>rq_method := meth, rq_path := path, rq_version := version, rq_headers := hs, rq_body := body\<rparr>"
    using assms unfolding client_bytes_def by blast
  have "hp_buffer HttpParser_new @ input = render_request meth path version hs body @ []" by (simp add: c(1) HttpParser_new_def)
  from parse_request [OF this c(2-9)] obtain p where p: "Feed input HttpParser_new = Inr (p, ParseComplete)" "hp_buffer p = []"
      "hp_current p = req" by (auto simp: HttpParser_new_def c(10))
  then have "TakeRequest p = (req, HttpParser_new)" by (simp add: TakeRequest_def HttpParser_Reset_def HttpParser_new_def)
  with p(1) show ?thesis by (rule that)
qed

definition idle :: "TcpConnection \<Rightarrow> bool" where
  "idle c \<longleftrightarrow> tc_parser c = HttpParser_new \<and> tc_writeBuf c = [] \<and> \<not> tc_markedClose c"

lemma HandleRead_request:
  assumes "client_bytes input req" "idle c" "handler req s = Some (resp, s')"
  shows "HandleRead handler now [Received input, WouldBlock] c s =
    Some (c\<lparr>tc_lastActivity := now, tc_writeBuf := bytes_of (Serialise (IsKeepAlive req) resp), tc_markedClose := \<not> IsKeepAlive req,
      tc_epollout := True\<rparr>, s')"
proof -
  obtain p where "Feed input HttpParser_new = Inr (p, ParseComplete)" "TakeRequest p = (req, HttpParser_new)"
    using client_bytes_parsed [OF assms(1)] .
  then show ?thesis using assms(2,3) by (cases c) (simp add: idle_def answer_request_def QueueWrite_def Let_def)
qed

definition read_event :: "int \<Rightarrow> string \<Rightarrow> io_event" where
  "read_event fd input = \<lparr>ev_fd = fd, ev_error = False, ev_in = True, ev_out = False, ev_reads = [Received input, WouldBlock], ev_writes = []\<rparr>"

definition write_event :: "int \<Rightarrow> (int \<times> bool) list \<Rightarrow> io_event" where
  "write_event fd ws = \<lparr>ev_fd = fd, ev_error = False, ev_in = False, ev_out = True, ev_reads = [], ev_writes = ws\<rparr>"

lemma cxx_rem_pos:
  assumes "0 < n"
  shows "cxx_rem k n < 0 \<longleftrightarrow> k < 0 \<and> \<not> n dvd k" "cxx_rem k n < n" "0 \<le> cxx_rem k n \<Longrightarrow> cxx_rem k n = k mod n"
proof -
  have m: "0 \<le> x mod n" "x mod n < n" for x using assms by simp_all
  show "cxx_rem k n < 0 \<longleftrightarrow> k < 0 \<and> \<not> n dvd k"
    using m [of "- k"] m [of k] assms by (auto simp: cxx_rem_def dvd_eq_mod_eq_0 zmod_zminus1_eq_if not_less)
  have neg: "cxx_rem k n = - ((- k) mod n)" if "k < 0" using that assms by (simp add: cxx_rem_def)
  show "cxx_rem k n < n"
  proof (cases "k < 0")
    case True
    with neg m(1) [of "- k"] assms show ?thesis by linarith
  qed (use m(2) [of k] assms in \<open>simp add: cxx_rem_def\<close>)
  show "cxx_rem k n = k mod n" if "0 \<le> cxx_rem k n"
  proof (cases "k < 0")
    case True
    with neg that m(1) [of "- k"] have "(- k) mod n = 0" by linarith
    moreover from this have "k mod n = 0" by (simp add: dvd_eq_mod_eq_0 [symmetric])
    ultimately show ?thesis using neg [OF True] by simp
  qed (use assms in \<open>simp add: cxx_rem_def\<close>)
qed

text \<open>A fresh server spreads its connections over the threads in turn.\<close>

lemma AcceptLoop_step:
  assumes "sint (sv_nextThread sv) = int k" "sc_numIoThreads (sv_config sv) = int n" "sv_epollFds sv = n" "0 < n"
  shows "\<exists>sv'. AcceptLoop_accept now fd sv = Some (sv', k mod n) \<and> sv_nextThread sv' = sv_nextThread sv + 1 \<and>
    sv_config sv' = sv_config sv \<and> sv_epollFds sv' = sv_epollFds sv"
proof -
  have "cxx_rem (int k) (int n) = int (k mod n)" by (simp add: cxx_rem_def zmod_int)
  then show ?thesis using assms by (simp add: AcceptLoop_accept_def Let_def not_le)
qed

lemma AcceptLoop_round_robin:
  assumes "sv_nextThread sv = of_nat k" "k + length fds < 2 ^ 31" "sc_numIoThreads (sv_config sv) = int n" "sv_epollFds sv = n" "0 < n"
    "list_all (\<lambda>(_, fd). 0 \<le> fd) fds"
  shows "\<exists>sv' out. AcceptLoop_drain fds sv = Some (sv', out) \<and> map fst out = map snd fds \<and> map snd out = map (\<lambda>i. i mod n) [k..<k + length fds]"
  using assms
proof (induction fds arbitrary: sv k)
  case (Cons x fds)
  obtain now fd where x: "x = (now, fd)" by (cases x)
  have s: "sint (sv_nextThread sv) = int k"
    using Cons.prems(1,2) by (simp add: sint_uint uint_nat unat_of_nat signed_take_bit_int_eq_self)
  obtain sv1 where a: "AcceptLoop_accept now fd sv = Some (sv1, k mod n)" "sv_nextThread sv1 = of_nat (Suc k)"
      "sv_config sv1 = sv_config sv" "sv_epollFds sv1 = sv_epollFds sv"
    using AcceptLoop_step [OF s Cons.prems(3-5)] Cons.prems(1) by (auto simp: add.commute)
  have p: "Suc k + length fds < 2 ^ 31" "sc_numIoThreads (sv_config sv1) = int n" "sv_epollFds sv1 = n" "list_all (\<lambda>(_, fd). 0 \<le> fd) fds"
    using Cons.prems a(3,4) by simp_all
  obtain sv' out where "AcceptLoop_drain fds sv1 = Some (sv', out)" "map fst out = map snd fds"
      "map snd out = map (\<lambda>i. i mod n) [Suc k..<Suc k + length fds]"
    using Cons.IH [OF a(2) p(1-3) Cons.prems(5) p(4)] by blast
  moreover have "[k..<k + length (x # fds)] = k # [Suc k..<Suc k + length fds]" by (simp add: upt_conv_Cons del: upt_Suc)
  ultimately show ?case using a(1) Cons.prems(6) by (simp add: x del: upt_Suc)
qed simp

section \<open>Properties\<close>


text \<open>
  A request that does not keep the connection alive is never answered. Its handler runs,
  but the event that read it closes the connection before a byte of the response is sent,
  even if the socket is writable.
\<close>

theorem close_loses_response:
  assumes "map_of (sv_connections sv) fd = Some c" "idle c" "client_bytes input req" "\<not> IsKeepAlive req"
    "handler req s = Some (resp, s')"
  shows "IoLoop_event handler now ((read_event fd input)\<lparr>ev_out := out, ev_writes := ws\<rparr>) sv s =
    Some (sv\<lparr>sv_connections := AList.delete fd (sv_connections sv)\<rparr>, s', [])"
  using HandleRead_request [where handler = handler and now = now, OF assms(3,2,5)] assms(1,4) by (simp add: IoLoop_event_def read_event_def)


text \<open>
  Connections are spread over the threads in turn only while the counter is not negative.
  With n threads an accept is defined exactly when the 32-bit counter is not negative or a
  multiple of n, and picks the thread of the counter modulo n.
\<close>

theorem accept_thread_bounds:
  assumes "0 < sc_numIoThreads (sv_config sv)" "sv_epollFds sv = nat (sc_numIoThreads (sv_config sv))"
  shows "(AcceptLoop_accept now fd sv \<noteq> None \<longleftrightarrow>
      0 \<le> sint (sv_nextThread sv) \<or> sc_numIoThreads (sv_config sv) dvd sint (sv_nextThread sv)) \<and>
    (\<forall>sv' tid. AcceptLoop_accept now fd sv = Some (sv', tid) \<longrightarrow>
      int tid = sint (sv_nextThread sv) mod sc_numIoThreads (sv_config sv) \<and> tid < sv_epollFds sv)"
  using cxx_rem_pos [OF assms(1), of "sint (sv_nextThread sv)"] assms
  by (auto simp: AcceptLoop_accept_def Let_def not_less split: if_splits)

section \<open>Witnesses\<close>

definition sample_input :: "string \<Rightarrow> string" where
  "sample_input version = render_request ''GET'' ''/a'' version [] []"

definition sample_req :: "string \<Rightarrow> HttpRequest" where
  "sample_req version = HttpRequest_default\<lparr>rq_method := ''GET'', rq_path := ''/a'', rq_version := version\<rparr>"

definition sample_handler :: "nat RequestHandler" where
  "sample_handler req n = Some (HttpResponse_NoContent, Suc n)"

definition sample_server :: TcpServer where
  "sample_server = (TcpServer_new TcpServerConfig_default)\<lparr>sv_epollFds := 4, sv_connections := [(5, TcpConnection_new 0 5)]\<rparr>"

lemma sample_client: "word_ok v \<Longrightarrow> client_bytes (sample_input v) (sample_req v)"
  unfolding client_bytes_def sample_input_def
  by (intro exI [of _ "''GET''"] exI [of _ "''/a''"] exI [of _ v] exI [of _ "[]"])
    (simp add: sample_req_def word_ok_def is_space_def header_length_def HttpRequest_default_def)

lemma sample_versions: "word_ok ''HTTP/1.1''" "word_ok ''HTTP/1.0''" "IsKeepAlive (sample_req ''HTTP/1.1'')" "\<not> IsKeepAlive (sample_req ''HTTP/1.0'')"
  by (simp_all add: word_ok_def is_space_def IsKeepAlive_def sample_req_def HttpRequest_default_def GetHeader_def to_lower_def)

lemma sample_server_conn: "map_of (sv_connections sample_server) 5 = Some (TcpConnection_new 0 5)" "idle (TcpConnection_new 0 5)"
  by (simp_all add: sample_server_def idle_def TcpConnection_new_def)


theorem close_loses_response_witness:
  "\<exists>sv'. IoLoop_event sample_handler 1 ((read_event 5 (sample_input ''HTTP/1.0''))\<lparr>ev_out := True, ev_writes := [(1000, True)]\<rparr>) sample_server 0 =
     Some (sv', 1, []) \<and> map_of (sv_connections sv') 5 = None"
proof -
  have "sample_handler (sample_req ''HTTP/1.0'') 0 = Some (HttpResponse_NoContent, 1)" by (simp add: sample_handler_def)
  from close_loses_response [where handler = sample_handler, OF sample_server_conn sample_client [OF sample_versions(2)] sample_versions(4) this]
  show ?thesis by (auto simp: delete_conv')
qed


theorem accept_thread_bounds_witness:
  "AcceptLoop_accept 0 9 (sample_server\<lparr>sv_nextThread := 6\<rparr>) \<noteq> None \<and>
   AcceptLoop_accept 0 9 (sample_server\<lparr>sv_nextThread := 0x80000001\<rparr>) = None"
proof -
  have s: "0 < sc_numIoThreads (sv_config (sample_server\<lparr>sv_nextThread := k\<rparr>))"
    "sv_epollFds (sample_server\<lparr>sv_nextThread := k\<rparr>) = nat (sc_numIoThreads (sv_config (sample_server\<lparr>sv_nextThread := k\<rparr>)))" for k
    by (simp_all add: sample_server_def TcpServer_new_def TcpServerConfig_default_def)
  have "\<not> 4 dvd sint (0x80000001 :: u32)" "sint (0x80000001 :: u32) < 0" "0 \<le> sint (6 :: u32)" by simp_all
  moreover have "sc_numIoThreads (sv_config sample_server) = 4"
    by (simp add: sample_server_def TcpServer_new_def TcpServerConfig_default_def)
  ultimately show ?thesis
    using accept_thread_bounds [OF s [of 6], of 0 9, THEN conjunct1] accept_thread_bounds [OF s [of "0x80000001"], of 0 9, THEN conjunct1]
    by (simp del: not_None_eq)
qed

end
