(* ===== verification/Router.thy ===== *)
theory Router
  imports HttpParser HttpResponse
begin

text \<open>
  \<open>api/Router.{hpp,cpp}\<close>: route patterns, their compilation to \<open>std::regex\<close>, matching, and
  dispatch with authentication and roles. Handlers work on a state of type \<open>'s\<close>; \<open>None\<close> is
  an exception, which no caller catches. Of \<open>std::regex\<close> the fragment is modelled that
  \<open>CompilePattern\<close> produces: literal and escaped characters and the group \<open>(.+)\<close>.
\<close>

section \<open>Regular expressions\<close>

datatype rx = RxChar char | RxGroup

abbreviation backslash :: char where
  "backslash \<equiv> CHR 0x5C"

definition rx_special :: "char set" where
  "rx_special = set ''.+*?^${}()|[]'' \<union> {backslash}"

text \<open>\<open>std::regex(s)\<close> after the anchor \<open>^\<close>; \<open>None\<close> is \<open>regex_error\<close> or outside the fragment.\<close>

fun rx_items :: "string \<Rightarrow> rx list option" where
  "rx_items [] = None"
| "rx_items (c # s) =
     (if c = CHR ''$'' \<and> s = [] then Some []
      else if c = backslash then
        (case s of [] \<Rightarrow> None | d # ds \<Rightarrow> if d \<in> rx_special then map_option (Cons (RxChar d)) (rx_items ds) else None)
      else if take 4 (c # s) = ''(.+)'' then map_option (Cons RxGroup) (rx_items (drop 3 s))
      else if c \<in> rx_special \<and> c \<noteq> CHR ''}'' then None
      else map_option (Cons (RxChar c)) (rx_items s))"

definition regex_new :: "string \<Rightarrow> rx list option" where
  "regex_new s = (case s of c # cs \<Rightarrow> if c = CHR ''^'' then rx_items cs else None | [] \<Rightarrow> None)"

text \<open>
  \<open>regex_match\<close>: a group takes as many characters other than line terminators as it can while
  the rest still matches. The result lists what the groups took.
\<close>

fun first_some :: "'a option list \<Rightarrow> 'a option" where
  "first_some [] = None"
| "first_some (None # xs) = first_some xs"
| "first_some (Some x # xs) = Some x"

definition any_char :: "char \<Rightarrow> bool" where
  "any_char c \<longleftrightarrow> c \<noteq> CR \<and> c \<noteq> LF"

primrec regex_match :: "rx list \<Rightarrow> string \<Rightarrow> string list option" where
  "regex_match [] s = (if s = [] then Some [] else None)"
| "regex_match (x # r) s =
     (case x of
        RxChar c \<Rightarrow> (case s of [] \<Rightarrow> None | d # ds \<Rightarrow> if c = d then regex_match r ds else None)
      | RxGroup \<Rightarrow> first_some (map (\<lambda>k. map_option (Cons (take k s)) (regex_match r (drop k s)))
          (rev [1..<Suc (length (takeWhile any_char s))])))"

section \<open>Routes\<close>

record AuthContext =
  ac_authenticated :: bool
  ac_subject :: string
  ac_rawToken :: string
  ac_roles :: "string list"

definition AuthContext_default :: AuthContext where
  "AuthContext_default = \<lparr>ac_authenticated = False, ac_subject = [], ac_rawToken = [], ac_roles = []\<rparr>"

definition HasRole :: "string \<Rightarrow> AuthContext \<Rightarrow> bool" where
  "HasRole r a \<longleftrightarrow> r \<in> set (ac_roles a) \<or> ''admin'' \<in> set (ac_roles a)"

type_synonym 's HandlerFn = "HttpRequest \<Rightarrow> AuthContext \<Rightarrow> 's \<Rightarrow> (HttpResponse \<times> 's) option"

type_synonym MiddlewareFn = "HttpRequest \<Rightarrow> AuthContext \<Rightarrow> (AuthContext \<times> HttpResponse option) option"

record 's Route =
  rt_method :: string
  rt_pattern :: string
  rt_regex :: "rx list"
  rt_paramNames :: "string list"
  rt_handler :: "'s HandlerFn"
  rt_requiredRoles :: "string list"

record 's Router =
  routes :: "'s Route list"
  authMiddleware :: "MiddlewareFn option"

definition Router_new :: "'s Router" where
  "Router_new = \<lparr>routes = [], authMiddleware = None\<rparr>"

definition SetAuthMiddleware :: "MiddlewareFn \<Rightarrow> 's Router \<Rightarrow> 's Router" where
  "SetAuthMiddleware fn r = r\<lparr>authMiddleware := Some fn\<rparr>"

definition escape_all :: "string \<Rightarrow> string" where
  "escape_all s = concat (map (\<lambda>c. if c \<in> rx_special then [backslash, c] else [c]) s)"

definition escape_char :: "char \<Rightarrow> string" where
  "escape_char c = (if c \<in> set ''.+*?^$|[]()'' \<union> {backslash} then [backslash, c] else [c])"

text \<open>The loop of \<open>CompilePattern\<close>: the text of the expression and the names of the parameters.\<close>

function compile_loop :: "string \<Rightarrow> string \<Rightarrow> string list \<Rightarrow> string \<times> string list" where
  "compile_loop [] re names = (re, names)"
| "compile_loop (c # s) re names =
     (if c = CHR ''{'' then
        (case find_char (CHR ''}'') (c # s) of
           None \<Rightarrow> (re @ escape_all (c # s), names)
         | Some e \<Rightarrow> compile_loop (drop (e + 1) (c # s)) (re @ ''(.+)'') (names @ [substr (c # s) 1 (e - 1)]))
      else compile_loop s (re @ escape_char c) names)"
  by pat_completeness auto
termination
  by (relation "measure (\<lambda>(s, _, _). length s)") auto

definition CompilePattern :: "string \<Rightarrow> (rx list \<times> string list) option" where
  "CompilePattern pattern =
     (let (re, names) = compile_loop pattern ''^'' []
      in do { r \<leftarrow> regex_new (re @ ''$''); Some (r, names) })"

definition AddRoute ::
  "string \<Rightarrow> string \<Rightarrow> 's HandlerFn \<Rightarrow> string list \<Rightarrow> 's Router \<Rightarrow> 's Router option" where
  "AddRoute method pattern handler requiredRoles r =
     do { (re, names) \<leftarrow> CompilePattern pattern;
          Some (r\<lparr>routes := routes r @ [\<lparr>rt_method = method, rt_pattern = pattern, rt_regex = re, rt_paramNames = names,
            rt_handler = handler, rt_requiredRoles = requiredRoles\<rparr>]\<rparr>) }"

definition MatchRoute :: "'s Route \<Rightarrow> string \<Rightarrow> (string \<times> string) list option" where
  "MatchRoute route path =
     (case regex_match (rt_regex route) path of
        None \<Rightarrow> None
      | Some m \<Rightarrow> Some (fold (\<lambda>(k, v). AList.update k v) (zip (rt_paramNames route) m) []))"

definition authorized :: "'s Route \<Rightarrow> AuthContext \<Rightarrow> bool" where
  "authorized route auth \<longleftrightarrow> rt_requiredRoles route = [] \<or> list_ex (\<lambda>r. HasRole r auth) (rt_requiredRoles route)"

fun dispatch_loop ::
  "'j json_ops \<Rightarrow> 's Route list \<Rightarrow> HttpRequest \<Rightarrow> AuthContext \<Rightarrow> 's \<Rightarrow> (HttpResponse \<times> 's) option" where
  "dispatch_loop J [] req auth s =
     do { resp \<leftarrow> HttpResponse_NotFound J (''no route for '' @ rq_method req @ '' '' @ rq_path req); Some (resp, s) }"
| "dispatch_loop J (route # rs) req auth s =
     (if rt_method route \<noteq> rq_method req \<and> rt_method route \<noteq> ''*'' then dispatch_loop J rs req auth s
      else case MatchRoute route (rq_path req) of
        None \<Rightarrow> dispatch_loop J rs req auth s
      | Some params \<Rightarrow>
          if \<not> authorized route auth then do { resp \<leftarrow> HttpResponse_Forbidden J ''insufficient role''; Some (resp, s) }
          else rt_handler route (req\<lparr>rq_pathParams := params\<rparr>) auth s)"

definition Dispatch ::
  "'j json_ops \<Rightarrow> 's Router \<Rightarrow> HttpRequest \<Rightarrow> AuthContext \<Rightarrow> 's \<Rightarrow> (HttpResponse \<times> 's) option" where
  "Dispatch J r req auth s =
     (case authMiddleware r of
        None \<Rightarrow> dispatch_loop J (routes r) req auth s
      | Some mw \<Rightarrow>
          do { (auth', maybeResp) \<leftarrow> mw req auth;
               case maybeResp of Some resp \<Rightarrow> Some (resp, s) | None \<Rightarrow> dispatch_loop J (routes r) req auth' s })"

section \<open>Patterns compile to what they mean\<close>

text \<open>The reading of a pattern: \<open>{name}\<close> is a parameter, everything else stands for itself.\<close>

function pattern_items :: "string \<Rightarrow> rx list" where
  "pattern_items [] = []"
| "pattern_items (c # s) =
     (if c = CHR ''{'' then
        (case find_char (CHR ''}'') s of
           None \<Rightarrow> map RxChar (c # s) | Some e \<Rightarrow> RxGroup # pattern_items (drop (e + 1) s))
      else RxChar c # pattern_items s)"
  by pat_completeness auto
termination
  by (relation "measure length") auto

function pattern_names :: "string \<Rightarrow> string list" where
  "pattern_names [] = []"
| "pattern_names (c # s) =
     (if c = CHR ''{'' then
        (case find_char (CHR ''}'') s of
           None \<Rightarrow> [] | Some e \<Rightarrow> take e s # pattern_names (drop (e + 1) s))
      else pattern_names s)"
  by pat_completeness auto
termination
  by (relation "measure length") auto

lemma rx_items_escape:
  assumes "c \<noteq> CHR ''{''" "s \<noteq> []"
  shows "rx_items (escape_char c @ s) = map_option (Cons (RxChar c)) (rx_items s)"
  using assms by (auto simp: escape_char_def rx_special_def)

lemma rx_items_escape_all: "rx_items (escape_all s @ ''$'') = Some (map RxChar s)"
proof (induction s)
  case (Cons c s)
  have "escape_all s @ ''$'' \<noteq> []" by simp
  with Cons show ?case by (auto simp: escape_all_def rx_special_def)
qed (simp add: escape_all_def)

lemma rx_items_group: "rx_items (''(.+)'' @ s) = map_option (Cons RxGroup) (rx_items s)"
  by (simp add: eval_nat_numeral)

lemma compile_loop_correct:
  "\<exists>body. compile_loop pat re names = (re @ body, names @ pattern_names pat) \<and>
     rx_items (body @ ''$'') = Some (pattern_items pat)"
proof (induction pat re names rule: compile_loop.induct)
  case (2 c s re names)
  show ?case
  proof (cases "c = CHR ''{''")
    case True
    show ?thesis
    proof (cases "find_char (CHR ''}'') s")
      case None
      then have "find_char (CHR ''}'') (c # s) = None" using True by simp
      then show ?thesis
        using True None rx_items_escape_all [of "c # s"] by (intro exI [of _ "escape_all (c # s)"]) simp
    next
      case (Some e)
      then have e: "find_char (CHR ''}'') (c # s) = Some (e + 1)" using True by simp
      obtain body where b: "compile_loop (drop (e + 1) s) (re @ ''(.+)'') (names @ [take e s]) =
          ((re @ ''(.+)'') @ body, (names @ [take e s]) @ pattern_names (drop (e + 1) s))"
          "rx_items (body @ ''$'') = Some (pattern_items (drop (e + 1) s))"
        using "2.IH"(1) [OF True e] by (auto simp: substr_def)
      then show ?thesis
        using True Some e rx_items_group [of "body @ ''$''"]
        by (intro exI [of _ "''(.+)'' @ body"]) (simp add: substr_def)
    qed
  next
    case False
    obtain body where b: "compile_loop s (re @ escape_char c) names = ((re @ escape_char c) @ body, names @ pattern_names s)"
        "rx_items (body @ ''$'') = Some (pattern_items s)"
      using "2.IH"(2) [OF False] by blast
    then show ?thesis
      using False rx_items_escape [OF False, of "body @ ''$''"] by (intro exI [of _ "escape_char c @ body"]) simp
  qed
qed simp

lemma CompilePattern_eq: "CompilePattern pat = Some (pattern_items pat, pattern_names pat)"
  using compile_loop_correct [of pat "''^''" "[]"] by (auto simp: CompilePattern_def regex_new_def)

section \<open>Matching\<close>

fun rx_expand :: "rx list \<Rightarrow> string list \<Rightarrow> string" where
  "rx_expand [] cs = []"
| "rx_expand (RxChar c # r) cs = c # rx_expand r cs"
| "rx_expand (RxGroup # r) cs = hd cs @ rx_expand r (tl cs)"

definition groups :: "rx list \<Rightarrow> nat" where
  "groups r = length (filter (\<lambda>x. x = RxGroup) r)"

definition capture_ok :: "string \<Rightarrow> bool" where
  "capture_ok g \<longleftrightarrow> g \<noteq> [] \<and> list_all any_char g"

lemma first_some_Some: "first_some xs = Some y \<Longrightarrow> Some y \<in> set xs"
  by (induction xs rule: first_some.induct) auto

lemma first_some_None: "first_some xs = None \<longleftrightarrow> set xs \<subseteq> {None}"
  by (induction xs rule: first_some.induct) auto

lemma prefix_any: "k \<le> length (takeWhile any_char s) \<Longrightarrow> list_all any_char (take k s)"
proof (induction s arbitrary: k)
  case (Cons c s)
  then show ?case by (cases k) (auto split: if_splits)
qed simp

lemma regex_match_sound:
  "regex_match r s = Some cs \<Longrightarrow> rx_expand r cs = s \<and> length cs = groups r \<and> list_all capture_ok cs"
proof (induction r arbitrary: s cs)
  case (Cons x r)
  show ?case
  proof (cases x)
    case (RxChar c)
    with Cons show ?thesis by (auto simp: groups_def split: list.splits if_splits)
  next
    case RxGroup
    have "Some cs \<in> set (map (\<lambda>k. map_option (Cons (take k s)) (regex_match r (drop k s)))
        (rev [1..<Suc (length (takeWhile any_char s))]))"
      using Cons.prems RxGroup by (intro first_some_Some) simp
    then obtain k cs' where k: "1 \<le> k" "k \<le> length (takeWhile any_char s)" "regex_match r (drop k s) = Some cs'"
        "cs = take k s # cs'" by (auto simp: eq_commute [of "Some cs"] simp del: upt_Suc)
    have "k \<le> length s" using k(2) length_takeWhile_le [of any_char s] by simp
    then have "take k s \<noteq> []" using k(1) by (cases s) auto
    then have "capture_ok (take k s)" using prefix_any [OF k(2)] by (simp add: capture_ok_def)
    with Cons.IH [OF k(3)] k RxGroup show ?thesis by (simp add: groups_def)
  qed
qed (auto simp: groups_def split: if_splits)

lemma regex_match_complete:
  "length cs = groups r \<Longrightarrow> list_all capture_ok cs \<Longrightarrow> regex_match r (rx_expand r cs) \<noteq> None"
proof (induction r arbitrary: cs)
  case (Cons x r)
  show ?case
  proof (cases x)
    case (RxChar c)
    with Cons show ?thesis by (simp add: groups_def)
  next
    case RxGroup
    then obtain g cs' where cs: "cs = g # cs'" using Cons.prems(1) by (cases cs) (auto simp: groups_def)
    let ?s = "g @ rx_expand r cs'"
    have g: "g \<noteq> []" "list_all any_char g" using Cons.prems(2) cs by (simp_all add: capture_ok_def)
    have "length g \<le> length (takeWhile any_char ?s)" using g(2) by (auto simp: list_all_iff takeWhile_append)
    then have k: "length g \<in> set (rev [1..<Suc (length (takeWhile any_char ?s))])"
      using g(1) by (auto simp: Suc_le_eq)
    have "regex_match r (drop (length g) ?s) \<noteq> None" using Cons RxGroup cs by (simp add: groups_def)
    then have "\<not> set (map (\<lambda>k. map_option (Cons (take k ?s)) (regex_match r (drop k ?s)))
        (rev [1..<Suc (length (takeWhile any_char ?s))])) \<subseteq> {None}"
      using k unfolding set_map image_subset_iff by (intro notI) (drule (1) bspec, simp)
    then have "first_some (map (\<lambda>k. map_option (Cons (take k ?s)) (regex_match r (drop k ?s)))
        (rev [1..<Suc (length (takeWhile any_char ?s))])) \<noteq> None"
      unfolding first_some_None .
    then show ?thesis using RxGroup cs by (simp del: upt_Suc not_None_eq)
  qed
qed simp

text \<open>With a single parameter the capture is unique.\<close>

lemma rx_expand_chars: "rx_expand (map RxChar a @ r) cs = a @ rx_expand r cs"
  by (induction a) auto

lemma regex_match_single:
  "regex_match (map RxChar a @ RxGroup # map RxChar b) path = Some cs \<longleftrightarrow>
     (\<exists>g. path = a @ g @ b \<and> capture_ok g \<and> cs = [g])"
proof -
  let ?r = "map RxChar a @ RxGroup # map RxChar b"
  have gr: "groups ?r = 1" by (simp add: groups_def filter_map comp_def)
  have ex: "rx_expand ?r [g] = a @ g @ b" for g
    using rx_expand_chars [of b "[]" "[]"] by (simp add: rx_expand_chars)
  show ?thesis
  proof
    assume "regex_match ?r path = Some cs"
    from regex_match_sound [OF this] gr show "\<exists>g. path = a @ g @ b \<and> capture_ok g \<and> cs = [g]"
      by (cases cs) (auto simp flip: ex)
  next
    assume "\<exists>g. path = a @ g @ b \<and> capture_ok g \<and> cs = [g]"
    then obtain g where g: "path = a @ g @ b" "capture_ok g" "cs = [g]" by blast
    then obtain ds where ds: "regex_match ?r path = Some ds" using regex_match_complete [of "[g]" ?r] gr ex by auto
    from regex_match_sound [OF this] gr obtain h where "ds = [h]" "a @ h @ b = path"
      by (cases ds) (auto simp flip: ex)
    with g ds show "regex_match ?r path = Some cs" by simp
  qed
qed

lemma regex_match_literal: "regex_match (map RxChar a) path = Some cs \<longleftrightarrow> path = a \<and> cs = []"
  by (induction a arbitrary: path) (auto split: list.splits if_splits)

section \<open>Dispatch\<close>

text \<open>The route that answers a request: the first whose method and pattern match.\<close>

definition selects :: "'s Route \<Rightarrow> HttpRequest \<Rightarrow> bool" where
  "selects route req \<longleftrightarrow> (rt_method route = rq_method req \<or> rt_method route = ''*'') \<and> MatchRoute route (rq_path req) \<noteq> None"

lemma dispatch_loop_cases:
  "dispatch_loop J rs req auth s =
     (case find (\<lambda>route. selects route req) rs of
        None \<Rightarrow> do { resp \<leftarrow> HttpResponse_NotFound J (''no route for '' @ rq_method req @ '' '' @ rq_path req); Some (resp, s) }
      | Some route \<Rightarrow>
          if authorized route auth
          then rt_handler route (req\<lparr>rq_pathParams := the (MatchRoute route (rq_path req))\<rparr>) auth s
          else do { resp \<leftarrow> HttpResponse_Forbidden J ''insufficient role''; Some (resp, s) })"
  by (induction rs) (auto simp: selects_def split: option.splits)

text \<open>A dispatch that changes the state ran the handler of the selected route, for an authorised context.\<close>

lemma Dispatch_changed:
  assumes "Dispatch J r req auth s = Some (resp, s')" "s' \<noteq> s"
  shows "\<exists>auth' route. (authMiddleware r = None \<and> auth' = auth \<or>
      (\<exists>mw. authMiddleware r = Some mw \<and> mw req auth = Some (auth', None))) \<and>
    find (\<lambda>route. selects route req) (routes r) = Some route \<and> authorized route auth' \<and>
    rt_handler route (req\<lparr>rq_pathParams := the (MatchRoute route (rq_path req))\<rparr>) auth' s = Some (resp, s')"
  using assms
  by (auto simp: Dispatch_def dispatch_loop_cases split: option.splits if_splits bind_splits)

section \<open>Properties\<close>

text \<open>
  C24: every pattern compiles, and to what it means: the expression matches exactly the paths
  that arise from the pattern by a non-empty text without line breaks for each \<open>{name}\<close>, and
  the captures are such texts, one for each name.
\<close>

theorem CompilePattern_meaning:
  "\<exists>re. CompilePattern pat = Some (re, pattern_names pat) \<and>
     {path. regex_match re path \<noteq> None} =
       {rx_expand (pattern_items pat) cs |cs. length cs = groups (pattern_items pat) \<and> list_all capture_ok cs} \<and>
     (\<forall>path cs. regex_match re path = Some cs \<longrightarrow> path = rx_expand (pattern_items pat) cs \<and> list_all capture_ok cs)"
proof -
  have "{path. regex_match (pattern_items pat) path \<noteq> None} =
      {rx_expand (pattern_items pat) cs |cs. length cs = groups (pattern_items pat) \<and> list_all capture_ok cs}"
    using regex_match_sound regex_match_complete by fastforce
  then show ?thesis using CompilePattern_eq [of pat] regex_match_sound by blast
qed

theorem CompilePattern_meaning_witness:
  "\<exists>re. CompilePattern ''/{k}'' = Some (re, [''k'']) \<and> regex_match re ''/ab'' = Some [''ab'']"
proof -
  obtain re where re: "CompilePattern ''/{k}'' = Some (re, pattern_names ''/{k}'')"
    "{path. regex_match re path \<noteq> None} =
       {rx_expand (pattern_items ''/{k}'') cs |cs. length cs = groups (pattern_items ''/{k}'') \<and> list_all capture_ok cs}"
    "\<forall>path cs. regex_match re path = Some cs \<longrightarrow> path = rx_expand (pattern_items ''/{k}'') cs \<and> list_all capture_ok cs"
    using CompilePattern_meaning [of "''/{k}''"] by blast
  have items: "pattern_items ''/{k}'' = [RxChar (CHR ''/''), RxGroup]" "pattern_names ''/{k}'' = [''k'']" by simp_all
  have "re = pattern_items ''/{k}''" using re(1) CompilePattern_eq by auto
  then show ?thesis using re(1) items regex_match_single [of "''/''" "[]" "''/ab''" "[''ab'']"]
    by (simp add: capture_ok_def any_char_def CR_def LF_def)
qed

text \<open>
  A handler runs only for an authorised request. Whenever dispatching changes the state,
  the middleware let the request pass, and the first matching route either requires no role
  or one that the authenticated context has.
\<close>

theorem Dispatch_authorised:
  assumes "Dispatch J r req auth s = Some (resp, s')" "s' \<noteq> s"
  shows "\<exists>auth' route. (authMiddleware r = None \<and> auth' = auth \<or>
      (\<exists>mw. authMiddleware r = Some mw \<and> mw req auth = Some (auth', None))) \<and>
    find (\<lambda>route. selects route req) (routes r) = Some route \<and> authorized route auth' \<and>
    rt_handler route (req\<lparr>rq_pathParams := the (MatchRoute route (rq_path req))\<rparr>) auth' s = Some (resp, s')"
  by (rule Dispatch_changed [OF assms])

definition sample_router :: "nat Router" where
  "sample_router = the (AddRoute ''PUT'' ''/x'' (\<lambda>req auth n. Some (HttpResponse_NoContent, n + 1)) [''write''] Router_new)"

theorem Dispatch_authorised_witness:
  "\<exists>route :: nat Route. Dispatch json_text sample_router (HttpRequest_default\<lparr>rq_method := ''PUT'', rq_path := ''/x''\<rparr>)
       (AuthContext_default\<lparr>ac_roles := [''write'']\<rparr>) 0 = Some (HttpResponse_NoContent, 1) \<and>
     authorized route (AuthContext_default\<lparr>ac_roles := [''write'']\<rparr>) \<and> rt_requiredRoles route = [''write'']"
proof -
  let ?req = "HttpRequest_default\<lparr>rq_method := ''PUT'', rq_path := ''/x''\<rparr>" and ?auth = "AuthContext_default\<lparr>ac_roles := [''write'']\<rparr>"
  have r: "sample_router = \<lparr>routes = [\<lparr>rt_method = ''PUT'', rt_pattern = ''/x'', rt_regex = map RxChar ''/x'', rt_paramNames = [],
      rt_handler = (\<lambda>req auth n. Some (HttpResponse_NoContent, n + 1)), rt_requiredRoles = [''write'']\<rparr>], authMiddleware = None\<rparr>"
    by (simp add: sample_router_def AddRoute_def CompilePattern_eq Router_new_def)
  have d: "Dispatch json_text sample_router ?req ?auth 0 = Some (HttpResponse_NoContent, 1)"
    by (simp add: r Dispatch_def HttpRequest_default_def MatchRoute_def authorized_def HasRole_def AuthContext_default_def)
  from Dispatch_authorised [OF d] obtain auth' route where
    "find (\<lambda>route. selects route ?req) (routes sample_router) = Some route" "authorized route auth'" "auth' = ?auth"
    by (auto simp: r)
  moreover have "rt_requiredRoles route = [''write'']"
    using calculation(1) by (auto simp: r find_Some_iff split: if_splits)
  ultimately show ?thesis using d by blast
qed

end
