(* ===== verification/Base64.thy ===== *)
theory Base64
  imports Prelude
begin

unbundle bit_operations_syntax

text \<open>
  The Base64URL codec of \<open>auth/JwtValidator.cpp\<close>. Decoding inverts encoding, although the
  table of the decoder leaves the bytes from 128 on at zero.
\<close>

section \<open>Base64URL\<close>

definition B64_CHARS :: string where
  "B64_CHARS = ''ABCDEFGHIJKLMNOPQRSTUVWXYZabcdefghijklmnopqrstuvwxyz0123456789+/''"

definition b64_char :: "int \<Rightarrow> char" where
  "b64_char v = B64_CHARS ! nat (v AND 63)"

text \<open>The loop of \<open>Base64UrlEncode\<close>, three bytes at a time; the value has 24 bits.\<close>

definition b64_val :: "u8 \<Rightarrow> u8 \<Rightarrow> u8 \<Rightarrow> int" where
  "b64_val a b c = push_bit 16 (uint a) OR push_bit 8 (uint b) OR uint c"

fun b64_groups :: "u8 list \<Rightarrow> string" where
  "b64_groups [] = []"
| "b64_groups [a] =
     (let v = b64_val a 0 0 in [b64_char (drop_bit 18 v), b64_char (drop_bit 12 v), CHR ''='', CHR ''=''])"
| "b64_groups [a, b] =
     (let v = b64_val a b 0 in [b64_char (drop_bit 18 v), b64_char (drop_bit 12 v), b64_char (drop_bit 6 v), CHR ''=''])"
| "b64_groups (a # b # c # bs) =
     (let v = b64_val a b c
      in b64_char (drop_bit 18 v) # b64_char (drop_bit 12 v) # b64_char (drop_bit 6 v) # b64_char v # b64_groups bs)"

definition to_url_char :: "char \<Rightarrow> char" where
  "to_url_char c = (if c = CHR ''+'' then CHR ''-'' else if c = CHR ''/'' then CHR ''_'' else c)"

definition of_url_char :: "char \<Rightarrow> char" where
  "of_url_char c = (if c = CHR ''-'' then CHR ''+'' else if c = CHR ''_'' then CHR ''/'' else c)"

definition strip_pad :: "string \<Rightarrow> string" where
  "strip_pad s = rev (dropWhile (\<lambda>c. c = CHR ''='') (rev s))"

definition Base64UrlEncode :: "u8 list \<Rightarrow> string" where
  "Base64UrlEncode bs = strip_pad (map to_url_char (b64_groups bs))"

text \<open>The table of the decoder: 128 entries are written out, the remaining 128 are zero.\<close>

definition decoding :: "char \<Rightarrow> int" where
  "decoding c =
     (let n = of_char c :: int in
      if 128 \<le> n then 0
      else if n = 43 then 62 else if n = 47 then 63
      else if 48 \<le> n \<and> n \<le> 57 then n + 4
      else if 65 \<le> n \<and> n \<le> 90 then n - 65
      else if 97 \<le> n \<and> n \<le> 122 then n - 71 else - 1)"

definition char_cast :: "int \<Rightarrow> char" where
  "char_cast i = char_of (nat (i mod 256))"

fun b64_ungroup :: "string \<Rightarrow> string" where
  "b64_ungroup (c0 # c1 # c2 # c3 # s) =
     (let v0 = decoding c0; v1 = decoding c1; v2 = decoding c2; v3 = decoding c3 in
      if v0 < 0 \<or> v1 < 0 then []
      else [char_cast (push_bit 2 v0 OR drop_bit 4 v1)] @
        (if 0 \<le> v2 then [char_cast (push_bit 4 (v1 AND 15) OR drop_bit 2 v2)] else []) @
        (if 0 \<le> v3 then [char_cast (push_bit 6 (v2 AND 3) OR v3)] else []) @ b64_ungroup s)"
| "b64_ungroup _ = []"

definition pad4 :: "string \<Rightarrow> string" where
  "pad4 s = s @ replicate ((4 - length s mod 4) mod 4) (CHR ''='')"

definition Base64UrlDecode :: "string \<Rightarrow> string" where
  "Base64UrlDecode input = b64_ungroup (pad4 (map of_url_char input))"

section \<open>Decoding inverts encoding\<close>

lemma and_low: "x AND 63 = x mod 64" "x AND 15 = x mod 16" "x AND 3 = x mod 4" for x :: int
proof -
  have "x AND mask n = x mod 2 ^ n" for n by (simp flip: take_bit_eq_mask add: take_bit_eq_mod)
  from this [of 6] this [of 4] this [of 2] show "x AND 63 = x mod 64" "x AND 15 = x mod 16" "x AND 3 = x mod 4"
    by (simp_all add: mask_eq_exp_minus_1)
qed

lemma push_or: "0 \<le> y \<Longrightarrow> y < 2 ^ k \<Longrightarrow> push_bit k x OR y = x * 2 ^ k + y" for x y :: int
  using concat_bit_eq [of k y x] concat_bit_def [of k y x]
  by (simp add: take_bit_int_eq_self push_bit_eq_mult or.commute)

lemma b64_val_eq: "b64_val a b c = uint a * 65536 + uint b * 256 + uint c"
proof -
  have lt: "0 \<le> uint a" "0 \<le> uint b" "uint b < 2 ^ 8" "0 \<le> uint c" "uint c < 2 ^ 8"
    using uint_lt2p [of b] uint_lt2p [of c] by simp_all
  have 1: "push_bit 8 (uint b) OR uint c = uint b * 256 + uint c" using push_or [of "uint c" 8 "uint b"] lt by simp
  have "push_bit 16 (uint a) OR (uint b * 256 + uint c) = uint a * 65536 + (uint b * 256 + uint c)"
    using push_or [of "uint b * 256 + uint c" 16 "uint a"] lt by simp
  with 1 show ?thesis by (simp add: b64_val_def)
qed

lemma b64_char_mod: "b64_char v = B64_CHARS ! nat (v mod 64)"
  by (simp add: b64_char_def and_low)

lemma all_64: "(\<forall>n < 64. P n) \<longleftrightarrow> list_all P [0..<64]" for P :: "nat \<Rightarrow> bool"
  by (auto simp: list_all_iff)

lemma B64_table: "\<forall>n < 64. decoding (B64_CHARS ! n) = int n \<and> B64_CHARS ! n \<noteq> CHR ''='' \<and>
    of_url_char (to_url_char (B64_CHARS ! n)) = B64_CHARS ! n \<and> to_url_char (B64_CHARS ! n) \<noteq> CHR ''.''"
  unfolding all_64 by code_simp

lemma b64_digits:
  assumes "0 \<le> (A::int)" "A < 256" "0 \<le> B" "B < 256" "0 \<le> C" "C < 256" and v: "v = A * 65536 + B * 256 + C"
  shows "v div 262144 mod 64 = A div 4" "v div 4096 mod 64 = A mod 4 * 16 + B div 16" "v div 64 mod 64 = B mod 16 * 4 + C div 64"
     "v mod 64 = C mod 64"
proof -
  define a0 a1 b0 b1 c0 c1 where d: "a0 = A div 4" "a1 = A mod 4" "b0 = B div 16" "b1 = B mod 16" "c0 = C div 64" "c1 = C mod 64"
  have a: "A = 4 * a0 + a1" "0 \<le> a1" "a1 < 4" "A div 4 = a0" "A mod 4 = a1" by (simp_all add: d)
  have b: "B = 16 * b0 + b1" "0 \<le> b1" "b1 < 16" "B div 16 = b0" "B mod 16 = b1" by (simp_all add: d)
  have c: "C = 64 * c0 + c1" "0 \<le> c1" "c1 < 64" "C div 64 = c0" "C mod 64 = c1" by (simp_all add: d)
  have r: "0 \<le> a0" "a0 < 64" "0 \<le> b0" "b0 < 16" "0 \<le> c0" "c0 < 4" using assms(1-6) a(1-3) b(1-3) c(1-3) by linarith+
  have 1: "v div 262144 = a0" 
    by (rule int_div_pos_eq [where r = "a1 * 65536 + B * 256 + C"]) (use v a(1-3) r assms(3-6) in \<open>simp_all\<close>)
  have 2: "v div 4096 = a0 * 64 + (a1 * 16 + b0)" 
    by (rule int_div_pos_eq [where r = "b1 * 256 + C"]) (use v a(1) b(1-3) assms(5,6) in \<open>simp_all\<close>)
  have 3: "v div 64 = a0 * 4096 + a1 * 1024 + b0 * 64 + (b1 * 4 + c0)" 
    by (rule int_div_pos_eq [where r = c1]) (use v a(1) b(1) c(1-3) in \<open>simp_all\<close>)
  show "v div 262144 mod 64 = A div 4" using 1 a r by simp
  have "(a0 * 64 + (a1 * 16 + b0)) mod 64 = a1 * 16 + b0" 
    by (rule int_mod_pos_eq [where q = a0]) (use a(2,3) b(2,3) r in \<open>simp_all\<close>)
  then show "v div 4096 mod 64 = A mod 4 * 16 + B div 16" using 2 a b by simp
  have "(a0 * 4096 + a1 * 1024 + b0 * 64 + (b1 * 4 + c0)) mod 64 = b1 * 4 + c0"
    by (rule int_mod_pos_eq [where q = "a0 * 64 + a1 * 16 + b0"]) (use b(2,3) r in \<open>simp_all\<close>)
  then show "v div 64 mod 64 = B mod 16 * 4 + C div 64" using 3 b c by simp
  show "v mod 64 = C mod 64" unfolding c(5)
    by (rule int_mod_pos_eq [where q = "A * 1024 + B * 4 + c0"]) (use v c(1-3) in \<open>simp_all\<close>)
qed
lemma B64_digit:
  "decoding (b64_char v) = v mod 64" "b64_char v \<noteq> CHR ''=''" "of_url_char (to_url_char (b64_char v)) = b64_char v"
  "to_url_char (b64_char v) \<noteq> CHR ''.''"
proof -
  have n: "nat (v mod 64) < 64" "int (nat (v mod 64)) = v mod 64" by (simp_all add: nat_less_iff)
  note t = B64_table [rule_format, OF n(1)]
  show "decoding (b64_char v) = v mod 64" unfolding b64_char_mod t [THEN conjunct1] by (rule n(2))
  show "b64_char v \<noteq> CHR ''=''" "of_url_char (to_url_char (b64_char v)) = b64_char v" "to_url_char (b64_char v) \<noteq> CHR ''.''"
    unfolding b64_char_mod using t by fast+
qed

lemmas decoding_char = B64_digit(1) and url_char = B64_digit(3,2,4)

lemma decoding_pad: "decoding (CHR ''='') = - 1"
proof -
  have "of_char (CHR ''='') = (61 :: int)" by simp
  then show ?thesis unfolding decoding_def Let_def by simp
qed

lemma decoding_sign: "(decoding (b64_char v) < 0) = False" "(0 \<le> decoding (b64_char v)) = True"
  unfolding decoding_char by simp_all

lemma byte_bounds: "0 \<le> uint b" "uint b < 256" for b :: u8
  using uint_lt2p [of b] by simp_all

lemma char_cast_byte: "char_cast (uint b) = char_of_byte b"
  using mod_pos_pos_trivial [OF byte_bounds [of b]] by (simp only: char_cast_def char_of_byte_def nat_uint_eq)

text \<open>The four digits of three bytes, and the bytes they give back.\<close>

lemma b64_pieces:
  fixes a b c :: u8
  defines "v \<equiv> b64_val a b c"
  shows "decoding (b64_char (drop_bit 18 v)) = uint a div 4"
    "decoding (b64_char (drop_bit 12 v)) = uint a mod 4 * 16 + uint b div 16"
    "decoding (b64_char (drop_bit 6 v)) = uint b mod 16 * 4 + uint c div 64"
    "decoding (b64_char v) = uint c mod 64"
proof -
  have p: "(2 :: int) ^ 18 = 262144" "(2 :: int) ^ 12 = 4096" "(2 :: int) ^ 6 = 64" by simp_all
  note d = b64_digits [OF byte_bounds [of a] byte_bounds [of b] byte_bounds [of c] b64_val_eq]
  show "decoding (b64_char (drop_bit 18 v)) = uint a div 4"
    "decoding (b64_char (drop_bit 12 v)) = uint a mod 4 * 16 + uint b div 16"
    "decoding (b64_char (drop_bit 6 v)) = uint b mod 16 * 4 + uint c div 64"
    "decoding (b64_char v) = uint c mod 64"
    unfolding v_def decoding_char drop_bit_eq_div p by (rule d)+
qed

lemma joined_digits:
  fixes A B C :: int
  assumes "0 \<le> A" "A < 256" "0 \<le> B" "B < 256" "0 \<le> C" "C < 256"
  shows "push_bit 2 (A div 4) OR drop_bit 4 (A mod 4 * 16 + B div 16) = A"
    "push_bit 4 ((A mod 4 * 16 + B div 16) AND 15) OR drop_bit 2 (B mod 16 * 4 + C div 64) = B"
    "push_bit 6 ((B mod 16 * 4 + C div 64) AND 3) OR (C mod 64) = C"
proof -
  have lt: "0 \<le> B div 16" "B div 16 < 16" "0 \<le> C div 64" "C div 64 < 4" using assms by linarith+
  have d: "(A mod 4 * 16 + B div 16) div 16 = A mod 4" "(B mod 16 * 4 + C div 64) div 4 = B mod 16"
    by (rule int_div_pos_eq [OF _ lt(1,2)], simp) (rule int_div_pos_eq [OF _ lt(3,4)], simp)
  have m: "(A mod 4 * 16 + B div 16) mod 16 = B div 16" "(B mod 16 * 4 + C div 64) mod 4 = C div 64"
    by (rule int_mod_pos_eq [OF _ lt(1,2)], simp) (rule int_mod_pos_eq [OF _ lt(3,4)], simp)
  have p: "(2 :: int) ^ 4 = 16" "(2 :: int) ^ 2 = 4" "(2 :: int) ^ 6 = 64" by simp_all
  show "push_bit 2 (A div 4) OR drop_bit 4 (A mod 4 * 16 + B div 16) = A"
    unfolding drop_bit_eq_div p d using push_or [of "A mod 4" 2 "A div 4"] by (simp only: p) simp
  show "push_bit 4 ((A mod 4 * 16 + B div 16) AND 15) OR drop_bit 2 (B mod 16 * 4 + C div 64) = B"
    unfolding drop_bit_eq_div p d and_low m using push_or [of "B mod 16" 4 "B div 16"] by (simp only: p) simp
  show "push_bit 6 ((B mod 16 * 4 + C div 64) AND 3) OR (C mod 64) = C"
    unfolding and_low m using push_or [of "C mod 64" 6 "C div 64"] by (simp only: p) simp
qed

lemma b64_group:
  fixes a b c :: u8
  defines "v \<equiv> b64_val a b c"
  shows "char_cast (push_bit 2 (decoding (b64_char (drop_bit 18 v))) OR drop_bit 4 (decoding (b64_char (drop_bit 12 v)))) = char_of_byte a"
    "char_cast (push_bit 4 (decoding (b64_char (drop_bit 12 v)) AND 15) OR drop_bit 2 (decoding (b64_char (drop_bit 6 v)))) = char_of_byte b"
    "char_cast (push_bit 6 (decoding (b64_char (drop_bit 6 v)) AND 3) OR decoding (b64_char v)) = char_of_byte c"
proof -
  note j = joined_digits [OF byte_bounds [of a] byte_bounds [of b] byte_bounds [of c]]
  show "char_cast (push_bit 2 (decoding (b64_char (drop_bit 18 v))) OR drop_bit 4 (decoding (b64_char (drop_bit 12 v)))) = char_of_byte a"
    unfolding v_def b64_pieces j char_cast_byte ..
  show "char_cast (push_bit 4 (decoding (b64_char (drop_bit 12 v)) AND 15) OR drop_bit 2 (decoding (b64_char (drop_bit 6 v)))) = char_of_byte b"
    unfolding v_def b64_pieces j char_cast_byte ..
  show "char_cast (push_bit 6 (decoding (b64_char (drop_bit 6 v)) AND 3) OR decoding (b64_char v)) = char_of_byte c"
    unfolding v_def b64_pieces j char_cast_byte ..
qed

lemma b64_ungroup_digits:
  "b64_ungroup (b64_char a # b64_char b # c # d # s) =
   [char_cast (push_bit 2 (decoding (b64_char a)) OR drop_bit 4 (decoding (b64_char b)))] @
        (if 0 \<le> decoding c then [char_cast (push_bit 4 (decoding (b64_char b) AND 15) OR drop_bit 2 (decoding c))] else []) @
        (if 0 \<le> decoding d then [char_cast (push_bit 6 (decoding c AND 3) OR decoding d)] else []) @ b64_ungroup s"
  by (subst b64_ungroup.simps) (simp only: Let_def decoding_sign simp_thms if_False)

lemma b64_ungroup_groups: "b64_ungroup (b64_groups bs) = string_of bs"
proof (induction bs rule: b64_groups.induct)
  case (2 a)
  show ?case unfolding b64_groups.simps Let_def b64_ungroup_digits decoding_pad b64_group by (simp add: string_of_def)
next
  case (3 a b)
  show ?case
    unfolding b64_groups.simps Let_def b64_ungroup_digits decoding_pad decoding_sign b64_group by (simp add: string_of_def)
next
  case (4 a b c bs)
  then show ?case
    unfolding b64_groups.simps Let_def b64_ungroup_digits decoding_sign b64_group by (simp add: string_of_def)
qed (simp add: string_of_def)

text \<open>The encoded text is digits with at most two padding characters, which stripping and padding restore.\<close>

definition digits_pad :: "string \<Rightarrow> int list \<Rightarrow> nat \<Rightarrow> bool" where
  "digits_pad s ds p \<longleftrightarrow> s = map b64_char ds @ replicate p (CHR ''='') \<and> p < 3 \<and> (length ds + p) mod 4 = 0"

lemma digits_pad_group:
  "digits_pad [] [] 0" "digits_pad [b64_char a, b64_char b, CHR ''='', CHR ''=''] [a, b] 2"
  "digits_pad [b64_char a, b64_char b, b64_char c, CHR ''=''] [a, b, c] 1"
  "digits_pad s ds p \<Longrightarrow> digits_pad (b64_char a # b64_char b # b64_char c # b64_char d # s) (a # b # c # d # ds) p"
  by (simp_all add: digits_pad_def numeral_2_eq_2)

lemma b64_groups_shape: "\<exists>ds p. digits_pad (b64_groups bs) ds p"
proof (induction bs rule: b64_groups.induct)
  case (4 a b c bs)
  then obtain ds p where "digits_pad (b64_groups bs) ds p" by blast
  then show ?case unfolding b64_groups.simps Let_def by (blast intro: digits_pad_group)
qed (unfold b64_groups.simps Let_def, (blast intro: digits_pad_group)+)

lemma strip_pad_replicate: "CHR ''='' \<notin> set s \<Longrightarrow> strip_pad (s @ replicate p (CHR ''='')) = s"
  by (cases s rule: rev_cases) (auto simp: strip_pad_def dropWhile_append)

lemma pad_mod:
  fixes n p :: nat
  assumes "p < 3" "(n + p) mod 4 = 0" shows "(4 - n mod 4) mod 4 = p"
proof -
  have "(n mod 4 + p) mod 4 = 0" "n mod 4 < 4" using assms(2) by (simp_all add: mod_add_left_eq)
  moreover define r where "r = n mod 4"
  ultimately have "(r + p) mod 4 = 0" "r < 4" by simp_all
  moreover from this(2) have "r = 0 \<or> r = 1 \<or> r = 2 \<or> r = 3" by arith
  moreover from assms(1) have "p = 0 \<or> p = 1 \<or> p = 2" by arith
  ultimately have "(4 - r) mod 4 = p" by (elim disjE) simp_all
  then show ?thesis by (simp add: r_def)
qed

lemma Base64UrlEncode_shape:
  "\<exists>ds. Base64UrlEncode bs = map (\<lambda>v. to_url_char (b64_char v)) ds \<and> pad4 (map b64_char ds) = b64_groups bs"
proof -
  obtain ds p where "digits_pad (b64_groups bs) ds p" using b64_groups_shape by blast
  then have g: "b64_groups bs = map b64_char ds @ replicate p (CHR ''='')" and p: "p < 3" "(length ds + p) mod 4 = 0"
    unfolding digits_pad_def by simp_all
  have ne: "to_url_char (b64_char v) \<noteq> CHR ''=''" for v using url_char(2) [of v] by (auto simp: to_url_char_def)
  have "map to_url_char (b64_groups bs) = map (\<lambda>v. to_url_char (b64_char v)) ds @ replicate p (CHR ''='')"
    unfolding g by (simp add: comp_def to_url_char_def [of "CHR ''=''"])
  moreover have "CHR ''='' \<notin> set (map (\<lambda>v. to_url_char (b64_char v)) ds)"
    using ne by (auto simp: eq_commute [of "CHR ''=''"])
  ultimately have "Base64UrlEncode bs = map (\<lambda>v. to_url_char (b64_char v)) ds"
    unfolding Base64UrlEncode_def by (simp only:) (rule strip_pad_replicate)
  moreover have "(4 - length ds mod 4) mod 4 = p" using p by (rule pad_mod)
  ultimately show ?thesis using g by (intro exI [of _ ds]) (simp add: pad4_def)
qed

lemma Base64_roundtrip: "Base64UrlDecode (Base64UrlEncode bs) = string_of bs"
proof -
  obtain ds where ds: "Base64UrlEncode bs = map (\<lambda>v. to_url_char (b64_char v)) ds" "pad4 (map b64_char ds) = b64_groups bs"
    using Base64UrlEncode_shape by blast
  have "map of_url_char (Base64UrlEncode bs) = map b64_char ds" using ds(1) url_char(1) by (simp add: comp_def)
  then show ?thesis using ds(2) b64_ungroup_groups by (simp add: Base64UrlDecode_def)
qed

lemma Base64_no_dot: "CHR ''.'' \<notin> set (Base64UrlEncode bs)"
proof -
  obtain ds where "Base64UrlEncode bs = map (\<lambda>v. to_url_char (b64_char v)) ds" using Base64UrlEncode_shape by blast
  then show ?thesis using url_char(3) by (auto simp: eq_commute [of "CHR ''.''"])
qed

end
