(* ===== verification/JwtAuth.thy ===== *)
theory JwtAuth
  imports Router RaftRPC Base64
begin

unbundle bit_operations_syntax

text \<open>
  \<open>auth/\<close>: JSON web tokens (\<open>JwtValidator\<close>), the revocation list (\<open>TokenStore\<close>) and the
  middleware (\<open>AuthMiddleware\<close>). The cryptographic operations of OpenSSL are the fields of a
  record that every definition using them takes as an argument.
\<close>

section \<open>Tokens\<close>

record JwtClaims =
  cl_sub :: string
  cl_iss :: string
  cl_roles :: "string list"
  cl_exp :: i64
  cl_iat :: i64
  cl_jti :: string

record JwtConfig =
  jc_algorithm :: string
  jc_secret :: string
  jc_publicKeyPem :: string
  jc_issuer :: string
  jc_clockSkewSeconds :: i64

definition JwtConfig_default :: JwtConfig where
  "JwtConfig_default = \<lparr>jc_algorithm = ''HS256'', jc_secret = [], jc_publicKeyPem = [], jc_issuer = ''orcdb'',
     jc_clockSkewSeconds = 30\<rparr>"

text \<open>
  OpenSSL: the HMAC with SHA-256 of a key and a message, reading a public key in PEM format,
  and verifying a SHA-256 signature of a message with such a key.
\<close>

record 'k crypto_ops =
  hmac_sha256 :: "string \<Rightarrow> string \<Rightarrow> u8 list"
  read_pubkey :: "string \<Rightarrow> 'k option"
  digest_verify :: "'k \<Rightarrow> string \<Rightarrow> string \<Rightarrow> bool"

record 'k JwtValidator =
  jv_config :: JwtConfig
  jv_rsaKey :: "'k option"

definition JwtValidator_new :: "'k crypto_ops \<Rightarrow> JwtConfig \<Rightarrow> exn + 'k JwtValidator" where
  "JwtValidator_new X cfg =
     (if jc_algorithm cfg = ''RS256'' \<and> jc_publicKeyPem cfg \<noteq> [] then
        (case read_pubkey X (jc_publicKeyPem cfg) of
           None \<Rightarrow> Inl (RuntimeError ''Failed to load RS256 public key'')
         | Some k \<Rightarrow> Inr \<lparr>jv_config = cfg, jv_rsaKey = Some k\<rparr>)
      else Inr \<lparr>jv_config = cfg, jv_rsaKey = None\<rparr>)"

text \<open>The comparison without early exit: the differences of all bytes are collected.\<close>

definition ct_equal :: "string \<Rightarrow> string \<Rightarrow> bool" where
  "ct_equal expected actual \<longleftrightarrow>
     length expected = length actual \<and>
     foldl (\<lambda>diff (x, y). diff OR (byte_of x XOR byte_of y)) 0 (zip expected actual) = 0"

definition VerifyHS256 :: "'k crypto_ops \<Rightarrow> 'k JwtValidator \<Rightarrow> string \<Rightarrow> string \<Rightarrow> bool" where
  "VerifyHS256 X v headerPayload sig =
     ct_equal (Base64UrlEncode (hmac_sha256 X (jc_secret (jv_config v)) headerPayload)) sig"

definition VerifyRS256 :: "'k crypto_ops \<Rightarrow> 'k JwtValidator \<Rightarrow> string \<Rightarrow> string \<Rightarrow> bool" where
  "VerifyRS256 X v headerPayload sig =
     (case jv_rsaKey v of None \<Rightarrow> False | Some k \<Rightarrow> digest_verify X k headerPayload (Base64UrlDecode sig))"

text \<open>The clock reading is in seconds.\<close>

definition ValidateClaims :: "int \<Rightarrow> 'k JwtValidator \<Rightarrow> JwtClaims \<Rightarrow> bool" where
  "ValidateClaims now v c =
     (let cfg = jv_config v in
      if 0 < sint (cl_exp c) \<and> wrap64 (sint (cl_exp c) + sint (jc_clockSkewSeconds cfg)) < now then False
      else if jc_issuer cfg \<noteq> [] \<and> cl_iss c \<noteq> jc_issuer cfg then False
      else True)"

definition ParsePayload :: "'j json_ops \<Rightarrow> string \<Rightarrow> JwtClaims option" where
  "ParsePayload J s =
     do { j \<leftarrow> j_parse J s;
          sub \<leftarrow> jvalue J (j_get_str J) j ''sub'' [];
          iss \<leftarrow> jvalue J (j_get_str J) j ''iss'' [];
          exp \<leftarrow> jvalue J (j_get_i64 J) j ''exp'' 0;
          iat \<leftarrow> jvalue J (j_get_i64 J) j ''iat'' 0;
          jti \<leftarrow> jvalue J (j_get_str J) j ''jti'' [];
          roles \<leftarrow> (case j_field J j ''roles'' of
              None \<Rightarrow> Some []
            | Some r \<Rightarrow> if j_is_array J r then map_opt (j_get_str J) (j_elems J r) else Some []);
          Some \<lparr>cl_sub = sub, cl_iss = iss, cl_roles = roles, cl_exp = exp, cl_iat = iat, cl_jti = jti\<rparr> }"

definition ExtractBearerToken :: "string \<Rightarrow> string option" where
  "ExtractBearerToken h = (if substr h 0 7 \<noteq> ''Bearer '' then None else Some (drop 7 h))"

definition Validate :: "'k crypto_ops \<Rightarrow> 'j json_ops \<Rightarrow> int \<Rightarrow> 'k JwtValidator \<Rightarrow> string \<Rightarrow> AuthContext" where
  "Validate X J now v token =
     (let ctx = AuthContext_default\<lparr>ac_rawToken := token\<rparr> in
      case find_char (CHR ''.'') token of
        None \<Rightarrow> ctx
      | Some dot1 \<Rightarrow>
          (case find_char (CHR ''.'') (drop (dot1 + 1) token) of
             None \<Rightarrow> ctx
           | Some d \<Rightarrow>
               let dot2 = dot1 + 1 + d;
                   headerPayload = substr token 0 dot2;
                   sigPart = drop (dot2 + 1) token;
                   payloadB64 = substr token (dot1 + 1) (dot2 - dot1 - 1)
               in case ParsePayload J (Base64UrlDecode payloadB64) of
                    None \<Rightarrow> ctx
                  | Some claims \<Rightarrow>
                      let sigOk = (if jc_algorithm (jv_config v) = ''HS256'' then VerifyHS256 X v headerPayload sigPart
                            else if jc_algorithm (jv_config v) = ''RS256'' then VerifyRS256 X v headerPayload sigPart
                            else False)
                      in if \<not> sigOk then ctx
                         else if \<not> ValidateClaims now v claims then ctx
                         else ctx\<lparr>ac_authenticated := True, ac_subject := cl_sub claims, ac_roles := cl_roles claims\<rparr>))"

definition jwt_header :: string where
  "jwt_header = ''{\"alg\":\"HS256\",\"typ\":\"JWT\"}''"

definition JwtClaims_json :: "'j json_ops \<Rightarrow> JwtClaims \<Rightarrow> 'j" where
  "JwtClaims_json J c = j_obj J
     [(''sub'', j_str J (cl_sub c)), (''iss'', j_str J (cl_iss c)), (''exp'', j_i64 J (cl_exp c)), (''iat'', j_i64 J (cl_iat c)),
      (''jti'', j_str J (cl_jti c)), (''roles'', j_arr J (map (j_str J) (cl_roles c)))]"

definition GenerateHS256Token :: "'k crypto_ops \<Rightarrow> 'j json_ops \<Rightarrow> 'k JwtValidator \<Rightarrow> JwtClaims \<Rightarrow> string option" where
  "GenerateHS256Token X J v c =
     do { payloadJson \<leftarrow> j_dump J (JwtClaims_json J c);
          let headerPayload = Base64UrlEncode (bytes_of jwt_header) @ ''.'' @ Base64UrlEncode (bytes_of payloadJson);
              sig = Base64UrlEncode (hmac_sha256 X (jc_secret (jv_config v)) headerPayload)
          in Some (headerPayload @ ''.'' @ sig) }"

section \<open>The revocation list\<close>

record TokenStore =
  ts_revoked :: "string list"

definition TokenStore_new :: TokenStore where
  "TokenStore_new = \<lparr>ts_revoked = []\<rparr>"

definition Revoke :: "string \<Rightarrow> TokenStore \<Rightarrow> TokenStore" where
  "Revoke jti t = t\<lparr>ts_revoked := List.insert jti (ts_revoked t)\<rparr>"

definition IsRevoked :: "string \<Rightarrow> TokenStore \<Rightarrow> bool" where
  "IsRevoked jti t \<longleftrightarrow> jti \<in> set (ts_revoked t)"

definition RevokedCount :: "TokenStore \<Rightarrow> nat" where
  "RevokedCount t = length (ts_revoked t)"

section \<open>The middleware\<close>

record 'k AuthMiddleware =
  am_validator :: "'k JwtValidator"
  am_tokenStore :: TokenStore
  am_publicPaths :: "string list"

definition AuthMiddleware_new :: "'k JwtValidator \<Rightarrow> TokenStore \<Rightarrow> 'k AuthMiddleware" where
  "AuthMiddleware_new v t = \<lparr>am_validator = v, am_tokenStore = t, am_publicPaths = [''/healthz'', ''/readyz'', ''/metrics'']\<rparr>"

definition AddPublicPath :: "string \<Rightarrow> 'k AuthMiddleware \<Rightarrow> 'k AuthMiddleware" where
  "AddPublicPath path m = m\<lparr>am_publicPaths := am_publicPaths m @ [path]\<rparr>"

definition is_public :: "string list \<Rightarrow> string \<Rightarrow> bool" where
  "is_public paths path \<longleftrightarrow> list_ex (\<lambda>p. path = p \<or> has_prefix p path) paths"

definition MakeMiddleware :: "'k crypto_ops \<Rightarrow> 'j json_ops \<Rightarrow> int \<Rightarrow> 'k AuthMiddleware \<Rightarrow> MiddlewareFn" where
  "MakeMiddleware X J now m = (\<lambda>req auth.
     if is_public (am_publicPaths m) (rq_path req) then Some (auth\<lparr>ac_authenticated := True\<rparr>, None)
     else (case ExtractBearerToken (GetHeader ''Authorization'' req) of
        None \<Rightarrow> do { resp \<leftarrow> HttpResponse_Unauthorized J ''missing Authorization header''; Some (auth, Some resp) }
      | Some token \<Rightarrow>
          let auth' = Validate X J now (am_validator m) token
          in if \<not> ac_authenticated auth'
             then do { resp \<leftarrow> HttpResponse_Unauthorized J ''invalid or expired token''; Some (auth', Some resp) }
             else Some (auth', None)))"

section \<open>What a valid token is\<close>

lemma foldl_diff:
  "foldl (\<lambda>diff (x, y). diff OR (byte_of x XOR byte_of y)) d zs = 0 \<longleftrightarrow> d = 0 \<and> (\<forall>(x, y) \<in> set zs. x = y)"
proof (induction zs arbitrary: d)
  case (Cons z zs)
  obtain x y where z: "z = (x, y)" by (cases z)
  have "byte_of x XOR byte_of y = 0 \<longleftrightarrow> byte_of x = byte_of y" by (metis xor.left_neutral xor_self_eq xor.assoc)
  moreover have "byte_of x = byte_of y \<longleftrightarrow> x = y" by (metis char_of_byte_of)
  ultimately show ?case using Cons by (auto simp: z or_eq_0_iff)
qed simp

lemma ct_equal_iff: "ct_equal a b \<longleftrightarrow> a = b"
proof -
  have "length a = length b \<and> (\<forall>(x, y) \<in> set (zip a b). x = y) \<longleftrightarrow> a = b"
    by (induction a b rule: list_induct2') auto
  then show ?thesis by (simp add: ct_equal_def foldl_diff)
qed

definition signed_by :: "'k crypto_ops \<Rightarrow> 'k JwtValidator \<Rightarrow> string \<Rightarrow> string \<Rightarrow> bool" where
  "signed_by X v msg sig \<longleftrightarrow>
     (jc_algorithm (jv_config v) = ''HS256'' \<and> sig = Base64UrlEncode (hmac_sha256 X (jc_secret (jv_config v)) msg)) \<or>
     (jc_algorithm (jv_config v) = ''RS256'' \<and> (\<exists>k. jv_rsaKey v = Some k \<and> digest_verify X k msg (Base64UrlDecode sig)))"

definition accepts :: "'k crypto_ops \<Rightarrow> 'j json_ops \<Rightarrow> int \<Rightarrow> 'k JwtValidator \<Rightarrow> string \<Rightarrow> JwtClaims \<Rightarrow> bool" where
  "accepts X J now v token c \<longleftrightarrow>
     (\<exists>header payload sig. token = header @ ''.'' @ payload @ ''.'' @ sig \<and>
        CHR ''.'' \<notin> set header \<and> CHR ''.'' \<notin> set payload \<and>
        ParsePayload J (Base64UrlDecode payload) = Some c \<and> signed_by X v (header @ ''.'' @ payload) sig) \<and>
     (sint (cl_exp c) \<le> 0 \<or> now \<le> wrap64 (sint (cl_exp c) + sint (jc_clockSkewSeconds (jv_config v)))) \<and>
     (jc_issuer (jv_config v) = [] \<or> cl_iss c = jc_issuer (jv_config v))"

definition granted :: "string \<Rightarrow> JwtClaims \<Rightarrow> AuthContext" where
  "granted token c = AuthContext_default\<lparr>ac_rawToken := token, ac_authenticated := True, ac_subject := cl_sub c, ac_roles := cl_roles c\<rparr>"

lemma find_char_split: "find_char c s = Some n \<Longrightarrow> s = take n s @ c # drop (n + 1) s \<and> c \<notin> set (take n s)"
  by (metis find_char_Some id_take_nth_drop Suc_eq_plus1)

lemma find_char_no: "find_char c s = None \<Longrightarrow> s \<noteq> xs @ c # ys"
  by (auto simp: find_char_None)

lemma three_parts:
  assumes "CHR ''.'' \<notin> set header" "CHR ''.'' \<notin> set payload"
  shows "Validate X J now v (header @ ''.'' @ payload @ ''.'' @ sig) =
    (let token = header @ ''.'' @ payload @ ''.'' @ sig; ctx = AuthContext_default\<lparr>ac_rawToken := token\<rparr> in
     case ParsePayload J (Base64UrlDecode payload) of
       None \<Rightarrow> ctx
     | Some c \<Rightarrow> if signed_by X v (header @ ''.'' @ payload) sig \<and> ValidateClaims now v c then granted token c else ctx)"
proof -
  let ?t = "header @ ''.'' @ payload @ ''.'' @ sig"
  have f: "find_char (CHR ''.'') ?t = Some (length header)" using find_char_append [OF assms(1)] by simp
  have d: "drop (length header + 1) ?t = payload @ ''.'' @ sig" by simp
  have g: "find_char (CHR ''.'') (drop (length header + 1) ?t) = Some (length payload)"
    unfolding d using find_char_append [OF assms(2)] by simp
  have p: "substr ?t 0 (length header + 1 + length payload) = header @ ''.'' @ payload"
    "drop (length header + 1 + length payload + 1) ?t = sig"
    "substr ?t (length header + 1) (length header + 1 + length payload - length header - 1) = payload"
    by (simp_all add: substr_def)
  have s: "(if jc_algorithm (jv_config v) = ''HS256'' then VerifyHS256 X v m sg
      else if jc_algorithm (jv_config v) = ''RS256'' then VerifyRS256 X v m sg else False) = signed_by X v m sg" for m sg
    by (auto simp: signed_by_def VerifyHS256_def VerifyRS256_def ct_equal_iff split: option.splits)
  show ?thesis
    unfolding Validate_def Let_def f g option.case p s granted_def by (auto split: option.splits)
qed

lemma parts_unique:
  assumes "h @ ''.'' @ p @ ''.'' @ s = h' @ ''.'' @ p' @ ''.'' @ s'" "CHR ''.'' \<notin> set h" "CHR ''.'' \<notin> set p"
    "CHR ''.'' \<notin> set h'" "CHR ''.'' \<notin> set p'"
  shows "h = h' \<and> p = p' \<and> s = s'"
proof -
  have cut: "x = x' \<and> y = y'" if "x @ CHR ''.'' # y = x' @ CHR ''.'' # y'" "CHR ''.'' \<notin> set x" "CHR ''.'' \<notin> set x'" for x x' y y'
    using that find_char_append [OF that(2), of y] find_char_append [OF that(3), of y'] by simp
  show ?thesis using assms cut [of h "p @ ''.'' @ s" h' "p' @ ''.'' @ s'"] cut [of p s p' s'] by auto
qed

lemma ValidateClaims_iff:
  "ValidateClaims now v c \<longleftrightarrow>
     (sint (cl_exp c) \<le> 0 \<or> now \<le> wrap64 (sint (cl_exp c) + sint (jc_clockSkewSeconds (jv_config v)))) \<and>
     (jc_issuer (jv_config v) = [] \<or> cl_iss c = jc_issuer (jv_config v))"
  by (auto simp: ValidateClaims_def Let_def not_less)

lemma accepts_parts:
  assumes "CHR ''.'' \<notin> set h" "CHR ''.'' \<notin> set p"
  shows "accepts X J now v (h @ ''.'' @ p @ ''.'' @ s) c \<longleftrightarrow>
    ParsePayload J (Base64UrlDecode p) = Some c \<and> signed_by X v (h @ ''.'' @ p) s \<and> ValidateClaims now v c"
  unfolding accepts_def ValidateClaims_iff [symmetric]
  using parts_unique [OF _ assms, of s] assms by blast

lemma not_three_parts:
  assumes "\<nexists>h p s. token = h @ ''.'' @ p @ ''.'' @ s \<and> CHR ''.'' \<notin> set h \<and> CHR ''.'' \<notin> set p"
  shows "Validate X J now v token = AuthContext_default\<lparr>ac_rawToken := token\<rparr>" "\<not> accepts X J now v token c"
proof -
  show "\<not> accepts X J now v token c" using assms unfolding accepts_def by blast
  have "find_char (CHR ''.'') (drop (n + 1) token) = None" if n: "find_char (CHR ''.'') token = Some n" for n
  proof (rule ccontr)
    assume "find_char (CHR ''.'') (drop (n + 1) token) \<noteq> None"
    then obtain m where m: "find_char (CHR ''.'') (drop (n + 1) token) = Some m" by auto
    let ?p = "take m (drop (n + 1) token)" and ?s = "drop (m + 1) (drop (n + 1) token)"
    have "token = take n token @ ''.'' @ ?p @ ''.'' @ ?s" "CHR ''.'' \<notin> set (take n token)" "CHR ''.'' \<notin> set ?p"
      using find_char_split [OF n] find_char_split [OF m] by auto
    then show False using assms by blast
  qed
  then show "Validate X J now v token = AuthContext_default\<lparr>ac_rawToken := token\<rparr>"
    by (auto simp: Validate_def Let_def split: option.splits)
qed

lemma Validate_accepts:
  "if \<exists>c. accepts X J now v token c then \<exists>c. accepts X J now v token c \<and> Validate X J now v token = granted token c
   else Validate X J now v token = AuthContext_default\<lparr>ac_rawToken := token\<rparr>"
proof (cases "\<exists>h p s. token = h @ ''.'' @ p @ ''.'' @ s \<and> CHR ''.'' \<notin> set h \<and> CHR ''.'' \<notin> set p")
  case True
  then obtain h p s where t: "token = h @ ''.'' @ p @ ''.'' @ s" and d: "CHR ''.'' \<notin> set h" "CHR ''.'' \<notin> set p" by blast
  show ?thesis unfolding t accepts_parts [OF d] three_parts [OF d] Let_def by (auto split: option.splits)
next
  case False
  show ?thesis by (simp add: not_three_parts [OF False])
qed

lemma accepts_unique: "accepts X J now v token c \<Longrightarrow> accepts X J now v token c' \<Longrightarrow> c = c'"
  unfolding accepts_def using parts_unique by (metis option.inject)

section \<open>Tokens made here are accepted\<close>

definition claims_ok :: "JwtClaims \<Rightarrow> bool" where
  "claims_ok c \<longleftrightarrow> list_all utf8_valid (cl_sub c # cl_iss c # cl_jti c # cl_roles c)"

context json_lib
begin

lemma ParsePayload_json:
  assumes "claims_ok c"
  obtains s where "j_dump J (JwtClaims_json J c) = Some s" "ParsePayload J s = Some c"
proof -
  have "built J (JwtClaims_json J c)"
    unfolding JwtClaims_json_def
    using assms by (intro built_obj) (auto simp: claims_ok_def list_all_iff utf8_valid_ascii intro!: built_intros)
  then obtain s where s: "j_dump J (JwtClaims_json J c) = Some s" "j_parse J s = Some (JwtClaims_json J c)" by (rule dumpE)
  have "map_opt (j_get_str J) (map (j_str J) xs) = Some xs" for xs by (induction xs) (auto simp: json_simps)
  then have "ParsePayload J s = Some c"
    using s(2) by (simp add: ParsePayload_def JwtClaims_json_def json_simps)
  with s(1) show ?thesis by (rule that)
qed

lemma token_accepted:
  assumes "claims_ok c" "jc_algorithm (jv_config v) = ''HS256''" "ValidateClaims now v c"
  shows "\<exists>token. GenerateHS256Token X J v c = Some token \<and> accepts X J now v token c \<and>
    Validate X J now v token = granted token c"
proof -
  obtain s where s: "j_dump J (JwtClaims_json J c) = Some s" "ParsePayload J s = Some c" using ParsePayload_json [OF assms(1)] .
  let ?h = "Base64UrlEncode (bytes_of jwt_header)" and ?p = "Base64UrlEncode (bytes_of s)"
  let ?g = "Base64UrlEncode (hmac_sha256 X (jc_secret (jv_config v)) (?h @ ''.'' @ ?p))"
  have "GenerateHS256Token X J v c = Some (?h @ ''.'' @ ?p @ ''.'' @ ?g)"
    using s(1) by (simp add: GenerateHS256Token_def Let_def)
  moreover have "Validate X J now v (?h @ ''.'' @ ?p @ ''.'' @ ?g) = granted (?h @ ''.'' @ ?p @ ''.'' @ ?g) c"
    unfolding three_parts [OF Base64_no_dot Base64_no_dot] using assms(2,3) s(2)
    by (simp add: Base64_roundtrip signed_by_def Let_def)
  moreover have "accepts X J now v (?h @ ''.'' @ ?p @ ''.'' @ ?g) c"
    unfolding accepts_parts [OF Base64_no_dot Base64_no_dot] using assms(2,3) s(2)
    by (simp add: Base64_roundtrip signed_by_def)
  ultimately show ?thesis by blast
qed

end

section \<open>The guard\<close>

lemma ExtractBearerToken_iff: "ExtractBearerToken h = Some t \<longleftrightarrow> h = ''Bearer '' @ t"
proof
  assume "ExtractBearerToken h = Some t"
  then have "take 7 h = ''Bearer ''" "t = drop 7 h" by (auto simp: ExtractBearerToken_def substr_def split: if_splits)
  then show "h = ''Bearer '' @ t" by (metis append_take_drop_id)
qed (simp add: ExtractBearerToken_def substr_def)

lemma MakeMiddleware_pass:
  "MakeMiddleware X J now m req auth = Some (auth', None) \<longleftrightarrow>
     (if is_public (am_publicPaths m) (rq_path req) then auth' = auth\<lparr>ac_authenticated := True\<rparr>
      else \<exists>token c. GetHeader ''Authorization'' req = ''Bearer '' @ token \<and> accepts X J now (am_validator m) token c \<and>
        auth' = granted token c)"
proof -
  have v: "(ac_authenticated (Validate X J now w t) \<and> auth' = Validate X J now w t) \<longleftrightarrow>
      (\<exists>c. accepts X J now w t c \<and> auth' = granted t c)" for w t
  proof (cases "\<exists>c. accepts X J now w t c")
    case True
    then obtain c where c: "accepts X J now w t c" "Validate X J now w t = granted t c" using Validate_accepts [of X J now w t] by auto
    then have "accepts X J now w t c' \<longleftrightarrow> c' = c" for c' using accepts_unique by blast
    with c(2) show ?thesis by (auto simp: granted_def)
  next
    case False
    then show ?thesis using Validate_accepts [of X J now w t] by (simp add: AuthContext_default_def)
  qed
  show ?thesis
  proof (cases "is_public (am_publicPaths m) (rq_path req)")
    case True
    then show ?thesis by (auto simp: MakeMiddleware_def)
  next
    case False
    show ?thesis
    proof (cases "ExtractBearerToken (GetHeader ''Authorization'' req)")
      case None
      then have "GetHeader ''Authorization'' req \<noteq> ''Bearer '' @ t" for t
        using ExtractBearerToken_iff [of "GetHeader ''Authorization'' req" t] by force
      then show ?thesis using False None by (auto simp: MakeMiddleware_def split: bind_splits)
    next
      case (Some t)
      then have "GetHeader ''Authorization'' req = ''Bearer '' @ t" by (simp only: ExtractBearerToken_iff)
      then show ?thesis using False Some v [of "am_validator m" t]
        by (auto simp: MakeMiddleware_def Let_def split: bind_splits if_splits)
    qed
  qed
qed

section \<open>Properties\<close>

text \<open>
  C19: a token authenticates exactly when it has three parts separated by dots, its payload
  decodes to claims, the third part is the signature of the first two under the configured
  algorithm and key (whatever algorithm the token's own header names), the claims are not
  expired beyond the clock skew and name the configured issuer; the context then carries the
  subject and roles of these claims.
\<close>

theorem Validate_exact:
  "(ac_authenticated (Validate X J now v token) \<longleftrightarrow> (\<exists>c. accepts X J now v token c)) \<and>
   (\<forall>c. accepts X J now v token c \<longrightarrow> Validate X J now v token = granted token c)"
proof (cases "\<exists>c. accepts X J now v token c")
  case True
  then obtain c where c: "accepts X J now v token c" "Validate X J now v token = granted token c"
    using Validate_accepts [of X J now v token] by auto
  then have "accepts X J now v token c' \<longleftrightarrow> c' = c" for c' using accepts_unique by blast
  with c(2) show ?thesis by (simp add: granted_def)
next
  case False
  then show ?thesis using Validate_accepts [of X J now v token] by (simp add: AuthContext_default_def)
qed

definition sample_crypto :: "unit crypto_ops" where
  "sample_crypto = \<lparr>hmac_sha256 = (\<lambda>k m. bytes_of (k @ m)), read_pubkey = (\<lambda>_. None), digest_verify = (\<lambda>_ _ _. False)\<rparr>"

definition sample_validator :: "unit JwtValidator" where
  "sample_validator = \<lparr>jv_config = JwtConfig_default\<lparr>jc_secret := ''s''\<rparr>, jv_rsaKey = None\<rparr>"

definition sample_claims :: JwtClaims where
  "sample_claims = \<lparr>cl_sub = ''u'', cl_iss = ''orcdb'', cl_roles = [''write''], cl_exp = 100, cl_iat = 0, cl_jti = ''t''\<rparr>"

lemma sample_claims_ok:
  "claims_ok sample_claims" "jc_algorithm (jv_config sample_validator) = ''HS256''"
  "sint (cl_exp sample_claims) \<le> 0 \<or> 130 \<le> wrap64 (sint (cl_exp sample_claims) + sint (jc_clockSkewSeconds (jv_config sample_validator)))"
  "jc_issuer (jv_config sample_validator) = [] \<or> cl_iss sample_claims = jc_issuer (jv_config sample_validator)"
  by (simp_all add: claims_ok_def sample_claims_def sample_validator_def JwtConfig_default_def wrap64_def)

lemma sample_ValidateClaims: "ValidateClaims 130 sample_validator sample_claims"
  unfolding ValidateClaims_iff using sample_claims_ok by blast

lemma sample_token:
  "\<exists>token. GenerateHS256Token sample_crypto json_text sample_validator sample_claims = Some token \<and>
     accepts sample_crypto json_text 130 sample_validator token sample_claims \<and>
     Validate sample_crypto json_text 130 sample_validator token = granted token sample_claims"
  by (rule jt.token_accepted [OF sample_claims_ok(1,2) sample_ValidateClaims])

theorem Validate_exact_witness:
  "\<exists>token c. accepts sample_crypto json_text 130 sample_validator token c \<and>
     Validate sample_crypto json_text 130 sample_validator token = granted token c"
proof -
  obtain token where t: "accepts sample_crypto json_text 130 sample_validator token sample_claims" using sample_token by blast
  with Validate_exact [of sample_crypto json_text 130 sample_validator token] show ?thesis by blast
qed

text \<open>
  A token generated with the shared secret is accepted by a validator with that secret as
  long as it has not expired, and authenticates its subject with its roles.
\<close>

theorem token_roundtrip:
  assumes "json_lib J" "claims_ok c" "jc_algorithm (jv_config v) = ''HS256''"
    "sint (cl_exp c) \<le> 0 \<or> now \<le> wrap64 (sint (cl_exp c) + sint (jc_clockSkewSeconds (jv_config v)))"
    "jc_issuer (jv_config v) = [] \<or> cl_iss c = jc_issuer (jv_config v)"
  shows "\<exists>token. GenerateHS256Token X J v c = Some token \<and> Validate X J now v token = granted token c"
proof -
  have "ValidateClaims now v c" unfolding ValidateClaims_iff using assms(4,5) by blast
  then show ?thesis using json_lib.token_accepted [OF assms(1-3)] by blast
qed

theorem token_roundtrip_witness:
  "\<exists>token. GenerateHS256Token sample_crypto json_text sample_validator sample_claims = Some token \<and>
     ac_roles (Validate sample_crypto json_text 130 sample_validator token) = [''write'']"
proof -
  obtain token where "GenerateHS256Token sample_crypto json_text sample_validator sample_claims = Some token"
    "Validate sample_crypto json_text 130 sample_validator token = granted token sample_claims"
    using token_roundtrip [OF jt.json_lib_axioms sample_claims_ok, of sample_crypto] by blast
  then show ?thesis by (auto simp: granted_def sample_claims_def)
qed

text \<open>
  Behind the middleware a route that requires a role changes state only for a request
  with a bearer token whose claims are accepted and list one of the required roles or
  \<open>admin\<close>, even when its path starts with a public one.
\<close>

theorem role_needs_token:
  assumes "authMiddleware r = Some (MakeMiddleware X J now m)" "ac_roles auth = []"
    "Dispatch J r req auth s = Some (resp, s')" "s' \<noteq> s"
    "\<forall>route. find (\<lambda>route. selects route req) (routes r) = Some route \<longrightarrow> rt_requiredRoles route \<noteq> []"
  shows "\<exists>route token c role. find (\<lambda>route. selects route req) (routes r) = Some route \<and> role \<in> set (rt_requiredRoles route) \<and>
    GetHeader ''Authorization'' req = ''Bearer '' @ token \<and> accepts X J now (am_validator m) token c \<and>
    (role \<in> set (cl_roles c) \<or> ''admin'' \<in> set (cl_roles c))"
proof -
  obtain auth' route where a: "MakeMiddleware X J now m req auth = Some (auth', None)"
    "find (\<lambda>route. selects route req) (routes r) = Some route" "authorized route auth'"
    using Dispatch_changed [OF assms(3,4)] assms(1) by auto
  then obtain role where r: "role \<in> set (rt_requiredRoles route)" "HasRole role auth'"
    using assms(5) by (auto simp: authorized_def list_ex_iff)
  then have "ac_roles auth' \<noteq> []" by (auto simp: HasRole_def)
  then obtain token c where "GetHeader ''Authorization'' req = ''Bearer '' @ token" "accepts X J now (am_validator m) token c"
    "auth' = granted token c"
    using a(1) [unfolded MakeMiddleware_pass] assms(2) by (auto split: if_splits)
  moreover from this(3) r(2) have "role \<in> set (cl_roles c) \<or> ''admin'' \<in> set (cl_roles c)"
    by (simp add: HasRole_def granted_def)
  ultimately show ?thesis using a(2) r(1) by blast
qed

definition guarded_router :: "nat Router" where
  "guarded_router = the (AddRoute ''PUT'' ''/x'' (\<lambda>req auth n. Some (HttpResponse_NoContent, n + 1)) [''write'']
     (SetAuthMiddleware (MakeMiddleware sample_crypto json_text 130 (AuthMiddleware_new sample_validator TokenStore_new)) Router_new))"

theorem role_needs_token_witness:
  "\<exists>token c. accepts sample_crypto json_text 130 sample_validator token c \<and> ''write'' \<in> set (cl_roles c) \<and>
     Dispatch json_text guarded_router (HttpRequest_default\<lparr>rq_method := ''PUT'', rq_path := ''/x'',
       rq_headers := [(''Authorization'', ''Bearer '' @ token)]\<rparr>) AuthContext_default 0 = Some (HttpResponse_NoContent, 1)"
proof -
  let ?m = "AuthMiddleware_new sample_validator TokenStore_new"
  let ?mw = "MakeMiddleware sample_crypto json_text 130 ?m"
  obtain token where acc: "accepts sample_crypto json_text 130 sample_validator token sample_claims" using sample_token by blast
  let ?req = "HttpRequest_default\<lparr>rq_method := ''PUT'', rq_path := ''/x'', rq_headers := [(''Authorization'', ''Bearer '' @ token)]\<rparr>"
  have r: "guarded_router = \<lparr>routes = [\<lparr>rt_method = ''PUT'', rt_pattern = ''/x'', rt_regex = map RxChar ''/x'', rt_paramNames = [],
      rt_handler = (\<lambda>req auth n. Some (HttpResponse_NoContent, n + 1)), rt_requiredRoles = [''write'']\<rparr>], authMiddleware = Some ?mw\<rparr>"
    by (simp add: guarded_router_def AddRoute_def CompilePattern_eq Router_new_def SetAuthMiddleware_def)
  have h: "GetHeader ''Authorization'' ?req = ''Bearer '' @ token" by (simp add: GetHeader_def)
  have mw: "?mw ?req AuthContext_default = Some (granted token sample_claims, None)"
    unfolding MakeMiddleware_pass using h acc
    by (auto simp: AuthMiddleware_new_def is_public_def has_prefix_def substr_def)
  have d: "Dispatch json_text guarded_router ?req AuthContext_default 0 = Some (HttpResponse_NoContent, 1)"
    using mw by (simp add: r Dispatch_def MatchRoute_def authorized_def HasRole_def granted_def sample_claims_def)
  have "\<exists>route token' c role. find (\<lambda>route. selects route ?req) (routes guarded_router) = Some route \<and> role \<in> set (rt_requiredRoles route) \<and>
    GetHeader ''Authorization'' ?req = ''Bearer '' @ token' \<and> accepts sample_crypto json_text 130 (am_validator ?m) token' c \<and>
    (role \<in> set (cl_roles c) \<or> ''admin'' \<in> set (cl_roles c))"
    by (rule role_needs_token [OF _ _ d]) (simp_all add: r AuthContext_default_def find_Some_iff)
  moreover have "''write'' \<in> set (cl_roles sample_claims)" by (simp add: sample_claims_def)
  ultimately show ?thesis using d acc by blast
qed

end
