(* ===== verification/Handlers.thy ===== *)
theory Handlers
  imports StateMachine JwtAuth
begin

text \<open>
  \<open>api/\<close>: the handlers of the key-value, watch, cluster and health routes, over the node they
  share with the Raft threads (\<open>None\<close> is an exception that leaves the handler). Handlers that
  block give up the node to those threads; what these do in the meantime is an argument.
\<close>

section \<open>The other threads\<close>

text \<open>
  \<open>env_now\<close> is the reading of the clock in a handler. \<open>env_step k\<close> is what happens to the node
  between two calls a handler makes, each of which takes its own locks. \<open>env_wait i\<close> takes the node to the state in
  which the wait for entry \<open>i\<close> ends. \<open>env_watch t w\<close> does so for a wait of at most \<open>t\<close>
  milliseconds on watch \<open>w\<close>, with the calls of its callback during the wait and between the
  end of the wait and the end of the watch. \<open>env_cb\<close> is the callback of the request.
\<close>

type_synonym watch_call = "string \<times> KVEntry option"

record env =
  env_now :: time
  env_step :: "nat \<Rightarrow> RaftNode \<Rightarrow> RaftNode"
  env_wait :: "u64 \<Rightarrow> RaftNode \<Rightarrow> RaftNode"
  env_watch :: "i64 \<Rightarrow> u64 \<Rightarrow> RaftNode \<Rightarrow> RaftNode \<times> watch_call list \<times> watch_call list"
  env_cb :: callback

definition Propose ::
  "'j json_ops \<Rightarrow> env \<Rightarrow> string \<Rightarrow> string \<Rightarrow> OpType \<Rightarrow> i64 \<Rightarrow> RaftNode \<Rightarrow> (ProposeResult \<times> RaftNode) option" where
  "Propose J E key v opt ttl n =
     do { (n1, r) \<leftarrow> Propose_begin J key v opt ttl n;
          case r of
            Inl result \<Rightarrow> Some (result, n1)
          | Inr index \<Rightarrow> let n2 = env_wait E index n1 in Some (Propose_end index n2, n2) }"

section \<open>\<open>KVHandler\<close>\<close>

definition path_key :: "HttpRequest \<Rightarrow> string option" where
  "path_key req = map_of (rq_pathParams req) ''key''"

definition respond :: "RaftNode \<Rightarrow> HttpResponse option \<Rightarrow> (HttpResponse \<times> RaftNode) option" where
  "respond n r = map_option (\<lambda>resp. (resp, n)) r"

definition ok_json :: "'j json_ops \<Rightarrow> 'j \<Rightarrow> HttpResponse option" where
  "ok_json J j = map_option (\<lambda>b. HttpResponse_Ok b json_type) (j_dump J j)"

definition RedirectToLeader :: "'j json_ops \<Rightarrow> RaftNode \<Rightarrow> HttpResponse option" where
  "RedirectToLeader J n =
     (if GetLeaderId n = [] then HttpResponse_ServiceUnavailable J ''no leader elected''
      else HttpResponse_ServiceUnavailable J (''not the leader; redirect to: '' @ GetLeaderId n))"

definition entry_json :: "'j json_ops \<Rightarrow> string \<Rightarrow> KVEntry \<Rightarrow> 'j" where
  "entry_json J key e = j_obj J [(''key'', j_str J key), (''value'', j_str J (kv_value e)), (''version'', j_u64 J (kv_version e)),
     (''raft_index'', j_u64 J (kv_raftIndex e))]"

definition KVHandler_Get :: "'j json_ops \<Rightarrow> env \<Rightarrow> RaftNode HandlerFn" where
  "KVHandler_Get J E req auth n =
     do { key \<leftarrow> path_key req;
          respond n (case KVStore_Get (env_now E) key (store n) of
              None \<Rightarrow> HttpResponse_NotFound J (''key not found: '' @ key)
            | Some entry \<Rightarrow> ok_json J (entry_json J key entry)) }"

definition body_ttl :: "'j json_ops \<Rightarrow> 'j \<Rightarrow> i64 option option" where
  "body_ttl J body =
     (case j_field J body ''ttl_ms'' of
        None \<Rightarrow> Some None
      | Some t \<Rightarrow> if j_is_null J t then Some None else map_option Some (j_get_i64 J t))"

definition KVHandler_Put :: "'j json_ops \<Rightarrow> env \<Rightarrow> RaftNode HandlerFn" where
  "KVHandler_Put J E req auth n =
     do { key \<leftarrow> path_key req;
          if key = [] then respond n (HttpResponse_BadRequest J ''key cannot be empty'')
          else (case j_parse J (rq_body req) of
             None \<Rightarrow> respond n (HttpResponse_BadRequest J ''invalid JSON body'')
           | Some body \<Rightarrow>
               (case j_field J body ''value'' of
                  None \<Rightarrow> respond n (HttpResponse_BadRequest J ''missing field: value'')
                | Some j \<Rightarrow>
                    do { v \<leftarrow> j_get_str J j;
                         ttl \<leftarrow> body_ttl J body;
                         if \<not> IsLeader n then respond n (RedirectToLeader J n)
                         else do {
                           (result, n') \<leftarrow> Propose J E key v OpPut (case ttl of None \<Rightarrow> - 1 | Some t \<Rightarrow> t) (env_step E 0 n);
                           if \<not> pr_ok result then
                             (if find_str ''not leader'' (pr_error result) \<noteq> None then respond n' (RedirectToLeader J n')
                              else respond n' (HttpResponse_InternalError J (pr_error result)))
                           else respond n' (map_option HttpResponse_Created (j_dump J (j_obj J
                             [(''key'', j_str J key), (''version'', j_i64 J 1), (''raft_index'', j_u64 J (pr_index result))]))) } })) }"

definition KVHandler_Delete :: "'j json_ops \<Rightarrow> env \<Rightarrow> RaftNode HandlerFn" where
  "KVHandler_Delete J E req auth n =
     do { key \<leftarrow> path_key req;
          if \<not> IsLeader n then respond n (RedirectToLeader J n)
          else let n1 = env_step E 0 n in
            if KVStore_Get (env_now E) key (store n1) = None
            then respond n1 (HttpResponse_NotFound J (''key not found: '' @ key))
            else do { (result, n') \<leftarrow> Propose J E key [] OpDelete (- 1) (env_step E 1 n1);
                      if \<not> pr_ok result then respond n' (HttpResponse_InternalError J (pr_error result))
                      else Some (HttpResponse_NoContent, n') } }"

definition item_json :: "'j json_ops \<Rightarrow> string \<times> KVEntry \<Rightarrow> 'j" where
  "item_json J = (\<lambda>(k, v). j_obj J [(''key'', j_str J k), (''value'', j_str J (kv_value v)), (''version'', j_u64 J (kv_version v))])"

definition query_limit :: "HttpRequest \<Rightarrow> nat option option" where
  "query_limit req =
     (case GetQueryParam ''limit'' req of
        None \<Rightarrow> Some None
      | Some s \<Rightarrow> (case stoull s of Inl _ \<Rightarrow> None | Inr w \<Rightarrow> Some (Some (unat w))))"

definition KVHandler_List :: "'j json_ops \<Rightarrow> env \<Rightarrow> RaftNode HandlerFn" where
  "KVHandler_List J E req auth n =
     do { let pre = (case GetQueryParam ''prefix'' req of None \<Rightarrow> [] | Some p \<Rightarrow> p);
          limit \<leftarrow> query_limit req;
          let arr = map (item_json J) (KVStore_Scan (env_now E) pre limit (store n));
          respond n (ok_json J (j_obj J [(''items'', j_arr J arr), (''count'', j_u64 J (of_nat (length arr)))])) }"

definition KVHandler_CompareAndSwap :: "'j json_ops \<Rightarrow> env \<Rightarrow> RaftNode HandlerFn" where
  "KVHandler_CompareAndSwap J E req auth n =
     do { key \<leftarrow> path_key req;
          (case j_parse J (rq_body req) of
             None \<Rightarrow> respond n (HttpResponse_BadRequest J ''invalid JSON body'')
           | Some body \<Rightarrow>
               (case (j_field J body ''expected'', j_field J body ''value'') of
                  (Some je, Some jv) \<Rightarrow>
                    do { expected \<leftarrow> j_get_str J je;
                         newValue \<leftarrow> j_get_str J jv;
                         if \<not> IsLeader n then respond n (RedirectToLeader J n)
                         else let n1 = env_step E 0 n;
                                  (s, _, ok) = KVStore_CAS (env_now E) key expected newValue 0 (store n1);
                                  n' = n1\<lparr>store := s\<rparr> in
                           if \<not> ok then respond n' (HttpResponse_Conflict J ''compare-and-swap failed: value mismatch'')
                           else respond n' (ok_json J (j_obj J [(''key'', j_str J key), (''updated'', j_bool J True)])) }
                | _ \<Rightarrow> respond n (HttpResponse_BadRequest J ''missing expected or value field''))) }"

section \<open>\<open>WatchHandler\<close>\<close>

definition watch_json :: "'j json_ops \<Rightarrow> watch_call \<Rightarrow> 'j" where
  "watch_json J = (\<lambda>(changedKey, changedEntry). j_obj J ((''key'', j_str J changedKey) #
     (case changedEntry of
        Some e \<Rightarrow> [(''value'', j_str J (kv_value e)), (''version'', j_u64 J (kv_version e)),
          (''raft_index'', j_u64 J (kv_raftIndex e)), (''deleted'', j_bool J False)]
      | None \<Rightarrow> [(''deleted'', j_bool J True)])))"

definition query_timeout :: "HttpRequest \<Rightarrow> i64 option" where
  "query_timeout req =
     (case GetQueryParam ''timeout_ms'' req of
        None \<Rightarrow> Some 30000
      | Some ts \<Rightarrow> (case stoll ts of Inl _ \<Rightarrow> None | Inr t \<Rightarrow> Some t))"

definition WatchHandler_Watch :: "'j json_ops \<Rightarrow> env \<Rightarrow> RaftNode HandlerFn" where
  "WatchHandler_Watch J E req auth n =
     do { key \<leftarrow> path_key req;
          let isPrefix = (GetQueryParam ''prefix'' req = Some ''true'');
          timeoutMs \<leftarrow> query_timeout req;
          let (s1, watchId) = KVStore_Watch key isPrefix (env_cb E) (store n);
              (n2, calls, late) = env_watch E timeoutMs watchId (n\<lparr>store := s1\<rparr>);
              n3 = n2\<lparr>store := KVStore_Unwatch watchId (store n2)\<rparr>
          in if calls = [] then Some (HttpResponse_NoContent, n3)
             else respond n3 (ok_json J (watch_json J (last (calls @ late)))) }"

section \<open>\<open>ClusterHandler\<close> and \<open>HealthHandler\<close>\<close>

definition ClusterHandler_Status :: "'j json_ops \<Rightarrow> RaftNode HandlerFn" where
  "ClusterHandler_Status J req auth n =
     respond n (ok_json J (j_obj J [(''role'', j_str J (RaftRoleToString (GetRole n))), (''current_term'', j_u64 J (GetCurrentTerm n)),
       (''commit_index'', j_u64 J (GetCommitIndex n)), (''leader_id'', j_str J (GetLeaderId n)), (''is_leader'', j_bool J (IsLeader n))]))"

definition ClusterHandler_Leader :: "'j json_ops \<Rightarrow> RaftNode HandlerFn" where
  "ClusterHandler_Leader J req auth n =
     respond n (if GetLeaderId n = [] then HttpResponse_ServiceUnavailable J ''no leader elected''
       else ok_json J (j_obj J [(''leader_id'', j_str J (GetLeaderId n)), (''is_leader'', j_bool J (IsLeader n))]))"

definition HealthHandler_Liveness :: "'j json_ops \<Rightarrow> RaftNode HandlerFn" where
  "HealthHandler_Liveness J req auth n = respond n (ok_json J (j_obj J [(''status'', j_str J ''ok'')]))"

definition HealthHandler_Readiness :: "'j json_ops \<Rightarrow> RaftNode HandlerFn" where
  "HealthHandler_Readiness J req auth n =
     respond n (if GetLeaderId n = [] then HttpResponse_ServiceUnavailable J ''no leader elected''
       else ok_json J (j_obj J [(''status'', j_str J ''ready''), (''is_leader'', j_bool J (IsLeader n)),
         (''leader_id'', j_str J (GetLeaderId n)), (''term'', j_u64 J (GetCurrentTerm n))]))"

section \<open>The routes\<close>

definition HealthHandler_routes :: "'j json_ops \<Rightarrow> (RaftNode HandlerFn \<Rightarrow> 's HandlerFn) \<Rightarrow> 's Router \<Rightarrow> 's Router option" where
  "HealthHandler_routes J lift r =
     do { r1 \<leftarrow> AddRoute ''GET'' ''/healthz'' (lift (HealthHandler_Liveness J)) [] r;
          AddRoute ''GET'' ''/readyz'' (lift (HealthHandler_Readiness J)) [] r1 }"

definition KVHandler_routes ::
  "'j json_ops \<Rightarrow> env \<Rightarrow> (RaftNode HandlerFn \<Rightarrow> 's HandlerFn) \<Rightarrow> 's Router \<Rightarrow> 's Router option" where
  "KVHandler_routes J E lift r =
     do { r1 \<leftarrow> AddRoute ''POST'' ''/v1/kv/{key}/cas'' (lift (KVHandler_CompareAndSwap J E)) [''write''] r;
          r2 \<leftarrow> AddRoute ''GET'' ''/v1/kv'' (lift (KVHandler_List J E)) [''read''] r1;
          r3 \<leftarrow> AddRoute ''GET'' ''/v1/kv/{key}'' (lift (KVHandler_Get J E)) [''read''] r2;
          r4 \<leftarrow> AddRoute ''PUT'' ''/v1/kv/{key}'' (lift (KVHandler_Put J E)) [''write''] r3;
          AddRoute ''DELETE'' ''/v1/kv/{key}'' (lift (KVHandler_Delete J E)) [''write''] r4 }"

definition WatchHandler_routes ::
  "'j json_ops \<Rightarrow> env \<Rightarrow> (RaftNode HandlerFn \<Rightarrow> 's HandlerFn) \<Rightarrow> 's Router \<Rightarrow> 's Router option" where
  "WatchHandler_routes J E lift r = AddRoute ''GET'' ''/v1/watch/{key}'' (lift (WatchHandler_Watch J E)) [''read''] r"

definition ClusterHandler_routes :: "'j json_ops \<Rightarrow> (RaftNode HandlerFn \<Rightarrow> 's HandlerFn) \<Rightarrow> 's Router \<Rightarrow> 's Router option" where
  "ClusterHandler_routes J lift r =
     do { r1 \<leftarrow> AddRoute ''GET'' ''/v1/cluster/status'' (lift (ClusterHandler_Status J)) [''read''] r;
          AddRoute ''GET'' ''/v1/cluster/leader'' (lift (ClusterHandler_Leader J)) [] r1 }"

section \<open>Proposals that are applied\<close>

lemma entries_between_snoc:
  assumes "log_wf l" "log_wf l'" "entries l' = entries l @ [e]" "snapshotIndex l' = snapshotIndex l" "le_index e = LastIndex l + 1"
    "LastIndex l \<noteq> - 1" "snapshotIndex l \<le> a" "a \<le> LastIndex l"
  shows "\<exists>es. entries_between l' a (le_index e) = es @ [e]"
proof -
  have lt: "LastIndex l < - 1" using assms(6) by (simp add: word_order.not_eq_extremum)
  have i: "unat (le_index e) = Suc (unat (LastIndex l))" unfolding assms(5) by (rule unat_next [OF lt])
  have off: "Offset l' a = unat a - unat (snapshotIndex l)" using Offset_ge [of l' a] assms(4,7) by simp
  have len: "length (entries l) = Suc (unat (LastIndex l) - unat (snapshotIndex l))"
    using LastIndex_wf(2) [OF assms(1)] assms(1) by (cases "entries l") (auto simp: log_wf_def)
  have le: "unat (snapshotIndex l) \<le> unat a" "unat a \<le> unat (LastIndex l)" using assms(7,8) by (simp_all add: word_le_nat_alt)
  have "drop (Suc (Offset l' a)) (entries l') = drop (Suc (Offset l' a)) (entries l) @ [e]"
    unfolding assms(3) using off len le by simp
  moreover have "length (drop (Suc (Offset l' a)) (entries l) @ [e]) = unat (le_index e) - unat a"
    using off len le i by simp
  ultimately have "entries_between l' a (le_index e) = drop (Suc (Offset l' a)) (entries l) @ [e]"
    unfolding entries_between_def by (metis take_all order_refl)
  then show ?thesis by blast
qed

text \<open>What applying the entries up to and including a put of a key leaves under it.\<close>

lemma applied_put:
  assumes "log_wf (rlog n)" "store_wf (store n)" "snapshotIndex (rlog n) \<le> lastApplied n" "commitIndex n \<le> LastIndex (rlog n)"
    "entries_between (rlog n) (lastApplied n) (commitIndex n) = es @ [e]" "le_opType e = OpPut"
  shows "\<exists>old. om_find (data (store (ApplyLoop_inner clock n))) (le_key e) =
    Some (put_entry (clock (le_index e)) (le_value e) (le_index e) (if 0 < sint (le_ttl_ms e) then Some (le_ttl_ms e) else None) old)"
  using ApplyLoop_run [OF assms(1,3,4), of clock] assms(5,6)
  by (auto simp: ApplyEntry_def split_beta Let_def find_Put)

definition put_log_entry :: "'j json_ops \<Rightarrow> string \<Rightarrow> string \<Rightarrow> i64 \<Rightarrow> RaftNode \<Rightarrow> LogEntry \<Rightarrow> bool" where
  "put_log_entry J key v ttl n e \<longleftrightarrow> le_term e = currentTerm n \<and> le_index e = LastIndex (rlog n) + 1 \<and> le_opType e = OpPut \<and>
     le_key e = key \<and> le_value e = v \<and> le_ttl_ms e = ttl"

lemma Propose_begin_put:
  assumes "Propose_begin J key v OpPut ttl n = Some (n1, Inr i)"
  shows "\<exists>e. put_log_entry J key v ttl n e \<and> le_index e = i \<and> role n = Leader \<and>
    (\<exists>l. RaftLog_Append J e (rlog n) = Some l \<and> n1 = n\<lparr>rlog := l\<rparr>)"
proof -
  obtain e l where e: "propose_entry J key v OpPut ttl n = Some e" "RaftLog_Append J e (rlog n) = Some l" "role n = Leader"
      "n1 = n\<lparr>rlog := l\<rparr>" "i = le_index e"
    using assms by (auto simp: Propose_begin_def split: if_splits bind_splits)
  from e(1) have "put_log_entry J key v ttl n e"
    by (auto simp: propose_entry_def put_log_entry_def LogEntry_default_def Let_def split: bind_splits)
  with e show ?thesis by blast
qed

lemma Propose_applied:
  assumes "Propose_begin J key v OpPut ttl n = Some (n1, Inr i)" "log_wf (rlog n)" "store_wf (store n)"
    "snapshotIndex (rlog n) \<le> lastApplied n" "lastApplied n \<le> LastIndex (rlog n)" "LastIndex (rlog n) \<noteq> - 1"
    "env_wait E i n1 = ApplyLoop_inner clock (n1\<lparr>commitIndex := i\<rparr>)"
  shows "\<exists>n' old. Propose J E key v OpPut ttl n = Some (\<lparr>pr_ok = True, pr_error = [], pr_index = i\<rparr>, n') \<and>
    om_find (data (store n')) key = Some (put_entry (clock i) v i (if 0 < sint ttl then Some ttl else None) old)"
proof -
  obtain e l where e: "put_log_entry J key v ttl n e" "le_index e = i" "role n = Leader"
    and l: "RaftLog_Append J e (rlog n) = Some l" "n1 = n\<lparr>rlog := l\<rparr>"
    using Propose_begin_put [OF assms(1)] by blast
  have ei: "le_index e = LastIndex (rlog n) + 1" using e(1) by (simp add: put_log_entry_def)
  note w = Append_wf [OF assms(2) ei assms(6) l(1)]
  obtain es where es: "entries_between l (lastApplied n) (le_index e) = es @ [e]"
    using entries_between_snoc [OF assms(2) w(1-3) ei assms(6,4,5)] by blast
  let ?m = "n1\<lparr>commitIndex := i\<rparr>" and ?n' = "ApplyLoop_inner clock (n1\<lparr>commitIndex := i\<rparr>)"
  have m: "log_wf (rlog ?m)" "store_wf (store ?m)" "snapshotIndex (rlog ?m) \<le> lastApplied ?m" "commitIndex ?m \<le> LastIndex (rlog ?m)"
    using assms(3,4) w l(2) e(2) by simp_all
  obtain old where "om_find (data (store ?n')) key = Some (put_entry (clock i) v i (if 0 < sint ttl then Some ttl else None) old)"
    using applied_put [OF m, of es e clock] es e(1,2) l(2) by (auto simp: put_log_entry_def)
  moreover have "lastApplied n \<le> i"
    using assms(5,6) ei e(2) unat_next [of "LastIndex (rlog n)" "- 1"]
    by (simp add: word_le_nat_alt word_order.not_eq_extremum)
  then have "i \<le> lastApplied ?n'" using ApplyLoop_run [OF m(1,3,4), of clock] l(2) by simp
  moreover have "role ?n' = Leader" using ApplyLoop_inner_frame [of clock ?m] e(3) l(2) by simp
  ultimately show ?thesis using assms(1,7) by (auto simp: Propose_def Propose_end_def Let_def)
qed

section \<open>Responses\<close>

context json_lib
begin

lemma ok_json_built:
  assumes "built J j"
  obtains s where "ok_json J j = Some (HttpResponse_Ok s json_type)" "j_parse J s = Some j"
  using assms by (auto simp: ok_json_def elim: dumpE)

lemma entry_json_built: "utf8_valid key \<Longrightarrow> utf8_valid (kv_value e) \<Longrightarrow> built J (entry_json J key e)"
  unfolding entry_json_def by (intro built_obj) (auto intro: built_intros)

lemma item_json_built: "utf8_valid k \<Longrightarrow> utf8_valid (kv_value e) \<Longrightarrow> built J (item_json J (k, e))"
  unfolding item_json_def prod.case by (intro built_obj) (auto intro: built_intros)

lemma watch_json_built: "utf8_valid k \<Longrightarrow> (\<forall>e. c = Some e \<longrightarrow> utf8_valid (kv_value e)) \<Longrightarrow> built J (watch_json J (k, c))"
  unfolding watch_json_def prod.case by (intro built_obj) (auto intro: built_intros split: option.splits)

lemma entry_json_fields:
  "jget J (j_get_str J) (entry_json J key e) ''value'' = Some (kv_value e)"
  "jget J (j_get_u64 J) (entry_json J key e) ''version'' = Some (kv_version e)"
  "jget J (j_get_u64 J) (entry_json J key e) ''raft_index'' = Some (kv_raftIndex e)"
  by (simp_all add: entry_json_def json_simps)

lemma Get_live:
  assumes "path_key req = Some key" "KVStore_Get (env_now E) key (store n) = Some e" "utf8_valid key" "utf8_valid (kv_value e)"
  obtains body where "KVHandler_Get J E req auth n = Some (HttpResponse_Ok body json_type, n)"
    "j_parse J body = Some (entry_json J key e)"
proof -
  obtain s where "ok_json J (entry_json J key e) = Some (HttpResponse_Ok s json_type)" "j_parse J s = Some (entry_json J key e)"
    using ok_json_built [OF entry_json_built [OF assms(3,4)]] .
  with assms(1,2) show ?thesis by (intro that [of s]) (simp_all add: KVHandler_Get_def respond_def)
qed

lemma Put_proposed:
  assumes "path_key req = Some key" "key \<noteq> []" "utf8_valid key" "j_parse J (rq_body req) = Some body"
    "jget J (j_get_str J) body ''value'' = Some v" "body_ttl J body = Some ttl" "IsLeader n"
    "Propose J E key v OpPut (case ttl of None \<Rightarrow> - 1 | Some t \<Rightarrow> t) (env_step E 0 n) = Some (r, n')" "pr_ok r"
  obtains s j where "KVHandler_Put J E req auth n = Some (HttpResponse_Created s, n')" "j_parse J s = Some j"
    "jget J (j_get_i64 J) j ''version'' = Some 1" "jget J (j_get_u64 J) j ''raft_index'' = Some (pr_index r)"
proof -
  let ?j = "j_obj J [(''key'', j_str J key), (''version'', j_i64 J 1), (''raft_index'', j_u64 J (pr_index r))]"
  have "built J ?j" using assms(3) by (intro built_obj) (auto intro: built_intros)
  then obtain s where s: "j_dump J ?j = Some s" "j_parse J s = Some ?j" by (rule dumpE)
  obtain jv where "j_field J body ''value'' = Some jv" "j_get_str J jv = Some v"
    using assms(5) by (auto simp: jget_def bind_eq_Some_conv)
  then have "KVHandler_Put J E req auth n = Some (HttpResponse_Created s, n')"
    using assms s(1) by (simp add: KVHandler_Put_def respond_def)
  moreover have "jget J (j_get_i64 J) ?j ''version'' = Some 1" "jget J (j_get_u64 J) ?j ''raft_index'' = Some (pr_index r)"
    by (simp_all add: json_simps)
  ultimately show ?thesis using s(2) that by blast
qed

end

text \<open>The calls of one callback among the notifications of an operation.\<close>

definition calls_of :: "callback \<Rightarrow> notification list \<Rightarrow> watch_call list" where
  "calls_of cb ns = map snd (filter (\<lambda>(c, _). c = cb) ns)"

definition watch_hit :: "HttpRequest \<Rightarrow> string \<Rightarrow> string \<Rightarrow> bool" where
  "watch_hit req pat k \<longleftrightarrow> (if GetQueryParam ''prefix'' req = Some ''true'' then prefix pat k else k = pat)"

lemma watch_calls:
  assumes "KVStore_Watch pat isPrefix cb s = (s1, w)" "list_all (\<lambda>(_, _, _, c). c \<noteq> cb) (watches s)" "w \<notin> fst ` set (watches s)"
    "watches s2 = watches s1"
  shows "calls_of cb (NotifyWatchers k c s2) = (if (if isPrefix then prefix pat k else k = pat) then [(k, c)] else [])"
    "watches (KVStore_Unwatch w s2) = watches s"
proof -
  have w: "watches s2 = watches s @ [(w, pat, isPrefix, cb)]"
    using assms(1,3,4) update_fresh [of w "watches s" "(pat, isPrefix, cb)"] by (auto simp: KVStore_Watch_def Let_def)
  have "calls_of cb (map (\<lambda>(_, _, _, cb). (cb, k, c)) ws) = []" if "list_all (\<lambda>(_, _, _, c). c \<noteq> cb) ws" for ws
    using that by (induction ws) (auto simp: calls_of_def)
  moreover have "list_all (\<lambda>(_, _, _, c). c \<noteq> cb) (filter P (watches s))" for P using assms(2) by (auto simp: list_all_iff)
  ultimately show "calls_of cb (NotifyWatchers k c s2) = (if (if isPrefix then prefix pat k else k = pat) then [(k, c)] else [])"
    unfolding NotifyWatchers_def w by (auto simp: has_prefix_iff calls_of_def)
  have "AList.delete w (ws @ [(w, x)]) = ws" if "w \<notin> fst ` set ws" for ws and x :: "string \<times> bool \<times> callback"
    using that by (induction ws) auto
  then show "watches (KVStore_Unwatch w s2) = watches s" using assms(3) by (simp add: KVStore_Unwatch_def w)
qed

definition item_of :: "'j json_ops \<Rightarrow> 'j \<Rightarrow> (string \<times> string \<times> u64) option" where
  "item_of J x = do { k \<leftarrow> jget J (j_get_str J) x ''key''; v \<leftarrow> jget J (j_get_str J) x ''value'';
     ver \<leftarrow> jget J (j_get_u64 J) x ''version''; Some (k, v, ver) }"

context json_lib
begin

lemma item_of_json: "item_of J (item_json J (k, e)) = Some (k, kv_value e, kv_version e)"
  by (simp add: item_of_def item_json_def json_simps)

lemma items_of_json:
  "map_opt (item_of J) (map (item_json J) xs) = Some (map (\<lambda>(k, e). (k, kv_value e, kv_version e)) xs)"
  by (induction xs) (auto simp: item_of_json)

lemma List_ok:
  assumes "store_wf (store n)" "list_all (\<lambda>(k, e). utf8_valid k \<and> utf8_valid (kv_value e)) (data (store n))"
    "query_limit req = Some limit" "pre = (case GetQueryParam ''prefix'' req of None \<Rightarrow> [] | Some p \<Rightarrow> p)"
  shows "\<exists>s j arr. KVHandler_List J E req auth n = Some (HttpResponse_Ok s json_type, n) \<and> j_parse J s = Some j \<and>
    j_field J j ''items'' = Some arr \<and>
    map_opt (item_of J) (j_elems J arr) = Some (map (\<lambda>(k, e). (k, kv_value e, kv_version e))
      ((case limit of None \<Rightarrow> id | Some l \<Rightarrow> take (max 1 l))
        (filter (\<lambda>(k, e). prefix pre k \<and> \<not> expired (env_now E) e) (data (store n)))))"
proof -
  let ?hits = "(case limit of None \<Rightarrow> id | Some l \<Rightarrow> take (max 1 l))
    (filter (\<lambda>(k, e). prefix pre k \<and> \<not> expired (env_now E) e) (data (store n)))"
  let ?arr = "j_arr J (map (item_json J) ?hits)"
  let ?j = "j_obj J [(''items'', ?arr), (''count'', j_u64 J (of_nat (length (map (item_json J) ?hits))))]"
  have hits: "KVStore_Scan (env_now E) pre limit (store n) = ?hits"
    using Scan_eq [OF assms(1), of "env_now E" pre limit] by (auto simp: Let_def split: option.splits)
  have "set ?hits \<subseteq> set (data (store n))" by (auto split: option.splits dest: in_set_takeD)
  then have "built J x" if "x \<in> set (map (item_json J) ?hits)" for x
    using that assms(2) item_json_built by (fastforce simp: list_all_iff)
  then have "built J ?arr" by (rule built_arr)
  then have "built J ?j" by (intro built_obj) (auto intro: built_intros)
  then obtain s where s: "ok_json J ?j = Some (HttpResponse_Ok s json_type)" "j_parse J s = Some ?j" by (rule ok_json_built)
  have "KVHandler_List J E req auth n = Some (HttpResponse_Ok s json_type, n)"
    using assms(3) s(1) unfolding KVHandler_List_def Let_def assms(4) [symmetric] by (simp add: respond_def hits)
  moreover have "j_field J ?j ''items'' = Some ?arr" by (simp add: json_simps)
  moreover have "map_opt (item_of J) (j_elems J ?arr) = Some (map (\<lambda>(k, e). (k, kv_value e, kv_version e)) ?hits)"
    unfolding elems_arr by (rule items_of_json)
  ultimately show ?thesis using s(2) by blast
qed

end

text \<open>The watch handler when one put happens during its wait.\<close>

lemma Watch_put_run:
  assumes "path_key req = Some pat" "query_timeout req = Some t"
    "list_all (\<lambda>(_, _, _, c). c \<noteq> env_cb E) (watches (store n))" "nextWatchId (store n) \<notin> fst ` set (watches (store n))"
    "\<And>w m. env_watch E t w m = (case KVStore_Put now k v i ttl (store m) of (s, ns, _) \<Rightarrow>
       (m\<lparr>store := s\<rparr>, calls_of (env_cb E) ns, []))"
  shows "\<exists>n' old. WatchHandler_Watch J E req auth n =
      (if watch_hit req pat k then respond n' (ok_json J (watch_json J (k, Some (put_entry now v i ttl old))))
       else Some (HttpResponse_NoContent, n')) \<and>
    watches (store n') = watches (store n) \<and> data (store n') = data (fst (KVStore_Put now k v i ttl (store n)))"
proof -
  let ?p = "GetQueryParam ''prefix'' req = Some ''true''"
  obtain s1 w where w: "KVStore_Watch pat ?p (env_cb E) (store n) = (s1, w)" by force
  then have s1: "data s1 = data (store n)" "w = nextWatchId (store n)" by (auto simp: KVStore_Watch_def Let_def)
  obtain s2 ns b where p: "KVStore_Put now k v i ttl s1 = (s2, ns, b)" by (cases "KVStore_Put now k v i ttl s1")
  let ?e = "put_entry now v i ttl (om_find (data s1) k)"
  have s2: "watches s2 = watches s1" "data s2 = om_set k ?e (data s1)" "ns = NotifyWatchers k (Some ?e) s2"
    using p by (auto simp: KVStore_Put_def Let_def put_entry_def split: option.splits)
  have d: "data s2 = data (fst (KVStore_Put now k v i ttl (store n)))"
    unfolding s2(2) s1(1) by (simp add: KVStore_Put_def Let_def put_entry_def split: option.splits)
  have f: "w \<notin> fst ` set (watches (store n))" using assms(4) s1(2) by simp
  let ?n' = "n\<lparr>store := KVStore_Unwatch w s2\<rparr>"
  have "calls_of (env_cb E) ns = (if watch_hit req pat k then [(k, Some ?e)] else [])"
    using watch_calls(1) [OF w assms(3) f s2(1)] s2(3) by (simp add: watch_hit_def)
  then have "WatchHandler_Watch J E req auth n =
      (if watch_hit req pat k then respond ?n' (ok_json J (watch_json J (k, Some ?e))) else Some (HttpResponse_NoContent, ?n'))"
    using assms(1,2) w p by (simp add: WatchHandler_Watch_def assms(5) Let_def)
  moreover have "watches (store ?n') = watches (store n)" using watch_calls(2) [OF w assms(3) f s2(1)] by simp
  moreover have "data (store ?n') = data (fst (KVStore_Put now k v i ttl (store n)))" using d by (simp add: KVStore_Unwatch_def)
  ultimately show ?thesis by blast
qed

context json_lib
begin

lemma watch_json_fields:
  "jget J (j_get_str J) (watch_json J (k, Some e)) ''key'' = Some k"
  "jget J (j_get_str J) (watch_json J (k, Some e)) ''value'' = Some (kv_value e)"
  "jget J (j_get_u64 J) (watch_json J (k, Some e)) ''raft_index'' = Some (kv_raftIndex e)"
  "jget J (j_get_bool J) (watch_json J (k, Some e)) ''deleted'' = Some False"
  by (simp_all add: watch_json_def json_simps)

end

section \<open>Properties\<close>

text \<open>
  C18: a write acknowledged by the leader is read back. When the proposal of a put is
  committed and applied while the handler waits, the handler answers 201 with the index of the
  entry (and always with version 1), and a later get of the key on this node returns the value
  under that index, as long as the time to live has not passed.
\<close>

theorem put_then_get:
  assumes "json_lib J" "path_key req = Some key" "key \<noteq> []" "utf8_valid key" "utf8_valid v"
    "j_parse J (rq_body req) = Some body" "jget J (j_get_str J) body ''value'' = Some v" "body_ttl J body = Some ttl"
    "IsLeader n" "env_step E 0 n = m" "log_wf (rlog m)" "store_wf (store m)" "snapshotIndex (rlog m) \<le> lastApplied m"
    "lastApplied m \<le> LastIndex (rlog m)" "LastIndex (rlog m) \<noteq> - 1"
    "Propose_begin J key v OpPut (case ttl of None \<Rightarrow> - 1 | Some t \<Rightarrow> t) m = Some (m1, Inr i)"
    "env_wait E i m1 = ApplyLoop_inner clock (m1\<lparr>commitIndex := i\<rparr>)"
    "path_key req' = Some key" "\<forall>t. ttl = Some t \<longrightarrow> 0 < sint t \<longrightarrow> env_now E' \<le> add_ms (clock i) t"
  shows "\<exists>s j n' s' j'. KVHandler_Put J E req auth n = Some (HttpResponse_Created s, n') \<and> j_parse J s = Some j \<and>
    jget J (j_get_i64 J) j ''version'' = Some 1 \<and> jget J (j_get_u64 J) j ''raft_index'' = Some i \<and>
    KVHandler_Get J E' req' auth' n' = Some (HttpResponse_Ok s' json_type, n') \<and> j_parse J s' = Some j' \<and>
    jget J (j_get_str J) j' ''value'' = Some v \<and> jget J (j_get_u64 J) j' ''raft_index'' = Some i"
proof -
  let ?ttl = "(case ttl of None \<Rightarrow> - 1 | Some t \<Rightarrow> t) :: i64"
  obtain n' old where p: "Propose J E key v OpPut ?ttl (env_step E 0 n) = Some (\<lparr>pr_ok = True, pr_error = [], pr_index = i\<rparr>, n')"
    "om_find (data (store n')) key = Some (put_entry (clock i) v i (if 0 < sint ?ttl then Some ?ttl else None) old)"
    using Propose_applied [OF assms(16,11-15,17)] assms(10) by blast
  let ?e = "put_entry (clock i) v i (if 0 < sint ?ttl then Some ?ttl else None) old"
  have "\<not> expired (env_now E') ?e" using assms(19) by (cases ttl) (auto simp: expired_def put_entry_def)
  then have g: "KVStore_Get (env_now E') key (store n') = Some ?e" using p(2) by (simp add: KVStore_Get_def)
  have v: "kv_value ?e = v" "kv_raftIndex ?e = i" by (simp_all add: put_entry_def)
  obtain s j where s: "KVHandler_Put J E req auth n = Some (HttpResponse_Created s, n')" "j_parse J s = Some j"
    "jget J (j_get_i64 J) j ''version'' = Some 1" "jget J (j_get_u64 J) j ''raft_index'' = Some i"
    using json_lib.Put_proposed [OF assms(1-4,6-9) p(1)] by auto
  obtain s' where "KVHandler_Get J E' req' auth' n' = Some (HttpResponse_Ok s' json_type, n')" "j_parse J s' = Some (entry_json J key ?e)"
    using json_lib.Get_live [OF assms(1,18) g assms(4)] v(1) assms(5) by auto
  with s json_lib.entry_json_fields [OF assms(1), of key ?e] v show ?thesis by metis
qed

text \<open>
  C35: a compare-and-swap is not replicated. When it succeeds, the swap is in the leader's
  store under index 0 while log and applied index are as before, so a replica that agreed with
  the leader on everything applied no longer does.
\<close>

theorem CAS_diverges:
  assumes "KVHandler_CompareAndSwap J E req auth n = Some (resp, n')" "rs_statusCode resp = 200" "env_step E 0 n = m"
    "store_view (store m) = store_view (store r)"
  shows "rlog n' = rlog m \<and> lastApplied n' = lastApplied m \<and> commitIndex n' = commitIndex m \<and>
    store_view (store n') \<noteq> store_view (store r)"
proof -
  have no: "HttpResponse_BadRequest J msg = Some x \<Longrightarrow> rs_statusCode x \<noteq> 200" "HttpResponse_Conflict J msg = Some x \<Longrightarrow> rs_statusCode x \<noteq> 200"
    "RedirectToLeader J k = Some x \<Longrightarrow> rs_statusCode x \<noteq> 200" for msg x k
    by (auto simp: HttpResponse_BadRequest_def HttpResponse_Conflict_def RedirectToLeader_def HttpResponse_ServiceUnavailable_def
      split: bind_splits if_splits)
  obtain key expected v s ns where s: "KVStore_CAS (env_now E) key expected v 0 (store m) = (s, ns, True)" "n' = m\<lparr>store := s\<rparr>"
    using assms(1-3) no
    by (auto simp: KVHandler_CompareAndSwap_def respond_def Let_def split_beta split: bind_splits option.splits if_splits)
      (metis prod.collapse)+
  then obtain e where e: "om_find (data (store m)) key = Some e"
    "om_find (data s) key = Some (e\<lparr>kv_value := v, kv_version := kv_version e + 1, kv_updatedAt := env_now E, kv_raftIndex := 0\<rparr>)"
    by (auto simp: KVStore_CAS_def Let_def om_find_set split: option.splits if_splits)
  then have "store_view s key \<noteq> store_view (store m) key" by (simp add: store_view_def)
  then show ?thesis using s(2) assms(4) by auto
qed

text \<open>
  Listing returns exactly the live entries whose keys start with the given prefix, in key
  order with value and version, cut at the given limit (at one entry for a limit of zero).
\<close>

theorem List_items:
  assumes "json_lib J" "store_wf (store n)" "list_all (\<lambda>(k, e). utf8_valid k \<and> utf8_valid (kv_value e)) (data (store n))"
    "query_limit req = Some limit" "pre = (case GetQueryParam ''prefix'' req of None \<Rightarrow> [] | Some p \<Rightarrow> p)"
  shows "\<exists>s j arr. KVHandler_List J E req auth n = Some (HttpResponse_Ok s json_type, n) \<and> j_parse J s = Some j \<and>
    j_field J j ''items'' = Some arr \<and>
    map_opt (item_of J) (j_elems J arr) = Some (map (\<lambda>(k, e). (k, kv_value e, kv_version e))
      ((case limit of None \<Rightarrow> id | Some l \<Rightarrow> take (max 1 l))
        (filter (\<lambda>(k, e). prefix pre k \<and> \<not> expired (env_now E) e) (data (store n)))))"
  by (rule json_lib.List_ok [OF assms])

text \<open>
  C26: a watch reports a put on a key it covers and nothing else. When one put happens during
  the wait, a watch of that key, or of a prefix of it, answers with the new value, and any
  other watch answers 204; either way the watch is gone afterwards.
\<close>

theorem Watch_sees_put:
  assumes "json_lib J" "path_key req = Some pat" "query_timeout req = Some t" "utf8_valid k" "utf8_valid v"
    "list_all (\<lambda>(_, _, _, c). c \<noteq> env_cb E) (watches (store n))" "nextWatchId (store n) \<notin> fst ` set (watches (store n))"
    "\<And>w m. env_watch E t w m = (case KVStore_Put now k v i ttl (store m) of (s, ns, _) \<Rightarrow>
       (m\<lparr>store := s\<rparr>, calls_of (env_cb E) ns, []))"
  shows "\<exists>resp n'. WatchHandler_Watch J E req auth n = Some (resp, n') \<and> watches (store n') = watches (store n) \<and>
    data (store n') = data (fst (KVStore_Put now k v i ttl (store n))) \<and>
    (if watch_hit req pat k
     then \<exists>s j. resp = HttpResponse_Ok s json_type \<and> j_parse J s = Some j \<and> jget J (j_get_str J) j ''key'' = Some k \<and>
       jget J (j_get_str J) j ''value'' = Some v \<and> jget J (j_get_u64 J) j ''raft_index'' = Some i \<and>
       jget J (j_get_bool J) j ''deleted'' = Some False
     else resp = HttpResponse_NoContent)"
proof -
  obtain n' old where run: "WatchHandler_Watch J E req auth n =
      (if watch_hit req pat k then respond n' (ok_json J (watch_json J (k, Some (put_entry now v i ttl old))))
       else Some (HttpResponse_NoContent, n'))"
    "watches (store n') = watches (store n)" "data (store n') = data (fst (KVStore_Put now k v i ttl (store n)))"
    using Watch_put_run [OF assms(2,3,6-8)] by blast
  let ?e = "put_entry now v i ttl old"
  have e: "kv_value ?e = v" "kv_raftIndex ?e = i" by (simp_all add: put_entry_def)
  have "built J (watch_json J (k, Some ?e))" using assms(4,5) e json_lib.watch_json_built [OF assms(1)] by simp
  then obtain s where s: "ok_json J (watch_json J (k, Some ?e)) = Some (HttpResponse_Ok s json_type)"
    "j_parse J s = Some (watch_json J (k, Some ?e))" using json_lib.ok_json_built [OF assms(1)] by blast
  note f = json_lib.watch_json_fields [OF assms(1), of k ?e, unfolded e]
  show ?thesis
  proof (cases "watch_hit req pat k")
    case True
    with run s(1) have "WatchHandler_Watch J E req auth n = Some (HttpResponse_Ok s json_type, n')" by (simp add: respond_def)
    with True run(2,3) s(2) f show ?thesis by auto
  qed (use run in simp)
qed

section \<open>Witnesses\<close>

definition sample_env :: env where
  "sample_env = \<lparr>env_now = 10, env_step = (\<lambda>_ n. n), env_wait = (\<lambda>i n. ApplyLoop_inner (\<lambda>_. 5) (n\<lparr>commitIndex := i\<rparr>)),
     env_watch = (\<lambda>_ _ m. case KVStore_Put 10 ''k'' ''v'' 1 None (store m) of (s, ns, _) \<Rightarrow>
       (m\<lparr>store := s\<rparr>, calls_of 0 ns, [])), env_cb = 0\<rparr>"

definition sample_leader :: RaftNode where
  "sample_leader = (RaftNode_init 0 (sample_config ''a'' []) (fst (KVStore_Put 0 ''k'' ''u'' 0 None KVStore_new)) None)\<lparr>role := Leader\<rparr>"

definition key_request :: "string \<Rightarrow> HttpRequest" where
  "key_request b = HttpRequest_default\<lparr>rq_body := b, rq_pathParams := [(''key'', ''k'')]\<rparr>"

lemma key_request_path: "path_key (key_request b) = Some ''k''"
  by (simp add: path_key_def key_request_def)

lemma sample_leader_fields:
  "IsLeader sample_leader" "log_wf (rlog sample_leader)" "store_wf (store sample_leader)" "rl_wal (rlog sample_leader) = None"
  "snapshotIndex (rlog sample_leader) \<le> lastApplied sample_leader" "lastApplied sample_leader \<le> LastIndex (rlog sample_leader)"
  "LastIndex (rlog sample_leader) \<noteq> - 1" "watches (store sample_leader) = []"
  using log_wf_new [of None]
  by (simp_all add: sample_leader_def store_wf_def RaftNode_init_def IsLeader_def RaftLog_new_def LastIndex_def LogEntry_default_def
    KVStore_Put_def KVStore_new_def Let_def om_find_def)

lemma sample_leader_data: "om_find (data (store sample_leader)) ''k'' = Some (put_entry 0 ''u'' 0 None None)"
  "data (store sample_leader) = [(''k'', put_entry 0 ''u'' 0 None None)]"
  by (simp_all add: sample_leader_def RaftNode_init_def KVStore_Put_def KVStore_new_def Let_def om_find_def put_entry_def)

context json_lib
begin

lemma Propose_begin_ok:
  assumes "IsLeader n" "rl_wal (rlog n) = None" "utf8_valid key" "utf8_valid v"
  shows "\<exists>n1. Propose_begin J key v OpPut ttl n = Some (n1, Inr (LastIndex (rlog n) + 1))"
proof -
  let ?e = "LogEntry_default\<lparr>le_term := currentTerm n, le_index := LastIndex (rlog n) + 1, le_opType := OpPut, le_key := key,
    le_value := v, le_ttl_ms := ttl\<rparr>"
  have "entry_ok ?e" using assms(3,4) by (simp add: entry_ok_def LogEntry_default_def OpType_wf_def)
  then obtain c where c: "LogEntry_Serialize J ?e = Some c" by (rule LogEntry_roundtrip)
  show ?thesis using assms(1,2) c
    by (simp add: Propose_begin_def propose_entry_def IsLeader_def Let_def RaftLog_Append_def log_write_def)
qed

end

theorem put_then_get_witness:
  "\<exists>b s n' s' j'. KVHandler_Put json_text sample_env (key_request b) AuthContext_default sample_leader = Some (HttpResponse_Created s, n') \<and>
     KVHandler_Get json_text sample_env (key_request []) AuthContext_default n' = Some (HttpResponse_Ok s' json_type, n') \<and>
     j_parse json_text s' = Some j' \<and> jget json_text (j_get_str json_text) j' ''value'' = Some ''v''"
proof -
  let ?J = json_text and ?n = sample_leader and ?body = "j_obj json_text [(''value'', j_str json_text ''v'')]"
  have "built ?J ?body" by (intro built_obj) (auto intro: built_intros)
  then obtain b where b: "j_parse ?J b = Some ?body" by (rule jt.dumpE)
  have "utf8_valid ''v''" "utf8_valid ''k''" by simp_all
  note u = this
  obtain n1 where n1: "Propose_begin ?J ''k'' ''v'' OpPut (case None of None \<Rightarrow> - 1 | Some t \<Rightarrow> t) ?n = Some (n1, Inr (LastIndex (rlog ?n) + 1))"
    using jt.Propose_begin_ok [OF sample_leader_fields(1,4) u(2,1)] by blast
  have r: "jget ?J (j_get_str ?J) ?body ''value'' = Some ''v''" "body_ttl ?J ?body = Some None"
    by (simp_all add: jt.jget_obj jt.get_str body_ttl_def jt.field_obj)
  have q: "''k'' \<noteq> []" "j_parse ?J (rq_body (key_request b)) = Some ?body" "env_step sample_env 0 ?n = ?n"
    "env_wait sample_env (LastIndex (rlog ?n) + 1) n1 = ApplyLoop_inner (\<lambda>_. 5) (n1\<lparr>commitIndex := LastIndex (rlog ?n) + 1\<rparr>)"
    "\<forall>t. None = Some t \<longrightarrow> 0 < sint t \<longrightarrow> env_now sample_env \<le> add_ms 5 t"
    using b by (simp_all add: key_request_def sample_env_def)
  show ?thesis
    using put_then_get [OF jt.json_lib_axioms key_request_path q(1) u(2,1) q(2) r sample_leader_fields(1) q(3)
      sample_leader_fields(2,3,5-7) n1 q(4) key_request_path q(5)] by blast
qed

theorem CAS_diverges_witness:
  "\<exists>b resp n'. KVHandler_CompareAndSwap json_text sample_env (key_request b) AuthContext_default sample_leader = Some (resp, n') \<and>
     rs_statusCode resp = 200 \<and> rlog n' = rlog sample_leader \<and> store_view (store n') \<noteq> store_view (store sample_leader)"
proof -
  let ?J = json_text and ?n = sample_leader
  let ?body = "j_obj json_text [(''expected'', j_str json_text ''u''), (''value'', j_str json_text ''v'')]"
  let ?ok = "j_obj json_text [(''key'', j_str json_text ''k''), (''updated'', j_bool json_text True)]"
  have "built ?J ?body" "built ?J ?ok" by (intro built_obj; auto intro: built_intros)+
  then obtain b s where b: "j_parse ?J b = Some ?body" "ok_json ?J ?ok = Some (HttpResponse_Ok s json_type)"
    using jt.dumpE jt.ok_json_built by metis
  have "snd (snd (KVStore_CAS 10 ''k'' ''u'' ''v'' 0 (store ?n))) = True"
    by (simp add: KVStore_CAS_def sample_leader_data(1) put_entry_def Let_def)
  then obtain st ns where "KVStore_CAS 10 ''k'' ''u'' ''v'' 0 (store ?n) = (st, ns, True)" by (metis prod.collapse)
  then have cas: "KVHandler_CompareAndSwap ?J sample_env (key_request b) AuthContext_default ?n =
      Some (HttpResponse_Ok s json_type, ?n\<lparr>store := st\<rparr>)"
    using b sample_leader_fields(1)
    by (simp add: KVHandler_CompareAndSwap_def key_request_path key_request_def [of b] jt.field_obj jt.get_str sample_env_def
      respond_def path_key_def Let_def)
  have ok: "rs_statusCode (HttpResponse_Ok s json_type) = 200" by (simp add: HttpResponse_Ok_def)
  have "env_step sample_env 0 ?n = ?n" by (simp add: sample_env_def)
  from CAS_diverges [OF cas ok this refl] cas ok show ?thesis by blast
qed

theorem List_items_witness:
  "\<exists>s j arr. KVHandler_List json_text sample_env (key_request []) AuthContext_default sample_leader =
       Some (HttpResponse_Ok s json_type, sample_leader) \<and> j_parse json_text s = Some j \<and> j_field json_text j ''items'' = Some arr \<and>
     map_opt (item_of json_text) (j_elems json_text arr) = Some [(''k'', ''u'', 1)]"
proof -
  have q: "query_limit (key_request []) = Some None" "[] = (case GetQueryParam ''prefix'' (key_request []) of None \<Rightarrow> [] | Some p \<Rightarrow> p)"
    "list_all (\<lambda>(k, e). utf8_valid k \<and> utf8_valid (kv_value e)) (data (store sample_leader))"
    unfolding sample_leader_data(2)
    by (simp_all add: query_limit_def GetQueryParam_def key_request_def HttpRequest_default_def put_entry_def)
  show ?thesis
    using List_items [OF jt.json_lib_axioms sample_leader_fields(3) q(3,1,2), of sample_env AuthContext_default]
    unfolding sample_leader_data(2) by (simp add: expired_def put_entry_def)
qed

theorem Watch_sees_put_witness:
  "\<exists>s n' j. WatchHandler_Watch json_text sample_env (key_request []) AuthContext_default sample_leader =
       Some (HttpResponse_Ok s json_type, n') \<and> j_parse json_text s = Some j \<and>
     jget json_text (j_get_str json_text) j ''value'' = Some ''v'' \<and> watches (store n') = []"
proof -
  have q: "query_timeout (key_request []) = Some 30000" "utf8_valid ''k''" "utf8_valid ''v''"
    "list_all (\<lambda>(_, _, _, c). c \<noteq> env_cb sample_env) (watches (store sample_leader))"
    "nextWatchId (store sample_leader) \<notin> fst ` set (watches (store sample_leader))"
    by (simp_all add: query_timeout_def GetQueryParam_def key_request_def HttpRequest_default_def sample_leader_fields(8))
  have e: "env_watch sample_env 30000 w m = (case KVStore_Put 10 ''k'' ''v'' 1 None (store m) of (s, ns, _) \<Rightarrow>
       (m\<lparr>store := s\<rparr>, calls_of (env_cb sample_env) ns, []))" for w m by (simp add: sample_env_def)
  have "watch_hit (key_request []) ''k'' ''k''" by (simp add: watch_hit_def)
  then show ?thesis
    using Watch_sees_put [OF jt.json_lib_axioms key_request_path q e, of AuthContext_default]
    by (auto simp: sample_leader_fields(8))
qed

end
