(* ===== verification/ThreadPool.thy ===== *)
theory ThreadPool
  imports Prelude "HOL-Library.Multiset"
begin

text \<open>
  \<open>util/ThreadPool.{hpp,cpp}\<close>. The threads interleave at the points where they hold no lock:
  a worker is about to test the condition (\<open>Ready\<close>), blocked in \<open>cv_.wait\<close>, between the
  unlock and \<open>++active_\<close> (\<open>Taken\<close>), in the task, or has returned. A notification is sent after
  the lock is released; the callers that still owe one are counted. Tasks are names: a
  \<open>packaged_task\<close> catches what its function throws.
\<close>

section \<open>Pools and their operations\<close>

datatype 't worker = Ready | Blocked | Taken 't | Running 't | Exited

record 't ThreadPool =
  tp_workers :: "'t worker list"
  tp_queue :: "'t list"
  tp_stop :: bool
  tp_active :: u64
  tp_notify_one :: nat
  tp_notify_all :: nat

datatype 't event = Submitted 't | Took 't | Finished 't | Silent

datatype pool_exn = PoolStopped

definition ThreadPool_new :: "nat \<Rightarrow> 't ThreadPool" where
  "ThreadPool_new numThreads =
     \<lparr>tp_workers = replicate numThreads Ready, tp_queue = [], tp_stop = False, tp_active = 0, tp_notify_one = 0, tp_notify_all = 0\<rparr>"

definition Submit :: "'t \<Rightarrow> 't ThreadPool \<Rightarrow> pool_exn + 't ThreadPool" where
  "Submit t p =
     (if tp_stop p then Inl PoolStopped
      else Inr (p\<lparr>tp_queue := tp_queue p @ [t], tp_notify_one := tp_notify_one p + 1\<rparr>))"

definition set_worker :: "nat \<Rightarrow> 't worker \<Rightarrow> 't ThreadPool \<Rightarrow> 't ThreadPool" where
  "set_worker i w p = p\<lparr>tp_workers := (tp_workers p)[i := w]\<rparr>"

definition WorkerLoop :: "nat \<Rightarrow> 't ThreadPool \<Rightarrow> ('t event \<times> 't ThreadPool) option" where
  "WorkerLoop i p =
     (case tp_workers p ! i of
        Ready \<Rightarrow>
          (case tp_queue p of
             [] \<Rightarrow> Some (Silent, set_worker i (if tp_stop p then Exited else Blocked) p)
           | t # q \<Rightarrow> Some (Took t, (set_worker i (Taken t) p)\<lparr>tp_queue := q\<rparr>))
      | Taken t \<Rightarrow> Some (Silent, (set_worker i (Running t) p)\<lparr>tp_active := tp_active p + 1\<rparr>)
      | Running t \<Rightarrow> Some (Finished t, (set_worker i Ready p)\<lparr>tp_active := tp_active p - 1\<rparr>)
      | _ \<Rightarrow> None)"

text \<open>\<open>notify_one\<close> wakes one blocked worker, if any; \<open>notify_all\<close> wakes all of them.\<close>

definition notify_one :: "nat \<Rightarrow> 't ThreadPool \<Rightarrow> 't ThreadPool option" where
  "notify_one i p =
     (if tp_notify_one p = 0 then None
      else if Blocked \<notin> set (tp_workers p) then Some (p\<lparr>tp_notify_one := tp_notify_one p - 1\<rparr>)
      else if i < length (tp_workers p) \<and> tp_workers p ! i = Blocked
      then Some ((set_worker i Ready p)\<lparr>tp_notify_one := tp_notify_one p - 1\<rparr>)
      else None)"

definition wake :: "'t worker \<Rightarrow> 't worker" where
  "wake w = (case w of Blocked \<Rightarrow> Ready | _ \<Rightarrow> w)"

definition notify_all :: "'t ThreadPool \<Rightarrow> 't ThreadPool option" where
  "notify_all p =
     (if tp_notify_all p = 0 then None
      else Some (p\<lparr>tp_workers := map wake (tp_workers p), tp_notify_all := tp_notify_all p - 1\<rparr>))"

definition Shutdown_stop :: "'t ThreadPool \<Rightarrow> 't ThreadPool" where
  "Shutdown_stop p = p\<lparr>tp_stop := True, tp_notify_all := tp_notify_all p + 1\<rparr>"

definition Shutdown_join :: "'t ThreadPool \<Rightarrow> 't ThreadPool option" where
  "Shutdown_join p =
     (if tp_stop p \<and> list_all (\<lambda>w. case w of Exited \<Rightarrow> True | _ \<Rightarrow> False) (tp_workers p) then Some (p\<lparr>tp_workers := []\<rparr>) else None)"

definition QueueDepth :: "'t ThreadPool \<Rightarrow> nat" where
  "QueueDepth p = length (tp_queue p)"

definition ActiveWorkers :: "'t ThreadPool \<Rightarrow> u64" where
  "ActiveWorkers p = tp_active p"

definition NumThreads :: "'t ThreadPool \<Rightarrow> nat" where
  "NumThreads p = length (tp_workers p)"

section \<open>Runs\<close>

text \<open>What the threads of the pool and the notifications that are due do by themselves.\<close>

inductive internal :: "'t ThreadPool \<Rightarrow> 't event \<Rightarrow> 't ThreadPool \<Rightarrow> bool" where
  worker: "\<lbrakk>i < length (tp_workers p); WorkerLoop i p = Some (e, p')\<rbrakk> \<Longrightarrow> internal p e p'"
| one: "notify_one i p = Some p' \<Longrightarrow> internal p Silent p'"
| all: "notify_all p = Some p' \<Longrightarrow> internal p Silent p'"

text \<open>With callers, and with wake-ups the standard allows without a notification.\<close>

inductive pool_step :: "'t ThreadPool \<Rightarrow> 't event \<Rightarrow> 't ThreadPool \<Rightarrow> bool" where
  own: "internal p e p' \<Longrightarrow> pool_step p e p'"
| spurious: "\<lbrakk>i < length (tp_workers p); tp_workers p ! i = Blocked\<rbrakk> \<Longrightarrow> pool_step p Silent (set_worker i Ready p)"
| submit: "Submit t p = Inr p' \<Longrightarrow> pool_step p (Submitted t) p'"
| stop: "pool_step p Silent (Shutdown_stop p)"
| join: "Shutdown_join p = Some p' \<Longrightarrow> pool_step p Silent p'"

inductive pool_run :: "'t ThreadPool \<Rightarrow> 't event list \<Rightarrow> 't ThreadPool \<Rightarrow> bool" where
  run_refl: "pool_run p [] p"
| run_step: "\<lbrakk>pool_run p es q; pool_step q e r\<rbrakk> \<Longrightarrow> pool_run p (es @ [e]) r"

inductive internal_run :: "'t ThreadPool \<Rightarrow> 't event list \<Rightarrow> 't ThreadPool \<Rightarrow> bool" where
  irefl: "internal_run p [] p"
| istep: "\<lbrakk>internal_run p es q; internal q e r\<rbrakk> \<Longrightarrow> internal_run p (es @ [e]) r"

fun submitted_of :: "'t event \<Rightarrow> 't list" where
  "submitted_of (Submitted t) = [t]"
| "submitted_of _ = []"

fun took_of :: "'t event \<Rightarrow> 't list" where
  "took_of (Took t) = [t]"
| "took_of _ = []"

fun finished_of :: "'t event \<Rightarrow> 't list" where
  "finished_of (Finished t) = [t]"
| "finished_of _ = []"

abbreviation submitted :: "'t event list \<Rightarrow> 't list" where
  "submitted es \<equiv> concat (map submitted_of es)"

abbreviation took :: "'t event list \<Rightarrow> 't list" where
  "took es \<equiv> concat (map took_of es)"

abbreviation finished :: "'t event list \<Rightarrow> 't list" where
  "finished es \<equiv> concat (map finished_of es)"

section \<open>The invariant\<close>

fun held_by :: "'t worker \<Rightarrow> 't multiset" where
  "held_by (Taken t) = {#t#}"
| "held_by (Running t) = {#t#}"
| "held_by _ = {#}"

fun running :: "'t worker \<Rightarrow> u64" where
  "running (Running t) = 1"
| "running _ = 0"

fun ready :: "'t worker \<Rightarrow> nat" where
  "ready Ready = 1"
| "ready _ = 0"

abbreviation held :: "'t ThreadPool \<Rightarrow> 't multiset" where
  "held p \<equiv> sum_list (map held_by (tp_workers p))"

definition pool_inv :: "nat \<Rightarrow> 't event list \<Rightarrow> 't ThreadPool \<Rightarrow> bool" where
  "pool_inv n es p \<longleftrightarrow>
     submitted es = took es @ tp_queue p \<and>
     mset (took es) = mset (finished es) + held p \<and>
     tp_active p = sum_list (map running (tp_workers p)) \<and>
     (Blocked \<in> set (tp_workers p) \<longrightarrow> length (tp_queue p) \<le> tp_notify_one p + sum_list (map ready (tp_workers p))) \<and>
     (Blocked \<in> set (tp_workers p) \<and> tp_stop p \<longrightarrow> 0 < tp_notify_all p) \<and>
     (Exited \<in> set (tp_workers p) \<or> tp_workers p = [] \<and> 0 < n \<longrightarrow> tp_stop p \<and> tp_queue p = [])"

lemma sum_list_update_eq:
  fixes f :: "'w \<Rightarrow> 'a :: comm_monoid_add"
  shows "i < length ws \<Longrightarrow> sum_list (map f (ws[i := v])) + f (ws ! i) = sum_list (map f ws) + f v"
proof (induction ws arbitrary: i)
  case (Cons w ws)
  then show ?case by (cases i) (simp_all add: ac_simps)
qed simp

lemma exited_case [simp]: "(case w of Exited \<Rightarrow> True | _ \<Rightarrow> False) \<longleftrightarrow> w = Exited"
  by (cases w) simp_all

lemma sum_list_zero:
  fixes f :: "'w \<Rightarrow> 'a :: comm_monoid_add"
  shows "(\<And>w. w \<in> set ws \<Longrightarrow> f w = 0) \<Longrightarrow> sum_list (map f ws) = 0"
  by (induction ws) simp_all

lemma in_update: "w \<in> set (ws[i := v]) \<Longrightarrow> w \<noteq> v \<Longrightarrow> w \<in> set ws"
  using set_update_subset_insert [of ws i v] by auto

lemma worker_inv:
  assumes "pool_inv n es p" "i < length (tp_workers p)" "WorkerLoop i p = Some (e, p')"
  shows "pool_inv n (es @ [e]) p'"
proof -
  let ?ws = "tp_workers p"
  have ne: "?ws \<noteq> []" using assms(2) by auto
  have h: "\<And>v. sum_list (map held_by (?ws[i := v])) + held_by (?ws ! i) = held p + held_by v"
    and r: "\<And>v. sum_list (map running (?ws[i := v])) + running (?ws ! i) = sum_list (map running ?ws) + running v"
    and y: "\<And>v. sum_list (map ready (?ws[i := v])) + ready (?ws ! i) = sum_list (map ready ?ws) + ready v"
    using sum_list_update_eq [OF assms(2)] by blast+
  note iu = in_update [of Blocked ?ws i] in_update [of Exited ?ws i]
  show ?thesis
  proof (cases "?ws ! i")
    case Ready
    show ?thesis
    proof (cases "tp_queue p")
      case Nil
      show ?thesis
      proof (cases "tp_stop p")
        case True
        then have "p' = set_worker i Exited p" "e = Silent" using assms(3) Ready Nil by (simp_all add: WorkerLoop_def)
        then show ?thesis
          using assms(1) True Ready Nil ne h [of Exited] r [of Exited] iu [of Exited] by (simp add: pool_inv_def set_worker_def)
      next
        case False
        then have "p' = set_worker i Blocked p" "e = Silent" using assms(3) Ready Nil by (simp_all add: WorkerLoop_def)
        then show ?thesis
          using assms(1) False Ready Nil ne h [of Blocked] r [of Blocked] iu(2) [of Blocked] by (simp add: pool_inv_def set_worker_def) blast
      qed
    next
      case (Cons t q)
      then have "p' = (set_worker i (Taken t) p)\<lparr>tp_queue := q\<rparr>" "e = Took t" using assms(3) Ready by (simp_all add: WorkerLoop_def)
      then show ?thesis
        using assms(1) Ready Cons ne h [of "Taken t"] r [of "Taken t"] y [of "Taken t", symmetric] iu [of "Taken t"]
        by (simp add: pool_inv_def set_worker_def) blast
    qed
  next
    case (Taken t)
    then have "p' = (set_worker i (Running t) p)\<lparr>tp_active := tp_active p + 1\<rparr>" "e = Silent"
      using assms(3) by (simp_all add: WorkerLoop_def)
    then show ?thesis
      using assms(1) Taken ne h [of "Running t"] r [of "Running t"] y [of "Running t"] iu [of "Running t"]
      by (simp add: pool_inv_def set_worker_def)
  next
    case (Running t)
    then have "p' = (set_worker i Ready p)\<lparr>tp_active := tp_active p - 1\<rparr>" "e = Finished t"
      using assms(3) by (simp_all add: WorkerLoop_def)
    moreover have "sum_list (map running (?ws[i := Ready])) = sum_list (map running ?ws) - 1" using r [of Ready] Running by (simp add: algebra_simps)
    ultimately show ?thesis
      using assms(1) Running ne h [of Ready] y [of Ready] iu [of Ready]
      by (simp add: pool_inv_def set_worker_def) linarith
  qed (use assms in \<open>simp_all add: WorkerLoop_def\<close>)
qed

lemma held_wake [simp]: "held_by (wake w) = held_by w" "running (wake w) = running w" "wake w \<noteq> Blocked" "wake w = Exited \<longleftrightarrow> w = Exited"
  by (cases w; simp add: wake_def)+

lemma map_wake [simp]:
  "map (held_by \<circ> wake) ws = map held_by ws" "map (running \<circ> wake) ws = map running ws"
  "Blocked \<notin> wake ` set ws" "Exited \<in> wake ` set ws \<longleftrightarrow> Exited \<in> set ws"
  by (auto simp: image_iff) (metis held_wake(3,4))+

lemma ready_inv:
  assumes "pool_inv n es p" "i < length (tp_workers p)" "tp_workers p ! i = Blocked" "k \<le> 1" "k \<le> tp_notify_one p"
  shows "pool_inv n (es @ [Silent]) ((set_worker i Ready p)\<lparr>tp_notify_one := tp_notify_one p - k\<rparr>)"
proof -
  let ?ws = "tp_workers p"
  have b: "Blocked \<in> set ?ws" using assms(2,3) nth_mem [of i ?ws] by simp
  have "sum_list (map held_by (?ws[i := Ready])) = held p"
    "sum_list (map running (?ws[i := Ready])) = sum_list (map running ?ws)"
    "sum_list (map ready (?ws[i := Ready])) = sum_list (map ready ?ws) + 1"
    using sum_list_update_eq [OF assms(2), of held_by Ready] sum_list_update_eq [OF assms(2), of running Ready]
      sum_list_update_eq [OF assms(2), of ready Ready] assms(3) by simp_all
  then show ?thesis
    using assms b in_update [of _ ?ws i Ready] by (auto simp: pool_inv_def set_worker_def)
qed

lemma internal_inv:
  assumes "internal p e p'" "pool_inv n es p"
  shows "pool_inv n (es @ [e]) p'"
  using assms
proof cases
  case (worker i)
  then show ?thesis using assms(2) worker_inv by blast
next
  case (one i)
  show ?thesis
  proof (cases "Blocked \<in> set (tp_workers p)")
    case True
    then show ?thesis using one ready_inv [OF assms(2), of i 1] by (simp add: notify_one_def split: if_splits)
  next
    case False
    then have "p' = p\<lparr>tp_notify_one := tp_notify_one p - 1\<rparr>" using one by (simp add: notify_one_def split: if_splits)
    then show ?thesis using False one(1) assms(2) by (simp add: pool_inv_def)
  qed
next
  case all
  then show ?thesis
    using assms(2) by (auto simp: notify_all_def pool_inv_def split: if_splits)
qed

lemma pool_step_inv:
  assumes "pool_step p e p'" "pool_inv n es p"
  shows "pool_inv n (es @ [e]) p'"
  using assms
proof cases
  case own
  then show ?thesis using assms(2) by (rule internal_inv)
next
  case (spurious i)
  have "(set_worker i Ready p)\<lparr>tp_notify_one := tp_notify_one p\<rparr> = set_worker i Ready p" by (simp add: set_worker_def)
  then show ?thesis using spurious ready_inv [OF assms(2), of i 0] by simp
next
  case (submit t)
  then show ?thesis using assms(2) by (auto simp: Submit_def pool_inv_def split: if_splits)
next
  case stop
  then show ?thesis using assms(2) by (auto simp: Shutdown_stop_def pool_inv_def)
next
  case join
  then have ex: "p' = p\<lparr>tp_workers := []\<rparr>" "tp_stop p" "\<And>w. w \<in> set (tp_workers p) \<Longrightarrow> w = Exited"
    by (auto simp: Shutdown_join_def list_all_iff exited_case split: if_splits)
  have "held p = {#}" "sum_list (map running (tp_workers p)) = 0"
    using ex(3) by (fastforce intro!: sum_list_zero)+
  moreover have "tp_workers p = [] \<or> Exited \<in> set (tp_workers p)" using ex(3) by (cases "tp_workers p") auto
  ultimately show ?thesis using join(1) assms(2) ex(1,2) by (auto simp: pool_inv_def)
qed

lemma pool_run_inv: "pool_run p es q \<Longrightarrow> p = ThreadPool_new n \<Longrightarrow> pool_inv n es q"
proof (induction rule: pool_run.induct)
  case (run_refl p)
  have "sum_list (replicate n ({#} :: 'a multiset)) = {#}" "sum_list (replicate n (0 :: u64)) = 0"
    by (induction n) simp_all
  then show ?case using run_refl by (auto simp: pool_inv_def ThreadPool_new_def)
next
  case (run_step p es q e r)
  then show ?case using pool_step_inv by blast
qed

lemma internal_run_inv: "internal_run p fs q \<Longrightarrow> pool_inv n es p \<Longrightarrow> pool_inv n (es @ fs) q"
proof (induction rule: internal_run.induct)
  case (istep p fs q e r)
  then show ?case using internal_inv [of q e r n "es @ fs"] by simp
qed simp

section \<open>Progress after a stop\<close>

fun worker_weight :: "'t worker \<Rightarrow> nat" where
  "worker_weight Ready = 1"
| "worker_weight Blocked = 2"
| "worker_weight (Taken t) = 3"
| "worker_weight (Running t) = 2"
| "worker_weight Exited = 0"

definition pool_weight :: "'t ThreadPool \<Rightarrow> nat" where
  "pool_weight p = 3 * length (tp_queue p) + sum_list (map worker_weight (tp_workers p)) + tp_notify_one p + tp_notify_all p"

lemma wake_weight: "sum_list (map (worker_weight \<circ> wake) ws) \<le> sum_list (map worker_weight ws)"
proof (induction ws)
  case (Cons w ws)
  then show ?case by (cases w) (simp_all add: wake_def)
qed simp

lemma worker_decreases:
  assumes "tp_stop p" "i < length (tp_workers p)" "WorkerLoop i p = Some (e, p')"
  shows "pool_weight p' < pool_weight p \<and> tp_stop p'"
proof -
  have w: "\<And>v. sum_list (map worker_weight ((tp_workers p)[i := v])) + worker_weight (tp_workers p ! i)
      = sum_list (map worker_weight (tp_workers p)) + worker_weight v"
    using sum_list_update_eq [OF assms(2)] by blast
  show ?thesis
  proof (cases "tp_workers p ! i")
    case Ready
    then show ?thesis
      using assms w [of Exited] w [of "Taken (hd (tp_queue p))"]
      by (auto simp: WorkerLoop_def pool_weight_def set_worker_def split: list.splits)
  next
    case (Taken t)
    then show ?thesis using assms w [of "Running t"] by (auto simp: WorkerLoop_def pool_weight_def set_worker_def)
  next
    case (Running t)
    then show ?thesis using assms w [of Ready] by (auto simp: WorkerLoop_def pool_weight_def set_worker_def)
  qed (use assms in \<open>simp_all add: WorkerLoop_def\<close>)
qed

lemma internal_decreases:
  assumes "internal p e p'" "tp_stop p"
  shows "pool_weight p' < pool_weight p \<and> tp_stop p'"
  using assms
proof cases
  case (worker i)
  then show ?thesis using assms(2) worker_decreases by blast
next
  case (one i)
  then show ?thesis
    using assms(2) sum_list_update_eq [of i "tp_workers p" worker_weight Ready]
    by (auto simp: notify_one_def pool_weight_def set_worker_def split: if_splits)
next
  case all
  then show ?thesis
    using assms(2) wake_weight [of "tp_workers p"] by (auto simp: notify_all_def pool_weight_def split: if_splits)
qed

lemma internal_run_decreases:
  "internal_run p fs q \<Longrightarrow> tp_stop p \<Longrightarrow> length fs + pool_weight q \<le> pool_weight p \<and> tp_stop q"
proof (induction rule: internal_run.induct)
  case (istep p es q e r)
  then show ?case using internal_decreases [of q e r] by simp
qed simp

text \<open>Where no thread can move, every worker is blocked or has returned; blocked workers with work or a stop to see have a notification due.\<close>

lemma stuck_workers:
  assumes "\<nexists>e q. internal p e q" "w \<in> set (tp_workers p)"
  shows "w = Blocked \<or> w = Exited"
proof -
  obtain i where i: "i < length (tp_workers p)" "tp_workers p ! i = w" using assms(2) by (auto simp: in_set_conv_nth)
  then have n: "WorkerLoop i p = None"
    using assms(1) internal.worker [of i p] by (metis option.exhaust surj_pair)
  show ?thesis using n i(2) by (cases w) (auto simp: WorkerLoop_def split: list.splits)
qed

lemma stuck_notifications:
  assumes "\<nexists>e q. internal p e q"
  shows "tp_notify_all p = 0" "tp_notify_one p = 0"
proof -
  show "tp_notify_all p = 0" using assms internal.all [of p] by (cases "tp_notify_all p") (auto simp: notify_all_def)
  show "tp_notify_one p = 0"
  proof (rule ccontr)
    assume d: "tp_notify_one p \<noteq> 0"
    obtain i where "Blocked \<in> set (tp_workers p) \<longrightarrow> i < length (tp_workers p) \<and> tp_workers p ! i = Blocked"
      by (metis in_set_conv_nth)
    then have "\<exists>q. notify_one i p = Some q" using d by (auto simp: notify_one_def)
    then show False using assms internal.one by blast
  qed
qed

lemma stuck_idle:
  assumes "pool_inv n es p" "\<nexists>e q. internal p e q" "0 < n"
  shows "tp_queue p = [] \<and> (tp_stop p \<longrightarrow> (\<forall>w \<in> set (tp_workers p). w = Exited)) \<and> held p = {#}"
proof -
  note w = stuck_workers [OF assms(2)] and d = stuck_notifications [OF assms(2)]
  have z: "sum_list (map ready (tp_workers p)) = 0" "held p = {#}" using w by (fastforce intro!: sum_list_zero)+
  have "tp_queue p = []"
  proof (cases "Blocked \<in> set (tp_workers p)")
    case False
    then have "Exited \<in> set (tp_workers p) \<or> tp_workers p = []" using w by (cases "tp_workers p") auto
    then show ?thesis using assms by (auto simp: pool_inv_def)
  qed (use assms(1) d z in \<open>simp add: pool_inv_def\<close>)
  then show ?thesis using assms(1) w d z by (auto simp: pool_inv_def)
qed

section \<open>Properties\<close>

text \<open>
  The pool runs every task once, in the order of submission. In every run, the tasks
  submitted are the tasks taken, in this order, followed by the queue; every task taken is
  finished or in the hands of exactly one worker; and the count of active workers is the
  number of workers in a task.
\<close>

theorem tasks_once_in_order:
  assumes "pool_run (ThreadPool_new n) es p"
  shows "submitted es = took es @ tp_queue p \<and> mset (took es) = mset (finished es) + held p \<and>
    ActiveWorkers p = sum_list (map running (tp_workers p)) \<and> QueueDepth p + length (took es) = length (submitted es)"
  using pool_run_inv [OF assms refl] by (simp add: pool_inv_def ActiveWorkers_def QueueDepth_def)

text \<open>
  C22: no wake-up is lost and a stopped pool terminates. In a pool with workers, after any run,
  a state in which no thread can move has an empty queue and every submitted task finished.
  Once the stop flag is set the threads take at most \<open>pool_weight\<close> further steps, and where
  they end every worker has returned, so \<open>Shutdown\<close> gets past its joins.
\<close>

theorem shutdown_terminates:
  assumes "pool_run (ThreadPool_new n) es p" "0 < n" "internal_run p fs q"
  shows "(tp_stop p \<longrightarrow> length fs + pool_weight q \<le> pool_weight p) \<and>
    ((\<exists>e r. internal q e r) \<or>
     tp_queue q = [] \<and> mset (finished (es @ fs)) = mset (submitted (es @ fs)) \<and> (tp_stop p \<longrightarrow> (\<exists>r. Shutdown_join q = Some r)))"
proof -
  have inv: "pool_inv n (es @ fs) q" using internal_run_inv [OF assms(3) pool_run_inv [OF assms(1) refl]] .
  have d: "tp_stop p \<longrightarrow> length fs + pool_weight q \<le> pool_weight p \<and> tp_stop q"
    using internal_run_decreases [OF assms(3)] by simp
  have "tp_queue q = [] \<and> mset (finished (es @ fs)) = mset (submitted (es @ fs)) \<and> (tp_stop p \<longrightarrow> (\<exists>r. Shutdown_join q = Some r))"
    if "\<nexists>e r. internal q e r"
    using stuck_idle [OF inv that assms(2)] inv d
    by (auto simp: pool_inv_def Shutdown_join_def list_all_iff simp del: map_append concat_append)
  then show ?thesis using d by blast
qed

text \<open>A pool of one worker that gets a task and is stopped.\<close>

definition sample_pool :: "nat ThreadPool" where
  "sample_pool = \<lparr>tp_workers = [Ready], tp_queue = [7], tp_stop = True, tp_active = 0, tp_notify_one = 1, tp_notify_all = 1\<rparr>"

lemma sample_pool_run: "pool_run (ThreadPool_new 1) [Submitted 7, Silent] sample_pool"
proof -
  let ?q = "(ThreadPool_new 1 :: nat ThreadPool)\<lparr>tp_queue := [7], tp_notify_one := 1\<rparr>"
  have "pool_step (ThreadPool_new 1) (Submitted 7) ?q" by (rule pool_step.submit) (simp add: Submit_def ThreadPool_new_def)
  then have "pool_run (ThreadPool_new 1) ([] @ [Submitted 7]) ?q" using run_step run_refl by blast
  moreover have "pool_step ?q Silent sample_pool"
    using pool_step.stop [of ?q] by (simp add: Shutdown_stop_def ThreadPool_new_def sample_pool_def)
  ultimately have "pool_run (ThreadPool_new 1) (([] @ [Submitted 7]) @ [Silent]) sample_pool" by (rule run_step)
  then show ?thesis by simp
qed

theorem tasks_once_in_order_witness:
  "pool_run (ThreadPool_new 1) [Submitted 7, Silent] sample_pool \<and> tp_queue sample_pool = [7]"
  using tasks_once_in_order [OF sample_pool_run] sample_pool_run by simp

theorem shutdown_terminates_witness:
  "pool_run (ThreadPool_new 1) [Submitted 7, Silent] sample_pool \<and> tp_stop sample_pool \<and> pool_weight sample_pool = 6 \<and> (\<exists>e r. internal sample_pool e r)"
proof -
  have "0 < (1 :: nat)" by simp
  from shutdown_terminates [OF sample_pool_run this irefl] sample_pool_run show ?thesis
    by (auto simp: sample_pool_def pool_weight_def)
qed

end
