(* ===== verification/Timer.thy ===== *)
theory Timer
  imports CxxStd "HOL-Library.Sublist"
begin

text \<open>
  \<open>util/Timer.hpp\<close>: elapsed times, the stopwatch and the cancellable timer. Instants are
  nanoseconds. The timer has one owner, which calls \<open>Schedule\<close> and \<open>Cancel\<close>; its thread waits,
  runs the callback with the mutex held, and ends.
\<close>

section \<open>Elapsed time\<close>

text \<open>\<open>duration_cast\<close> cuts towards zero.\<close>

definition trunc_div :: "int \<Rightarrow> int \<Rightarrow> int" where
  "trunc_div a b = (if 0 \<le> a then a div b else - ((- a) div b))"

definition ElapsedMs :: "int \<Rightarrow> int \<Rightarrow> int" where
  "ElapsedMs from now = trunc_div (now - from) 1000000"

record Stopwatch =
  sw_start :: int

definition Stopwatch_new :: "int \<Rightarrow> Stopwatch" where
  "Stopwatch_new now = \<lparr>sw_start = now\<rparr>"

definition Stopwatch_Reset :: "int \<Rightarrow> Stopwatch \<Rightarrow> Stopwatch" where
  "Stopwatch_Reset now s = s\<lparr>sw_start := now\<rparr>"

definition Stopwatch_ElapsedMs :: "int \<Rightarrow> Stopwatch \<Rightarrow> int" where
  "Stopwatch_ElapsedMs now s = ElapsedMs (sw_start s) now"

definition Stopwatch_ElapsedUs :: "int \<Rightarrow> Stopwatch \<Rightarrow> int" where
  "Stopwatch_ElapsedUs now s = trunc_div (now - sw_start s) 1000"

lemma trunc_div_mono:
  assumes "0 < b" "a \<le> a'"
  shows "trunc_div a b \<le> trunc_div a' b"
proof -
  consider "0 \<le> a" | "a < 0" "0 \<le> a'" | "a' < 0" using assms(2) by linarith
  then show ?thesis
  proof cases
    case 1
    then show ?thesis using assms zdiv_mono1 [of a a' b] by (simp add: trunc_div_def)
  next
    case 2
    then have "0 \<le> (- a) div b" "0 \<le> a' div b" using assms(1) by (simp_all add: pos_imp_zdiv_nonneg_iff)
    then show ?thesis using 2 by (simp add: trunc_div_def)
  next
    case 3
    then show ?thesis using assms zdiv_mono1 [of "- a'" "- a" b] by (simp add: trunc_div_def)
  qed
qed

lemma Stopwatch_monotone: "now \<le> now' \<Longrightarrow> Stopwatch_ElapsedMs now s \<le> Stopwatch_ElapsedMs now' s"
  by (simp add: Stopwatch_ElapsedMs_def ElapsedMs_def trunc_div_mono)

section \<open>The timer\<close>

text \<open>
  The thread of the timer: none, created but not yet waiting, waiting until an instant, in
  the callback, or finished and not yet joined.
\<close>

datatype 'c timer_thread = NoThread | Created int 'c | Waiting int 'c | InCallback 'c | Ended

record 'c OneShotTimer =
  ot_thread :: "'c timer_thread"
  ot_cancelled :: bool

definition OneShotTimer_new :: "'c OneShotTimer" where
  "OneShotTimer_new = \<lparr>ot_thread = NoThread, ot_cancelled = True\<rparr>"

definition IsCancelled :: "'c OneShotTimer \<Rightarrow> bool" where
  "IsCancelled t = ot_cancelled t"

text \<open>\<open>Cancel\<close> sets the flag under the mutex, which the callback holds, and then joins the thread.\<close>

definition Cancel_set :: "'c OneShotTimer \<Rightarrow> 'c OneShotTimer option" where
  "Cancel_set t = (case ot_thread t of InCallback c \<Rightarrow> None | _ \<Rightarrow> Some (t\<lparr>ot_cancelled := True\<rparr>))"

definition Cancel_join :: "'c OneShotTimer \<Rightarrow> 'c OneShotTimer option" where
  "Cancel_join t = (case ot_thread t of NoThread \<Rightarrow> Some t | Ended \<Rightarrow> Some (t\<lparr>ot_thread := NoThread\<rparr>) | _ \<Rightarrow> None)"

definition Schedule :: "int \<Rightarrow> 'c \<Rightarrow> 'c OneShotTimer \<Rightarrow> 'c OneShotTimer" where
  "Schedule delay cb t = t\<lparr>ot_cancelled := False, ot_thread := Created delay cb\<rparr>"

text \<open>A step of the thread at an instant; the callback that starts with it, if one does.\<close>

definition timer_thread_step :: "int \<Rightarrow> 'c OneShotTimer \<Rightarrow> ('c list \<times> 'c OneShotTimer) option" where
  "timer_thread_step now t =
     (case ot_thread t of
        Created delay cb \<Rightarrow> Some ([], t\<lparr>ot_thread := (if ot_cancelled t then Ended else Waiting (now + delay * 1000000) cb)\<rparr>)
      | Waiting due cb \<Rightarrow>
          if ot_cancelled t then Some ([], t\<lparr>ot_thread := Ended\<rparr>)
          else if due \<le> now then Some ([cb], t\<lparr>ot_thread := InCallback cb\<rparr>)
          else None
      | InCallback cb \<Rightarrow> Some ([], t\<lparr>ot_thread := Ended\<rparr>)
      | _ \<Rightarrow> None)"

text \<open>
  Runs: the owner is idle, has set the flag and is joining, or has joined on behalf of
  \<open>Schedule\<close>. Scheduled callbacks and started callbacks are recorded in order.
\<close>

datatype 'c owner = Idle | Cancelling "(int \<times> 'c) option"

inductive timer_run :: "'c OneShotTimer \<Rightarrow> 'c owner \<Rightarrow> 'c list \<Rightarrow> 'c list \<Rightarrow> int \<Rightarrow> bool" where
  fresh: "timer_run OneShotTimer_new Idle [] [] now"
| tick: "\<lbrakk>timer_run t w ss fs now; now \<le> now'\<rbrakk> \<Longrightarrow> timer_run t w ss fs now'"
| thread: "\<lbrakk>timer_run t w ss fs now; timer_thread_step now t = Some (cs, t')\<rbrakk> \<Longrightarrow> timer_run t' w ss (fs @ cs) now"
| call: "\<lbrakk>timer_run t Idle ss fs now; Cancel_set t = Some t'\<rbrakk> \<Longrightarrow> timer_run t' (Cancelling what) ss fs now"
| cancelled: "\<lbrakk>timer_run t (Cancelling None) ss fs now; Cancel_join t = Some t'\<rbrakk> \<Longrightarrow> timer_run t' Idle ss fs now"
| scheduled: "\<lbrakk>timer_run t (Cancelling (Some (delay, cb))) ss fs now; Cancel_join t = Some t'\<rbrakk>
    \<Longrightarrow> timer_run (Schedule delay cb t') Idle (ss @ [cb]) fs now"

text \<open>The callback a thread may still start.\<close>

fun pending_cb :: "'c OneShotTimer \<Rightarrow> 'c list" where
  "pending_cb t = (if ot_cancelled t then [] else case ot_thread t of Created d c \<Rightarrow> [c] | Waiting d c \<Rightarrow> [c] | _ \<Rightarrow> [])"

lemma thread_step_pending:
  "timer_thread_step now t = Some (cs, t') \<Longrightarrow>
     ot_cancelled t' = ot_cancelled t \<and> (cs @ pending_cb t' = pending_cb t \<or> cs @ pending_cb t' = [])"
  by (auto simp: timer_thread_step_def split: timer_thread.splits if_splits)

lemma cancelled_pending: "ot_cancelled t \<Longrightarrow> pending_cb t = []"
  by simp

declare pending_cb.simps [simp del]

lemma subseq_front: "subseq (xs @ ys) zs \<Longrightarrow> subseq xs zs"
  by (rule subseq_order.order_trans [OF prefix_imp_subseq]) simp_all

lemma timer_run_inv:
  "timer_run t w ss fs now \<Longrightarrow> subseq (fs @ pending_cb t) ss \<and> (w \<noteq> Idle \<longrightarrow> ot_cancelled t)"
proof (induction rule: timer_run.induct)
  case (fresh now)
  show ?case by (simp add: OneShotTimer_new_def cancelled_pending)
next
  case (thread t w ss fs now cs t')
  then have s: "subseq (fs @ pending_cb t) ss" by simp
  have "subseq (fs @ cs @ pending_cb t') ss"
    using thread_step_pending [OF thread(2)] s subseq_front [OF s] by (elim conjE disjE) simp_all
  then show ?case using thread(3) thread_step_pending [OF thread(2)] by simp
next
  case (call t ss fs now t' what)
  then have "ot_cancelled t'" by (auto simp: Cancel_set_def split: timer_thread.splits)
  then show ?case using subseq_front [OF conjunct1 [OF call(3)]] by (simp add: cancelled_pending)
next
  case (cancelled t ss fs now t')
  then have "ot_cancelled t'" "ot_cancelled t" by (auto simp: Cancel_join_def split: timer_thread.splits)
  then show ?case using subseq_front [OF conjunct1 [OF cancelled(3)]] by (simp add: cancelled_pending)
next
  case (scheduled t delay cb ss fs now t')
  show ?case using subseq_front [OF conjunct1 [OF scheduled(3)]] by (simp add: Schedule_def pending_cb.simps)
qed simp

text \<open>
  Every scheduled callback starts at most once, in the order of scheduling, and none starts
  while the timer is cancelled.
\<close>

theorem timer_fires_once:
  assumes "timer_run t w ss fs now"
  shows "subseq fs ss \<and> (IsCancelled t \<longrightarrow> (\<forall>cs t'. timer_thread_step now t = Some (cs, t') \<longrightarrow> cs = []))"
proof
  show "subseq fs ss" by (rule subseq_front [OF conjunct1 [OF timer_run_inv [OF assms]]])
  show "IsCancelled t \<longrightarrow> (\<forall>cs t'. timer_thread_step now t = Some (cs, t') \<longrightarrow> cs = [])"
    by (auto simp: IsCancelled_def cancelled_pending dest!: thread_step_pending)
qed

text \<open>
  \<open>Cancel\<close> gets through: once the flag is set the thread ends in one step, and then the join
  succeeds. Only a callback that is running keeps \<open>Cancel\<close> waiting, and a callback that calls
  \<open>Cancel\<close> or \<open>Schedule\<close> of its own timer waits for the mutex it holds.
\<close>

lemma cancel_ends:
  assumes "Cancel_set t = Some u" "ot_thread u \<noteq> NoThread" "ot_thread u \<noteq> Ended"
  shows "\<exists>v. timer_thread_step now u = Some ([], v) \<and> Cancel_join v \<noteq> None"
  using assms by (auto simp: Cancel_set_def timer_thread_step_def Cancel_join_def split: timer_thread.splits)

lemma cancel_in_callback: "ot_thread t = InCallback c \<Longrightarrow> Cancel_set t = None"
  by (simp add: Cancel_set_def)

end
