(* ===== verification/Config.thy ===== *)
theory Config
  imports StdText
begin

text \<open>
  \<open>util/Config.{hpp,cpp}\<close>: the configuration of a node from a YAML file and the environment.
  The YAML library is a parameter: a record of its operations over an abstract type of nodes.
  \<open>None\<close> is an exception, of the library or of \<open>std::stoi\<close>.
\<close>

section \<open>Standard library\<close>

definition rfind_char :: "char \<Rightarrow> string \<Rightarrow> nat option" where
  "rfind_char c s = map_option (\<lambda>k. length s - 1 - k) (find_char c (rev s))"

definition stoi :: "string \<Rightarrow> int option" where
  "stoi s =
     (let (neg, body) = strip_sign (dropWhile is_space s);
          ds = takeWhile is_digit body;
          v = (if neg then - int (digits_value ds) else int (digits_value ds))
      in if ds = [] \<or> v < - (2 ^ 31) \<or> 2 ^ 31 \<le> v then None else Some v)"

text \<open>The operations of \<open>yaml-cpp\<close> used: loading a file, indexing, conversions, the elements of a sequence.\<close>

record 'y yaml_ops =
  y_load :: "string \<Rightarrow> 'y option"
  y_get :: "'y \<Rightarrow> string \<Rightarrow> 'y option"
  y_defined :: "'y \<Rightarrow> bool"
  y_str :: "'y \<Rightarrow> string option"
  y_u16 :: "'y \<Rightarrow> u16 option"
  y_int :: "'y \<Rightarrow> int option"
  y_bool :: "'y \<Rightarrow> bool option"
  y_elems :: "'y \<Rightarrow> 'y list"

text \<open>\<open>node[a]\<dots>.as<T>(fallback)\<close>: the fallback where the node is missing or not convertible.\<close>

primrec y_path :: "'y yaml_ops \<Rightarrow> 'y \<Rightarrow> string list \<Rightarrow> 'y option" where
  "y_path Y n [] = Some n"
| "y_path Y n (k # ks) = do { m \<leftarrow> y_get Y n k; y_path Y m ks }"

definition y_or :: "'y yaml_ops \<Rightarrow> ('y \<Rightarrow> 'a option) \<Rightarrow> 'y \<Rightarrow> string list \<Rightarrow> 'a \<Rightarrow> 'a option" where
  "y_or Y as n ks fallback = map_option (\<lambda>m. case as m of None \<Rightarrow> fallback | Some v \<Rightarrow> v) (y_path Y n ks)"

section \<open>Configurations\<close>

record PeerConfig =
  pc_id :: string
  pc_host :: string
  pc_raftPort :: u16

record RaftTimings =
  rt_electionTimeoutMin :: int
  rt_electionTimeoutMax :: int
  rt_heartbeatInterval :: int
  rt_rpcTimeout :: int

record ServerConfig =
  srv_bindAddress :: string
  srv_clientPort :: u16
  srv_raftPort :: u16
  srv_numIoThreads :: int

record StorageConfig =
  st_dataDir :: string
  st_walMaxSegmentBytes :: u64
  st_syncWrites :: bool

record AuthConfig =
  au_jwtAlgorithm :: string
  au_jwtSecret :: string
  au_jwtPublicKeyPath :: string
  au_jwtIssuer :: string

record NodeConfig =
  nc_nodeId :: string
  nc_server :: ServerConfig
  nc_storage :: StorageConfig
  nc_raft :: RaftTimings
  nc_auth :: AuthConfig
  nc_peers :: "PeerConfig list"
  nc_logLevel :: string

definition RaftTimings_default :: RaftTimings where
  "RaftTimings_default = \<lparr>rt_electionTimeoutMin = 150, rt_electionTimeoutMax = 300, rt_heartbeatInterval = 50, rt_rpcTimeout = 50\<rparr>"

definition ServerConfig_default :: ServerConfig where
  "ServerConfig_default = \<lparr>srv_bindAddress = ''0.0.0.0'', srv_clientPort = 2379, srv_raftPort = 2380, srv_numIoThreads = 4\<rparr>"

definition StorageConfig_default :: StorageConfig where
  "StorageConfig_default = \<lparr>st_dataDir = ''/var/lib/orcdb'', st_walMaxSegmentBytes = 64 * 1024 * 1024, st_syncWrites = True\<rparr>"

definition AuthConfig_default :: AuthConfig where
  "AuthConfig_default = \<lparr>au_jwtAlgorithm = ''HS256'', au_jwtSecret = [], au_jwtPublicKeyPath = [], au_jwtIssuer = ''orcdb''\<rparr>"

definition NodeConfig_default :: NodeConfig where
  "NodeConfig_default = \<lparr>nc_nodeId = [], nc_server = ServerConfig_default, nc_storage = StorageConfig_default,
     nc_raft = RaftTimings_default, nc_auth = AuthConfig_default, nc_peers = [], nc_logLevel = ''info''\<rparr>"

section \<open>Loading\<close>

definition file_raft :: "'y yaml_ops \<Rightarrow> 'y \<Rightarrow> RaftTimings option" where
  "file_raft Y doc =
     do { r \<leftarrow> y_get Y doc ''raft'';
          if \<not> y_defined Y r then Some RaftTimings_default
          else do {
            emin \<leftarrow> y_or Y (y_int Y) r [''election_timeout_min_ms''] 150;
            emax \<leftarrow> y_or Y (y_int Y) r [''election_timeout_max_ms''] 300;
            hb \<leftarrow> y_or Y (y_int Y) r [''heartbeat_interval_ms''] 50;
            rpc \<leftarrow> y_or Y (y_int Y) r [''rpc_timeout_ms''] 50;
            Some \<lparr>rt_electionTimeoutMin = emin, rt_electionTimeoutMax = emax, rt_heartbeatInterval = hb, rt_rpcTimeout = rpc\<rparr> } }"

definition file_peer :: "'y yaml_ops \<Rightarrow> 'y \<Rightarrow> PeerConfig option" where
  "file_peer Y peer =
     do { i \<leftarrow> Option.bind (y_get Y peer ''id'') (y_str Y);
          h \<leftarrow> Option.bind (y_get Y peer ''host'') (y_str Y);
          port \<leftarrow> y_or Y (y_u16 Y) peer [''raft_port''] 2380;
          Some \<lparr>pc_id = i, pc_host = h, pc_raftPort = port\<rparr> }"

definition file_peers :: "'y yaml_ops \<Rightarrow> 'y \<Rightarrow> PeerConfig list option" where
  "file_peers Y doc =
     do { ps \<leftarrow> y_get Y doc ''peers'';
          if \<not> y_defined Y ps then Some [] else map_opt (file_peer Y) (y_elems Y ps) }"

definition LoadFromFile :: "'y yaml_ops \<Rightarrow> string \<Rightarrow> NodeConfig option" where
  "LoadFromFile Y path =
     do { doc \<leftarrow> y_load Y path;
          nodeId \<leftarrow> y_or Y (y_str Y) doc [''node_id''] ''node1'';
          logLevel \<leftarrow> y_or Y (y_str Y) doc [''log_level''] ''info'';
          bind \<leftarrow> y_or Y (y_str Y) doc [''server'', ''bind''] ''0.0.0.0'';
          clientPort \<leftarrow> y_or Y (y_u16 Y) doc [''server'', ''client_port''] 2379;
          raftPort \<leftarrow> y_or Y (y_u16 Y) doc [''server'', ''raft_port''] 2380;
          numIoThreads \<leftarrow> y_or Y (y_int Y) doc [''server'', ''io_threads''] 4;
          dataDir \<leftarrow> y_or Y (y_str Y) doc [''storage'', ''data_dir''] ''/var/lib/orcdb'';
          syncWrites \<leftarrow> y_or Y (y_bool Y) doc [''storage'', ''sync_writes''] True;
          algorithm \<leftarrow> y_or Y (y_str Y) doc [''auth'', ''algorithm''] ''HS256'';
          secret \<leftarrow> y_or Y (y_str Y) doc [''auth'', ''secret''] [];
          keyPath \<leftarrow> y_or Y (y_str Y) doc [''auth'', ''public_key_path''] [];
          issuer \<leftarrow> y_or Y (y_str Y) doc [''auth'', ''issuer''] ''orcdb'';
          raft \<leftarrow> file_raft Y doc;
          peers \<leftarrow> file_peers Y doc;
          Some (NodeConfig_default\<lparr>nc_nodeId := nodeId, nc_logLevel := logLevel,
            nc_server := \<lparr>srv_bindAddress = bind, srv_clientPort = clientPort, srv_raftPort = raftPort, srv_numIoThreads = numIoThreads\<rparr>,
            nc_storage := StorageConfig_default\<lparr>st_dataDir := dataDir, st_syncWrites := syncWrites\<rparr>,
            nc_auth := \<lparr>au_jwtAlgorithm = algorithm, au_jwtSecret = secret, au_jwtPublicKeyPath = keyPath, au_jwtIssuer = issuer\<rparr>,
            nc_raft := raft, nc_peers := peers\<rparr>) }"

type_synonym environment = "string \<Rightarrow> string option"

definition Env :: "environment \<Rightarrow> string \<Rightarrow> string \<Rightarrow> string" where
  "Env getenv name dflt = (case getenv name of None \<Rightarrow> dflt | Some v \<Rightarrow> v)"

definition port_of :: "string \<Rightarrow> u16 option" where
  "port_of s = map_option word_of_int (stoi s)"

text \<open>An entry \<open>host:port\<close>. Without a colon, \<open>substr(0, npos)\<close> and \<open>substr(npos + 1)\<close> are both the whole entry.\<close>

definition split_entry :: "string \<Rightarrow> string \<times> string" where
  "split_entry entry = (case rfind_char (CHR '':'') entry of None \<Rightarrow> (entry, entry) | Some k \<Rightarrow> (take k entry, drop (k + 1) entry))"

function peer_entries :: "string \<Rightarrow> string list" where
  "peer_entries s =
     (if s = [] then []
      else case find_char (CHR '','') s of None \<Rightarrow> [s] | Some k \<Rightarrow> take k s # peer_entries (drop (k + 1) s))"
  by pat_completeness auto
termination
  by (relation "measure length") (auto simp: find_char_Some)

declare peer_entries.simps [simp del]

definition env_peer :: "(string \<Rightarrow> string) \<Rightarrow> string \<Rightarrow> PeerConfig option" where
  "env_peer name entry =
     (let (host, port) = split_entry entry in
      map_option (\<lambda>p. \<lparr>pc_id = name host, pc_host = host, pc_raftPort = p\<rparr>) (port_of port))"

definition env_peers_numbered :: "string \<Rightarrow> PeerConfig list option" where
  "env_peers_numbered s =
     map_opt (\<lambda>(i, entry). env_peer (\<lambda>_. ''node'' @ to_string i) entry)
       (zip [2..<2 + length (peer_entries s)] (peer_entries s))"

definition LoadFromEnv :: "environment \<Rightarrow> NodeConfig option" where
  "LoadFromEnv getenv =
     do { clientPort \<leftarrow> port_of (Env getenv ''CLIENT_PORT'' ''2379'');
          raftPort \<leftarrow> port_of (Env getenv ''RAFT_PORT'' ''2380'');
          peers \<leftarrow> env_peers_numbered (Env getenv ''PEERS'' []);
          Some (NodeConfig_default\<lparr>nc_nodeId := Env getenv ''NODE_ID'' ''node1'', nc_logLevel := Env getenv ''LOG_LEVEL'' ''info'',
            nc_server := ServerConfig_default\<lparr>srv_clientPort := clientPort, srv_raftPort := raftPort\<rparr>,
            nc_storage := StorageConfig_default\<lparr>st_dataDir := Env getenv ''DATA_DIR'' ''/var/lib/orcdb''\<rparr>,
            nc_auth := AuthConfig_default\<lparr>au_jwtSecret := Env getenv ''JWT_SECRET'' [], au_jwtAlgorithm := Env getenv ''JWT_ALGORITHM'' ''HS256''\<rparr>,
            nc_peers := peers\<rparr>) }"

definition overrideStr :: "environment \<Rightarrow> string \<Rightarrow> string \<Rightarrow> string" where
  "overrideStr getenv name field = (case getenv name of None \<Rightarrow> field | Some v \<Rightarrow> v)"

definition overrideU16 :: "environment \<Rightarrow> string \<Rightarrow> u16 \<Rightarrow> u16 option" where
  "overrideU16 getenv name field = (case getenv name of None \<Rightarrow> Some field | Some v \<Rightarrow> port_of v)"

definition Config_Load :: "'y yaml_ops \<Rightarrow> environment \<Rightarrow> string option \<Rightarrow> NodeConfig option" where
  "Config_Load Y getenv filePath =
     do { cfg \<leftarrow> (case filePath of Some path \<Rightarrow> LoadFromFile Y path | None \<Rightarrow> LoadFromEnv getenv);
          clientPort \<leftarrow> overrideU16 getenv ''CLIENT_PORT'' (srv_clientPort (nc_server cfg));
          raftPort \<leftarrow> overrideU16 getenv ''RAFT_PORT'' (srv_raftPort (nc_server cfg));
          peers \<leftarrow> (case getenv ''PEERS'' of None \<Rightarrow> Some (nc_peers cfg) | Some s \<Rightarrow> map_opt (env_peer (\<lambda>host. host)) (peer_entries s));
          Some (cfg\<lparr>nc_nodeId := overrideStr getenv ''NODE_ID'' (nc_nodeId cfg),
            nc_auth := (nc_auth cfg)\<lparr>au_jwtSecret := overrideStr getenv ''JWT_SECRET'' (au_jwtSecret (nc_auth cfg))\<rparr>,
            nc_storage := (nc_storage cfg)\<lparr>st_dataDir := overrideStr getenv ''DATA_DIR'' (st_dataDir (nc_storage cfg))\<rparr>,
            nc_logLevel := overrideStr getenv ''LOG_LEVEL'' (nc_logLevel cfg),
            nc_server := (nc_server cfg)\<lparr>srv_clientPort := clientPort, srv_raftPort := raftPort\<rparr>,
            nc_peers := peers\<rparr>) }"

section \<open>The list of peers\<close>

definition peer_entry :: "string \<times> u16 \<Rightarrow> string" where
  "peer_entry = (\<lambda>(h, p). h @ '':'' @ to_string (unat p))"

fun render_peers :: "(string \<times> u16) list \<Rightarrow> string" where
  "render_peers [] = []"
| "render_peers [x] = peer_entry x"
| "render_peers (x # y # xs) = peer_entry x @ '','' @ render_peers (y # xs)"

lemma stoi_to_string: "n < 2 ^ 31 \<Longrightarrow> stoi (to_string n) = Some (int n)"
proof -
  assume n: "n < 2 ^ 31"
  obtain c cs where s: "to_string n = c # cs" "is_digit c" "list_all is_digit cs" "digits_value (c # cs) = n"
    using to_string_digits [of n] by (cases "to_string n") auto
  have tw: "takeWhile is_digit cs = cs" using s(3) by (simp add: list_all_iff)
  show ?thesis using s n by (simp add: stoi_def Let_def strip_sign_digit digit_not_space tw)
qed

lemma port_to_string: "port_of (to_string (unat (p :: u16))) = Some p"
proof -
  have "unat p < 65536" using unsigned_less [of p] by simp
  then show ?thesis using stoi_to_string [of "unat p"] by (simp add: port_of_def)
qed

lemma digits_clean: "CHR '':'' \<notin> set (to_string n)" "CHR '','' \<notin> set (to_string n)"
  using to_string_digits [of n] by (auto simp: list_all_iff is_digit_def)

lemma split_peer_entry: "split_entry (peer_entry (h, p)) = (h, to_string (unat p))"
proof -
  have "find_char (CHR '':'') (rev (to_string (unat p)) @ CHR '':'' # rev h) = Some (length (to_string (unat p)))"
    using digits_clean(1) [of "unat p"] find_char_append [of "CHR '':''" "rev (to_string (unat p))"] by simp
  then show ?thesis by (simp add: split_entry_def peer_entry_def rfind_char_def)
qed

lemma env_peer_entry: "env_peer name (peer_entry (h, p)) = Some \<lparr>pc_id = name h, pc_host = h, pc_raftPort = p\<rparr>"
  by (simp add: env_peer_def split_peer_entry port_to_string)

lemma peer_entries_render:
  "list_all (\<lambda>(h, _). CHR '','' \<notin> set h) xs \<Longrightarrow> peer_entries (render_peers xs) = map peer_entry xs"
proof (induction xs rule: render_peers.induct)
  case (2 x)
  obtain h p where x: "x = (h, p)" by (cases x)
  have "find_char (CHR '','') (peer_entry x) = None" using 2 digits_clean(2) [of "unat p"] by (simp add: x peer_entry_def find_char_None)
  moreover have "peer_entry x \<noteq> []" by (simp add: x peer_entry_def)
  ultimately show ?case by (subst peer_entries.simps) simp
next
  case (3 x y xs)
  obtain h p where x: "x = (h, p)" by (cases x)
  have "CHR '','' \<notin> set (peer_entry x)" using 3 digits_clean(2) [of "unat p"] by (simp add: x peer_entry_def)
  then have "find_char (CHR '','') (peer_entry x @ CHR '','' # render_peers (y # xs)) = Some (length (peer_entry x))"
    by (rule find_char_append)
  then show ?case using 3 by (subst peer_entries.simps) simp
qed (simp add: peer_entries.simps)

section \<open>Properties\<close>

text \<open>
  C33: the environment has the last word on identity and peers, and only there. A list of
  peers written as \<open>host:port\<close> with commas gives exactly these peers, each under its host name,
  whatever the file said; a node name replaces the one loaded. The algorithm for tokens is the
  one loaded: with a file, \<open>JWT_ALGORITHM\<close> has no effect.
\<close>

theorem env_overrides:
  assumes "(case filePath of Some path \<Rightarrow> LoadFromFile Y path | None \<Rightarrow> LoadFromEnv getenv) = Some base"
    "getenv ''NODE_ID'' = Some i" "getenv ''PEERS'' = Some (render_peers xs)" "list_all (\<lambda>(h, _). CHR '','' \<notin> set h) xs"
    "getenv ''CLIENT_PORT'' = Some (to_string (unat cp))" "getenv ''RAFT_PORT'' = Some (to_string (unat rp))"
  shows "\<exists>cfg. Config_Load Y getenv filePath = Some cfg \<and> nc_nodeId cfg = i \<and>
    nc_peers cfg = map (\<lambda>(h, p). \<lparr>pc_id = h, pc_host = h, pc_raftPort = p\<rparr>) xs \<and>
    srv_clientPort (nc_server cfg) = cp \<and> srv_raftPort (nc_server cfg) = rp \<and>
    au_jwtAlgorithm (nc_auth cfg) = au_jwtAlgorithm (nc_auth base) \<and> nc_raft cfg = nc_raft base"
proof -
  have "map_opt (env_peer (\<lambda>host. host)) (map peer_entry xs) = Some (map (\<lambda>(h, p). \<lparr>pc_id = h, pc_host = h, pc_raftPort = p\<rparr>) xs)"
    by (induction xs) (auto simp: env_peer_entry)
  then show ?thesis
    using assms by (simp add: Config_Load_def overrideU16_def overrideStr_def port_to_string peer_entries_render)
qed

definition sample_yaml :: "string yaml_ops" where
  "sample_yaml = \<lparr>y_load = Some, y_get = (\<lambda>n k. Some (if n = [] then k else [])), y_defined = (\<lambda>_. False),
     y_str = (\<lambda>n. if n = ''auth'' then Some ''RS256'' else None), y_u16 = (\<lambda>_. None), y_int = (\<lambda>_. None), y_bool = (\<lambda>_. None),
     y_elems = (\<lambda>_. [])\<rparr>"

definition sample_getenv :: environment where
  "sample_getenv = map_of [(''NODE_ID'', ''n1''), (''PEERS'', render_peers [(''a'', 1), (''b'', 2)]),
     (''CLIENT_PORT'', to_string (unat (80 :: u16))), (''RAFT_PORT'', to_string (unat (81 :: u16)))]"

theorem env_overrides_witness:
  "\<exists>cfg. Config_Load sample_yaml sample_getenv (Some []) = Some cfg \<and> nc_nodeId cfg = ''n1'' \<and>
     nc_peers cfg = [\<lparr>pc_id = ''a'', pc_host = ''a'', pc_raftPort = 1\<rparr>, \<lparr>pc_id = ''b'', pc_host = ''b'', pc_raftPort = 2\<rparr>]"
proof -
  obtain base where "LoadFromFile sample_yaml [] = Some base"
    by (simp add: LoadFromFile_def y_or_def sample_yaml_def file_raft_def file_peers_def)
  then have b: "(case Some [] of Some path \<Rightarrow> LoadFromFile sample_yaml path | None \<Rightarrow> LoadFromEnv sample_getenv) = Some base" by simp
  have g: "sample_getenv ''NODE_ID'' = Some ''n1''" "sample_getenv ''PEERS'' = Some (render_peers [(''a'', 1), (''b'', 2)])"
    "list_all (\<lambda>(h, _). CHR '','' \<notin> set h) [(''a'', 1 :: u16), (''b'', 2)]"
    "sample_getenv ''CLIENT_PORT'' = Some (to_string (unat (80 :: u16)))" "sample_getenv ''RAFT_PORT'' = Some (to_string (unat (81 :: u16)))"
    by (simp_all add: sample_getenv_def)
  from env_overrides [OF b g] show ?thesis by auto
qed

end
