(* ===== verification/Metrics.thy ===== *)
theory Metrics
  imports Router "HOL-Library.Log_Nat"
begin

text \<open>
  \<open>metrics/\<close>: counters, gauges and histograms, their text format, the registry and its handler.
  Finite doubles are rational numbers, rounded to 53 bits after every operation (overflow to
  infinity and subnormal numbers do not occur at the magnitudes used). Conversions that C++
  leaves undefined are \<open>None\<close>.
\<close>

section \<open>Doubles\<close>

definition round_half_even :: "rat \<Rightarrow> int" where
  "round_half_even q =
     (let f = \<lfloor>q\<rfloor>; r = q - of_int f
      in if r < 1 / 2 then f else if 1 / 2 < r then f + 1 else if even f then f else f + 1)"

text \<open>The integer logarithm of a positive rational.\<close>

definition ilog :: "nat \<Rightarrow> rat \<Rightarrow> int" where
  "ilog b q =
     (let (n, d) = quotient_of q; e = int (floorlog b (nat n)) - int (floorlog b (nat d))
      in if of_nat b powi e \<le> q then e else e - 1)"

definition rnd53 :: "rat \<Rightarrow> rat" where
  "rnd53 q = (if q = 0 then 0 else let u = 2 powi (ilog 2 \<bar>q\<bar> - 52) in of_int (round_half_even (q / u)) * u)"

definition trunc :: "rat \<Rightarrow> int" where
  "trunc q = (if 0 \<le> q then \<lfloor>q\<rfloor> else \<lceil>q\<rceil>)"

definition to_i64 :: "rat \<Rightarrow> i64 option" where
  "to_i64 q = (let t = trunc q in if - (2 ^ 63) \<le> t \<and> t < 2 ^ 63 then Some (word_of_int t) else None)"

definition to_u64 :: "rat \<Rightarrow> u64 option" where
  "to_u64 q = (let t = trunc q in if 0 \<le> t \<and> t < 2 ^ 64 then Some (word_of_int t) else None)"

definition double_of_u64 :: "u64 \<Rightarrow> rat" where
  "double_of_u64 w = rnd53 (of_nat (unat w))"

text \<open>\<open>ostream << double\<close> in the default format: six significant digits, as \<open>%g\<close>.\<close>

definition strip_zeros :: "string \<Rightarrow> string" where
  "strip_zeros s = rev (dropWhile (\<lambda>c. c = CHR ''0'') (rev s))"

definition pad_left :: "nat \<Rightarrow> string \<Rightarrow> string" where
  "pad_left k s = replicate (k - length s) (CHR ''0'') @ s"

definition with_fraction :: "nat \<Rightarrow> nat \<Rightarrow> string" where
  "with_fraction m k =
     (let f = strip_zeros (pad_left k (to_string (m mod 10 ^ k)))
      in to_string (m div 10 ^ k) @ (if f = [] then [] else CHR ''.'' # f))"

definition six_digits :: "rat \<Rightarrow> nat \<times> int" where
  "six_digits q =
     (let e = ilog 10 q; m = nat (round_half_even (q / 10 powi (e - 5)))
      in if m = 1000000 then (100000, e + 1) else (m, e))"

definition put_positive :: "rat \<Rightarrow> string" where
  "put_positive q =
     (let (m, e) = six_digits q
      in if - 4 \<le> e \<and> e < 6 then with_fraction m (nat (5 - e))
         else with_fraction m 5 @ CHR ''e'' # (if e < 0 then CHR ''-'' else CHR ''+'') # pad_left 2 (to_string (nat \<bar>e\<bar>)))"

definition put_double :: "rat \<Rightarrow> string" where
  "put_double q = (if q = 0 then ''0'' else if q < 0 then CHR ''-'' # put_positive (- q) else put_positive q)"

section \<open>Metrics\<close>

definition help_line :: "string \<Rightarrow> string \<Rightarrow> string" where
  "help_line name help = ''# HELP '' @ name @ '' '' @ help @ [LF]"

definition type_line :: "string \<Rightarrow> string \<Rightarrow> string" where
  "type_line name kind = ''# TYPE '' @ name @ '' '' @ kind @ [LF]"

definition sample_line :: "string \<Rightarrow> string \<Rightarrow> string" where
  "sample_line name v = name @ '' '' @ v @ [LF]"

record Counter =
  c_name :: string
  c_help :: string
  c_value :: u64

definition Counter_new :: "string \<Rightarrow> string \<Rightarrow> Counter" where
  "Counter_new name help = \<lparr>c_name = name, c_help = help, c_value = 0\<rparr>"

definition Counter_Inc :: "rat \<Rightarrow> Counter \<Rightarrow> Counter option" where
  "Counter_Inc v c = map_option (\<lambda>w. c\<lparr>c_value := c_value c + w\<rparr>) (to_u64 v)"

definition Counter_Emit :: "Counter \<Rightarrow> string" where
  "Counter_Emit c = help_line (c_name c) (c_help c) @ type_line (c_name c) ''counter'' @ sample_line (c_name c) (to_string (unat (c_value c)))"

record Gauge =
  g_name :: string
  g_help :: string
  g_value :: i64

definition Gauge_new :: "string \<Rightarrow> string \<Rightarrow> Gauge" where
  "Gauge_new name help = \<lparr>g_name = name, g_help = help, g_value = 0\<rparr>"

definition Gauge_Set :: "rat \<Rightarrow> Gauge \<Rightarrow> Gauge option" where
  "Gauge_Set v g = map_option (\<lambda>w. g\<lparr>g_value := w\<rparr>) (to_i64 (rnd53 (v * 1000)))"

definition Gauge_Inc :: "rat \<Rightarrow> Gauge \<Rightarrow> Gauge option" where
  "Gauge_Inc v g = map_option (\<lambda>w. g\<lparr>g_value := g_value g + w\<rparr>) (to_i64 (rnd53 (v * 1000)))"

definition Gauge_Dec :: "rat \<Rightarrow> Gauge \<Rightarrow> Gauge option" where
  "Gauge_Dec v g = map_option (\<lambda>w. g\<lparr>g_value := g_value g - w\<rparr>) (to_i64 (rnd53 (v * 1000)))"

definition Gauge_Value :: "Gauge \<Rightarrow> rat" where
  "Gauge_Value g = rnd53 (rnd53 (of_int (sint (g_value g))) / 1000)"

definition Gauge_Emit :: "Gauge \<Rightarrow> string" where
  "Gauge_Emit g = help_line (g_name g) (g_help g) @ type_line (g_name g) ''gauge'' @ sample_line (g_name g) (put_double (Gauge_Value g))"

record Histogram =
  h_name :: string
  h_help :: string
  h_buckets :: "rat list"
  h_counts :: "u64 list"
  h_sum :: rat
  h_count :: u64

definition Histogram_new :: "string \<Rightarrow> string \<Rightarrow> rat list \<Rightarrow> Histogram" where
  "Histogram_new name help buckets = \<lparr>h_name = name, h_help = help, h_buckets = buckets,
     h_counts = replicate (length buckets + 1) 0, h_sum = 0, h_count = 0\<rparr>"

definition Observe :: "rat \<Rightarrow> Histogram \<Rightarrow> Histogram" where
  "Observe v h = h\<lparr>h_sum := rnd53 (h_sum h + v), h_count := h_count h + 1,
     h_counts := map2 (\<lambda>b c. if v \<le> b then c + 1 else c) (h_buckets h) (butlast (h_counts h)) @ [last (h_counts h) + 1]\<rparr>"

definition bucket_line :: "string \<Rightarrow> string \<Rightarrow> u64 \<Rightarrow> string" where
  "bucket_line name le c = name @ ''_bucket{le='' @ [CHR 0x22] @ le @ [CHR 0x22] @ ''} '' @ to_string (unat c) @ [LF]"

definition Histogram_Emit :: "Histogram \<Rightarrow> string" where
  "Histogram_Emit h = help_line (h_name h) (h_help h) @ type_line (h_name h) ''histogram'' @
     concat (map2 (\<lambda>b c. bucket_line (h_name h) (put_double b) c) (h_buckets h) (butlast (h_counts h))) @
     bucket_line (h_name h) ''+Inf'' (last (h_counts h)) @
     sample_line (h_name h @ ''_sum'') (put_double (h_sum h)) @
     sample_line (h_name h @ ''_count'') (to_string (unat (h_count h)))"

section \<open>The registry\<close>

record OrcMetrics =
  raftElectionsTotal :: Counter
  raftCurrentTerm :: Gauge
  raftIsLeader :: Gauge
  raftCommittedEntries :: Counter
  raftReplicationLatency :: Histogram
  httpRequestsTotal :: Counter
  httpRequestDuration :: Histogram
  activeConnections :: Gauge
  kvPuts :: Counter
  kvGets :: Counter
  kvDeletes :: Counter
  kvStoreSize :: Gauge
  walBytesWritten :: Counter

definition OrcMetrics_new :: OrcMetrics where
  "OrcMetrics_new = \<lparr>
     raftElectionsTotal = Counter_new ''orcdb_raft_elections_total'' ''Total Raft elections started'',
     raftCurrentTerm = Gauge_new ''orcdb_raft_current_term'' ''Current Raft term'',
     raftIsLeader = Gauge_new ''orcdb_raft_is_leader'' ''1 if this node is the Raft leader'',
     raftCommittedEntries = Counter_new ''orcdb_raft_committed_entries_total'' ''Total committed log entries'',
     raftReplicationLatency = Histogram_new ''orcdb_raft_replication_latency_ms'' ''AppendEntries round-trip latency in ms''
       [1, 5, 10, 25, 50, 100, 250, 500],
     httpRequestsTotal = Counter_new ''orcdb_http_requests_total'' ''Total HTTP requests'',
     httpRequestDuration = Histogram_new ''orcdb_http_request_duration_ms'' ''HTTP request duration in ms''
       [1, 5, 10, 25, 50, 100, 250, 500, 1000],
     activeConnections = Gauge_new ''orcdb_active_connections'' ''Active TCP connections'',
     kvPuts = Counter_new ''orcdb_kv_puts_total'' ''Total KV put operations'',
     kvGets = Counter_new ''orcdb_kv_gets_total'' ''Total KV get operations'',
     kvDeletes = Counter_new ''orcdb_kv_deletes_total'' ''Total KV delete operations'',
     kvStoreSize = Gauge_new ''orcdb_kv_store_size'' ''Number of keys in the KV store'',
     walBytesWritten = Counter_new ''orcdb_wal_bytes_written_total'' ''Bytes written to WAL''\<rparr>"

definition Collect_metrics :: "OrcMetrics \<Rightarrow> string" where
  "Collect_metrics m = Counter_Emit (raftElectionsTotal m) @ Gauge_Emit (raftCurrentTerm m) @ Gauge_Emit (raftIsLeader m) @
     Counter_Emit (raftCommittedEntries m) @ Histogram_Emit (raftReplicationLatency m) @ Counter_Emit (httpRequestsTotal m) @
     Histogram_Emit (httpRequestDuration m) @ Gauge_Emit (activeConnections m) @ Counter_Emit (kvPuts m) @
     Counter_Emit (kvGets m) @ Counter_Emit (kvDeletes m) @ Gauge_Emit (kvStoreSize m) @ Counter_Emit (walBytesWritten m)"

definition MetricsHandler_Metrics :: "OrcMetrics HandlerFn" where
  "MetricsHandler_Metrics req auth m =
     Some (HttpResponse_Ok (Collect_metrics m) ''text/plain; version=0.0.4; charset=utf-8'', m)"

definition MetricsHandler_routes :: "(OrcMetrics HandlerFn \<Rightarrow> 's HandlerFn) \<Rightarrow> 's Router \<Rightarrow> 's Router option" where
  "MetricsHandler_routes lift r = AddRoute ''GET'' ''/metrics'' (lift MetricsHandler_Metrics) [] r"

section \<open>Exact doubles and their printing\<close>

lemma round_half_even_int [simp]: "round_half_even (of_int k) = k"
  by (simp add: round_half_even_def)

lemma round_half_even_nat [simp]: "round_half_even (of_nat k) = int k"
  using round_half_even_int [of "int k"] by simp

lemma floorlog_eq:
  assumes "1 < b" "b ^ e \<le> n" "n < b ^ (e + 1)"
  shows "floorlog b n = e + 1"
proof -
  have "0 < b ^ e" using assms(1) by simp
  then have "0 < n" using assms(2) by linarith
  then have f: "b ^ (floorlog b n - 1) \<le> n" "n < b ^ floorlog b n" using floorlog_bounds [of n b] assms(1) by simp_all
  have "b ^ e < b ^ floorlog b n" "b ^ (floorlog b n - 1) < b ^ (e + 1)" using assms f by linarith+
  then have "e < floorlog b n" "floorlog b n - 1 < e + 1" using assms(1) power_less_imp_less_exp by blast+
  then show ?thesis by simp
qed

lemma ilog_nat:
  assumes "1 < b" "b ^ e \<le> n" "n < b ^ (e + 1)"
  shows "ilog b (of_nat n) = int e"
proof -
  have "quotient_of (of_nat n) = (int n, 1)" using quotient_of_int [of "int n"] by simp
  moreover have "floorlog b 1 = 1" using assms(1) floorlog_eq [of b 0 1] by simp
  moreover have "of_nat b ^ e \<le> (of_nat n :: rat)" using assms(2) by (metis of_nat_le_iff of_nat_power)
  ultimately show ?thesis using floorlog_eq [OF assms] by (simp add: ilog_def)
qed

lemma powi_below: "(x :: rat) \<noteq> 0 \<Longrightarrow> e \<le> k \<Longrightarrow> x powi (int e - int k) = 1 / x ^ (k - e)"
  by (simp add: power_int_diff power_diff)

lemma rnd53_nat: "n < 2 ^ 53 \<Longrightarrow> rnd53 (of_nat n) = of_nat n"
proof (cases "n = 0")
  case False
  assume n: "n < 2 ^ 53"
  obtain e where e: "2 ^ e \<le> n" "n < 2 ^ (e + 1)" using ex_power_ivl1 [of 2 n] False by auto
  have "(2 :: nat) ^ e < 2 ^ 53" using e(1) n by linarith
  then have "e < 53" by (rule power_less_imp_less_exp [rotated]) simp
  then have "e \<le> 52" by simp
  then have u: "2 powi (int e - 52) = 1 / (2 :: rat) ^ (52 - e)" using powi_below [of 2 e 52] by simp
  have "round_half_even (of_nat n / (1 / 2 ^ (52 - e))) = int (n * 2 ^ (52 - e))"
    using round_half_even_nat [of "n * 2 ^ (52 - e)"] by simp
  then show ?thesis using False ilog_nat [of 2 e n] e by (simp add: rnd53_def u)
qed (simp add: rnd53_def)

lemma strip_zeros_replicate: "strip_zeros (replicate k (CHR ''0'')) = []"
  by (simp add: strip_zeros_def)

lemma to_string_0: "to_string 0 = ''0''"
  by (simp add: to_string.simps digit_char_def) code_simp

lemma with_fraction_whole: "with_fraction (n * 10 ^ k) k = to_string n"
proof -
  have "pad_left k (to_string 0) = replicate (max k 1) (CHR ''0'')"
    by (cases k) (simp_all add: pad_left_def to_string_0 replicate_append_same)
  then show ?thesis by (simp add: with_fraction_def strip_zeros_replicate)
qed

lemma six_digits_nat:
  assumes "10 ^ e \<le> n" "n < 10 ^ (e + 1)" "e \<le> 5"
  shows "six_digits (of_nat n) = (n * 10 ^ (5 - e), int e)"
proof -
  have l: "ilog 10 (of_nat n) = int e" using ilog_nat [of 10 e n] assms(1,2) by simp
  have u: "10 powi (int e - 5) = 1 / (10 :: rat) ^ (5 - e)" using powi_below [of 10 e 5] assms(3) by simp
  have r: "round_half_even (of_nat n / (1 / 10 ^ (5 - e))) = int (n * 10 ^ (5 - e))"
    using round_half_even_nat [of "n * 10 ^ (5 - e)"] by simp
  have "n * 10 ^ (5 - e) < 10 ^ (e + 1) * 10 ^ (5 - e)" using assms(2) by simp
  also have "(10 :: nat) ^ (e + 1) * 10 ^ (5 - e) = 10 ^ 6" using assms(3) by (simp only: power_add [symmetric]) simp
  finally have "n * 10 ^ (5 - e) \<noteq> 1000000" by simp
  then show ?thesis unfolding six_digits_def l u Let_def r nat_int by simp
qed

lemma put_double_nat: "n < 1000000 \<Longrightarrow> put_double (of_nat n) = to_string n"
proof (cases "n = 0")
  case False
  assume n: "n < 1000000"
  obtain e where e: "10 ^ e \<le> n" "n < 10 ^ (e + 1)" using ex_power_ivl1 [of 10 n] False by auto
  have "(10 :: nat) ^ e < 10 ^ 6" using e(1) n by simp
  then have "e < 6" by (rule power_less_imp_less_exp [rotated]) simp
  then have "e \<le> 5" by simp
  then have "six_digits (of_nat n) = (n * 10 ^ (5 - e), int e)" "nat (5 - int e) = 5 - e" using six_digits_nat [OF e] by simp_all
  then show ?thesis using False \<open>e \<le> 5\<close> by (simp add: put_double_def put_positive_def with_fraction_whole)
qed (simp add: put_double_def to_string_0)

lemma put_double_large: "1000000 \<le> n \<Longrightarrow> CHR ''e'' \<in> set (put_double (of_nat n))"
proof -
  assume n: "1000000 \<le> n"
  obtain e where e: "10 ^ e \<le> n" "n < 10 ^ (e + 1)" using ex_power_ivl1 [of 10 n] n by auto
  have "(10 :: nat) ^ 6 < 10 ^ (e + 1)" using e(2) n by simp
  then have "6 < e + 1" by (rule power_less_imp_less_exp [rotated]) simp
  then have "6 \<le> e" by simp
  then have "6 \<le> snd (six_digits (of_nat n))" using ilog_nat [of 10 e n] e by (simp add: six_digits_def Let_def)
  then show ?thesis using n by (cases "six_digits (of_nat n)") (simp add: put_double_def put_positive_def)
qed

lemma put_double_exact: "put_double (of_nat n) = to_string n \<longleftrightarrow> n < 1000000"
proof
  assume a: "put_double (of_nat n) = to_string n"
  show "n < 1000000"
  proof (rule ccontr)
    assume "\<not> n < 1000000"
    then have "CHR ''e'' \<in> set (to_string n)" using put_double_large [of n] a by simp
    then show False using to_string_digits [of n] by (auto simp: list_all_iff is_digit_def)
  qed
qed (rule put_double_nat)

section \<open>Gauges\<close>

lemma trunc_nat [simp]: "trunc (of_nat n) = int n"
  by (simp add: trunc_def)

lemma Gauge_Set_nat:
  assumes "n < 2 ^ 43"
  shows "\<exists>g'. Gauge_Set (rnd53 (of_nat n)) g = Some g' \<and> Gauge_Value g' = of_nat n \<and> g_name g' = g_name g \<and> g_help g' = g_help g"
proof -
  have b: "1000 * n < 2 ^ 53" "n < 2 ^ 53" using assms by simp_all
  have m: "rnd53 (of_nat n * 1000) = of_nat (1000 * n)" using rnd53_nat [OF b(1)] by (simp add: mult.commute)
  have i: "to_i64 (of_nat (1000 * n)) = Some (word_of_int (int (1000 * n)))" using b(1) unfolding to_i64_def trunc_nat by simp
  have "sint (word_of_int (int (1000 * n)) :: i64) = int (1000 * n)" using b(1) wrap64_id [of "int (1000 * n)"] by (simp add: wrap64_def)
  then have "rnd53 (of_int (sint (word_of_int (int (1000 * n)) :: i64))) = of_nat (1000 * n)" using rnd53_nat [OF b(1)] by simp
  then have "Gauge_Value (g\<lparr>g_value := word_of_int (int (1000 * n))\<rparr>) = of_nat n"
    using rnd53_nat [OF b(2)] by (simp add: Gauge_Value_def)
  then show ?thesis using rnd53_nat [OF b(2)] m i by (simp add: Gauge_Set_def)
qed


section \<open>Histograms\<close>

definition hist_counts :: "rat list \<Rightarrow> rat list \<Rightarrow> u64 list" where
  "hist_counts bs vs = map (\<lambda>b. of_nat (length (filter (\<lambda>v. v \<le> b) vs))) bs @ [of_nat (length vs)]"

lemma Observe_counts:
  assumes "h_counts h = hist_counts (h_buckets h) vs" "h_count h = of_nat (length vs)"
  shows "h_counts (Observe v h) = hist_counts (h_buckets h) (vs @ [v])" "h_count (Observe v h) = of_nat (length (vs @ [v]))"
    "h_buckets (Observe v h) = h_buckets h"
proof -
  have "map2 (\<lambda>b c. if v \<le> b then c + 1 else c) bs (map (\<lambda>b. of_nat (length (filter (\<lambda>v. v \<le> b) vs))) bs)
      = map (\<lambda>b. of_nat (length (filter (\<lambda>v. v \<le> b) (vs @ [v]))) :: u64) bs" for bs
    by (induction bs) simp_all
  then show "h_counts (Observe v h) = hist_counts (h_buckets h) (vs @ [v])"
    using assms by (simp add: Observe_def hist_counts_def butlast_append)
qed (use assms in \<open>simp_all add: Observe_def\<close>)

lemma fold_Observe_counts:
  "h_counts (fold Observe vs (Histogram_new name help bs)) = hist_counts bs vs \<and>
   h_count (fold Observe vs (Histogram_new name help bs)) = of_nat (length vs) \<and>
   h_buckets (fold Observe vs (Histogram_new name help bs)) = bs"
proof (induction vs rule: rev_induct)
  case Nil
  show ?case by (simp add: Histogram_new_def hist_counts_def map_replicate_const replicate_append_same)
next
  case (snoc v vs)
  then show ?case using Observe_counts [of "fold Observe vs (Histogram_new name help bs)" vs v] by simp
qed

lemma filter_le_mono: "(b :: rat) \<le> c \<Longrightarrow> length (filter (\<lambda>v. v \<le> b) vs) \<le> length (filter (\<lambda>v. v \<le> c) vs)"
  by (induction vs) auto

lemma hist_counts_unat:
  assumes "length vs < 2 ^ 64"
  shows "map unat (hist_counts bs vs) = map (\<lambda>b. length (filter (\<lambda>v. v \<le> b) vs)) bs @ [length vs]"
proof -
  have "unat (of_nat (length (filter P vs)) :: u64) = length (filter P vs)" for P
    by (rule unat_of_nat64) (use assms length_filter_le [of P vs] in linarith)
  moreover have "unat (of_nat (length vs) :: u64) = length vs" using assms by (simp add: unat_of_nat)
  ultimately show ?thesis by (simp add: hist_counts_def)
qed

section \<open>Properties\<close>

text \<open>
  A gauge keeps a whole number below \<open>2 ^ 43\<close> exactly, and reads it back; but its text is that
  number exactly when it has at most six digits: a larger term, store size or connection count
  is exposed rounded to six digits, in scientific notation.
\<close>

theorem gauge_reading:
  assumes "n < 2 ^ 43"
  shows "\<exists>g'. Gauge_Set (rnd53 (of_nat n)) g = Some g' \<and> Gauge_Value g' = of_nat n \<and>
    (Gauge_Emit g' = help_line (g_name g) (g_help g) @ type_line (g_name g) ''gauge'' @ sample_line (g_name g) (to_string n)
       \<longleftrightarrow> n < 1000000)"
proof -
  obtain g' where g: "Gauge_Set (rnd53 (of_nat n)) g = Some g'" "Gauge_Value g' = of_nat n" "g_name g' = g_name g" "g_help g' = g_help g"
    using Gauge_Set_nat [OF assms] by blast
  have "Gauge_Emit g' = help_line (g_name g) (g_help g) @ type_line (g_name g) ''gauge'' @ sample_line (g_name g) (to_string n) \<longleftrightarrow>
      put_double (of_nat n) = to_string n"
    using g(2-4) by (simp add: Gauge_Emit_def sample_line_def)
  then show ?thesis using g put_double_exact by blast
qed

theorem gauge_reading_witness:
  "\<exists>g'. Gauge_Set (rnd53 (of_nat 1234567)) (Gauge_new ''a'' ''b'') = Some g' \<and> Gauge_Value g' = of_nat 1234567 \<and>
     Gauge_Emit g' \<noteq> help_line ''a'' ''b'' @ type_line ''a'' ''gauge'' @ sample_line ''a'' (to_string 1234567)"
proof -
  have "(1234567 :: nat) < 2 ^ 43" by simp
  from gauge_reading [OF this, of "Gauge_new ''a'' ''b''"] show ?thesis by (auto simp: Gauge_new_def)
qed

text \<open>
  The buckets of a histogram are cumulative, as the exposition format asks. After any
  observations each bucket counts the observations up to its bound and the last one all of
  them, so with ascending bounds the counts ascend.
\<close>

theorem histogram_cumulative:
  assumes "length vs < 2 ^ 64" "sorted bs" "h = fold Observe vs (Histogram_new name help bs)"
  shows "map unat (h_counts h) = map (\<lambda>b. length (filter (\<lambda>v. v \<le> b) vs)) bs @ [length vs] \<and>
    unat (h_count h) = length vs \<and> sorted (map unat (h_counts h))"
proof -
  have c: "map unat (h_counts h) = map (\<lambda>b. length (filter (\<lambda>v. v \<le> b) vs)) bs @ [length vs]"
    using fold_Observe_counts [of vs name "help" bs] hist_counts_unat [OF assms(1)] assms(3) by simp
  moreover have "sorted (map (\<lambda>b. length (filter (\<lambda>v. v \<le> b) vs)) bs @ [length vs])"
    using assms(2) by (simp add: sorted_append sorted_map sorted_wrt_mono_rel [of _ "(\<le>)"] filter_le_mono)
  moreover have "unat (h_count h) = length vs"
    using fold_Observe_counts [of vs name "help" bs] assms(1,3) by (simp add: unat_of_nat)
  ultimately show ?thesis by simp
qed

theorem histogram_cumulative_witness:
  "map unat (h_counts (fold Observe [3, 7] (Histogram_new ''h'' ''x'' [1, 5, 10]))) = [0, 1, 2, 2]"
proof -
  have "length [3 :: rat, 7] < 2 ^ 64" "sorted [1 :: rat, 5, 10]" by simp_all
  from histogram_cumulative [OF this refl, of "''h''" "''x''"] show ?thesis by simp
qed

end
