(* ===== verification/Server.thy ===== *)
theory Server
  imports Handlers TcpServer Config Metrics "HOL-Library.Sublist"
begin

text \<open>
  \<open>main.cpp\<close>: the process. The configuration becomes the configurations of the parts, the
  node is recovered from the log, the router is filled with the routes of all handlers, and
  the server's request handler counts a request and dispatches it. \<open>None\<close> is an exception
  nothing catches, which ends the process.
\<close>

section \<open>Start-up\<close>

text \<open>\<open>argv[0]\<close> is the program; the last \<open>--config\<close> with an argument behind it wins.\<close>

fun config_path :: "string list \<Rightarrow> string option \<Rightarrow> string option" where
  "config_path (a # b # as) p = config_path (b # as) (if a = ''--config'' then Some b else p)"
| "config_path _ p = p"

datatype LogLevel = Trace | Debug | Info | Warn | Error | Fatal

definition log_level :: "string \<Rightarrow> LogLevel" where
  "log_level s = (if s = ''debug'' then Debug else if s = ''warn'' then Warn else if s = ''error'' then Error else Info)"

definition raft_config :: "NodeConfig \<Rightarrow> RaftConfig" where
  "raft_config cfg = RaftConfig_default\<lparr>cf_nodeId := nc_nodeId cfg, cf_raftPort := srv_raftPort (nc_server cfg),
     cf_electionTimeoutMin := rt_electionTimeoutMin (nc_raft cfg), cf_electionTimeoutMax := rt_electionTimeoutMax (nc_raft cfg),
     cf_heartbeatInterval := rt_heartbeatInterval (nc_raft cfg), cf_rpcTimeout := rt_rpcTimeout (nc_raft cfg),
     cf_peers := map (\<lambda>p. \<lparr>pi_id = pc_id p, pi_host = pc_host p, pi_port = pc_raftPort p\<rparr>) (nc_peers cfg)\<rparr>"

definition jwt_config :: "NodeConfig \<Rightarrow> JwtConfig" where
  "jwt_config cfg = JwtConfig_default\<lparr>jc_algorithm := au_jwtAlgorithm (nc_auth cfg), jc_secret := au_jwtSecret (nc_auth cfg),
     jc_issuer := au_jwtIssuer (nc_auth cfg)\<rparr>"

definition server_config :: "NodeConfig \<Rightarrow> TcpServerConfig" where
  "server_config cfg = TcpServerConfig_default\<lparr>sc_bindAddress := srv_bindAddress (nc_server cfg),
     sc_port := srv_clientPort (nc_server cfg), sc_numIoThreads := srv_numIoThreads (nc_server cfg)\<rparr>"

text \<open>What the parts of the process share: the node with its store and log, and the metrics.\<close>

record app =
  a_raft :: RaftNode
  a_metrics :: OrcMetrics

definition app_start :: "'y yaml_ops \<Rightarrow> 'j json_ops \<Rightarrow> environment \<Rightarrow> (string \<Rightarrow> (string \<times> u8 list) list) \<Rightarrow> time \<Rightarrow>
    string list \<Rightarrow> (NodeConfig \<times> LogLevel \<times> app) option" where
  "app_start Y J getenv files now argv =
     do { cfg \<leftarrow> Config_Load Y getenv (config_path (tl argv) None);
          wal \<leftarrow> (case WriteAheadLog_new (files (st_dataDir (nc_storage cfg) @ ''/wal'')) (64 * 1024 * 1024) of
            Inl _ \<Rightarrow> None | Inr w \<Rightarrow> Some w);
          n \<leftarrow> RaftNode_new J now (raft_config cfg) KVStore_new (Some wal);
          Some (cfg, log_level (nc_logLevel cfg), \<lparr>a_raft = RaftNode_Start n, a_metrics = OrcMetrics_new\<rparr>) }"

text \<open>The callback of the apply loop.\<close>

definition apply_callback :: "LogEntry \<Rightarrow> OrcMetrics \<Rightarrow> OrcMetrics option" where
  "apply_callback e m =
     do { c \<leftarrow> Counter_Inc 1 (raftCommittedEntries m);
          p \<leftarrow> (if le_opType e = OpPut then Counter_Inc 1 (kvPuts m) else Some (kvPuts m));
          d \<leftarrow> (if le_opType e = OpDelete then Counter_Inc 1 (kvDeletes m) else Some (kvDeletes m));
          Some (m\<lparr>raftCommittedEntries := c, kvPuts := p, kvDeletes := d\<rparr>) }"

section \<open>Requests\<close>

definition on_raft :: "RaftNode HandlerFn \<Rightarrow> app HandlerFn" where
  "on_raft h req auth a = map_option (\<lambda>(resp, n). (resp, a\<lparr>a_raft := n\<rparr>)) (h req auth (a_raft a))"

definition on_metrics :: "OrcMetrics HandlerFn \<Rightarrow> app HandlerFn" where
  "on_metrics h req auth a = map_option (\<lambda>(resp, m). (resp, a\<lparr>a_metrics := m\<rparr>)) (h req auth (a_metrics a))"

definition app_validator :: "'k crypto_ops \<Rightarrow> NodeConfig \<Rightarrow> 'k JwtValidator option" where
  "app_validator X cfg = (case JwtValidator_new X (jwt_config cfg) of Inl _ \<Rightarrow> None | Inr v \<Rightarrow> Some v)"

definition app_router :: "'k crypto_ops \<Rightarrow> 'j json_ops \<Rightarrow> env \<Rightarrow> int \<Rightarrow> NodeConfig \<Rightarrow> app Router option" where
  "app_router X J E now cfg =
     do { v \<leftarrow> app_validator X cfg;
          let r = SetAuthMiddleware (MakeMiddleware X J now (AuthMiddleware_new v TokenStore_new)) Router_new;
          r1 \<leftarrow> HealthHandler_routes J on_raft r;
          r2 \<leftarrow> KVHandler_routes J E on_raft r1;
          r3 \<leftarrow> WatchHandler_routes J E on_raft r2;
          r4 \<leftarrow> ClusterHandler_routes J on_raft r3;
          MetricsHandler_routes on_metrics r4 }"

definition serve :: "'k crypto_ops \<Rightarrow> 'j json_ops \<Rightarrow> env \<Rightarrow> int \<Rightarrow> NodeConfig \<Rightarrow> app RequestHandler" where
  "serve X J E now cfg req a =
     do { r \<leftarrow> app_router X J E now cfg;
          c \<leftarrow> Counter_Inc 1 (httpRequestsTotal (a_metrics a));
          Dispatch J r req AuthContext_default (a\<lparr>a_metrics := (a_metrics a)\<lparr>httpRequestsTotal := c\<rparr>\<rparr>) }"

text \<open>One turn of the loop that refreshes the gauges.\<close>

definition refresh_metrics :: "RaftNode \<Rightarrow> TcpServer \<Rightarrow> OrcMetrics \<Rightarrow> OrcMetrics option" where
  "refresh_metrics n sv m =
     do { t \<leftarrow> Gauge_Set (double_of_u64 (GetCurrentTerm n)) (raftCurrentTerm m);
          l \<leftarrow> Gauge_Set (if IsLeader n then 1 else 0) (raftIsLeader m);
          s \<leftarrow> Gauge_Set (rnd53 (of_nat (KVStore_Size (store n)))) (kvStoreSize m);
          c \<leftarrow> Gauge_Set (rnd53 (of_nat (ActiveConnections sv))) (activeConnections m);
          Some (m\<lparr>raftCurrentTerm := t, raftIsLeader := l, kvStoreSize := s, activeConnections := c\<rparr>) }"

text \<open>The end of \<open>main\<close>, after a signal.\<close>

definition app_stop :: "TcpServer \<times> app \<Rightarrow> TcpServer \<times> app" where
  "app_stop = (\<lambda>(sv, a). (TcpServer_Stop sv, a\<lparr>a_raft := RaftNode_Stop (a_raft a)\<rparr>))"

section \<open>The routes of the process\<close>

definition route_of :: "string \<Rightarrow> string \<Rightarrow> 's HandlerFn \<Rightarrow> string list \<Rightarrow> 's Route" where
  "route_of m p h roles = \<lparr>rt_method = m, rt_pattern = p, rt_regex = pattern_items p, rt_paramNames = pattern_names p,
     rt_handler = h, rt_requiredRoles = roles\<rparr>"

lemma AddRoute_eq: "AddRoute m p h roles r = Some (r\<lparr>routes := routes r @ [route_of m p h roles]\<rparr>)"
  by (simp add: AddRoute_def CompilePattern_eq route_of_def)

lemma app_router_eq:
  "app_router X J E now cfg = map_option (\<lambda>v. \<lparr>routes =
     [route_of ''GET'' ''/healthz'' (on_raft (HealthHandler_Liveness J)) [],
      route_of ''GET'' ''/readyz'' (on_raft (HealthHandler_Readiness J)) [],
      route_of ''POST'' ''/v1/kv/{key}/cas'' (on_raft (KVHandler_CompareAndSwap J E)) [''write''],
      route_of ''GET'' ''/v1/kv'' (on_raft (KVHandler_List J E)) [''read''],
      route_of ''GET'' ''/v1/kv/{key}'' (on_raft (KVHandler_Get J E)) [''read''],
      route_of ''PUT'' ''/v1/kv/{key}'' (on_raft (KVHandler_Put J E)) [''write''],
      route_of ''DELETE'' ''/v1/kv/{key}'' (on_raft (KVHandler_Delete J E)) [''write''],
      route_of ''GET'' ''/v1/watch/{key}'' (on_raft (WatchHandler_Watch J E)) [''read''],
      route_of ''GET'' ''/v1/cluster/status'' (on_raft (ClusterHandler_Status J)) [''read''],
      route_of ''GET'' ''/v1/cluster/leader'' (on_raft (ClusterHandler_Leader J)) [],
      route_of ''GET'' ''/metrics'' (on_metrics MetricsHandler_Metrics) []],
     authMiddleware = Some (MakeMiddleware X J now (AuthMiddleware_new v TokenStore_new))\<rparr>) (app_validator X cfg)"
  by (cases "app_validator X cfg")
    (simp_all add: app_router_def HealthHandler_routes_def KVHandler_routes_def WatchHandler_routes_def ClusterHandler_routes_def
      MetricsHandler_routes_def AddRoute_eq SetAuthMiddleware_def Router_new_def)

section \<open>Who may change the node\<close>

text \<open>The handlers that only read, whatever the other threads do.\<close>

definition reader :: "app HandlerFn \<Rightarrow> bool" where
  "reader h \<longleftrightarrow> (\<forall>req auth a resp a'. h req auth a = Some (resp, a') \<longrightarrow> a_raft a' = a_raft a)"

lemma reader_on_raft: "(\<And>req auth n resp n'. h req auth n = Some (resp, n') \<Longrightarrow> n' = n) \<Longrightarrow> reader (on_raft h)"
  by (auto simp: reader_def on_raft_def)

lemma readers [simp]:
  "reader (on_raft (HealthHandler_Liveness J))" "reader (on_raft (HealthHandler_Readiness J))"
  "reader (on_raft (KVHandler_List J E))" "reader (on_raft (KVHandler_Get J E))"
  "reader (on_raft (ClusterHandler_Status J))" "reader (on_raft (ClusterHandler_Leader J))" "reader (on_metrics MetricsHandler_Metrics)"
  by (auto intro!: reader_on_raft simp: HealthHandler_Liveness_def HealthHandler_Readiness_def KVHandler_List_def KVHandler_Get_def
    ClusterHandler_Status_def ClusterHandler_Leader_def respond_def Let_def split: bind_splits)
    (auto simp: reader_def on_metrics_def MetricsHandler_Metrics_def)

definition writer_route :: "app Route \<Rightarrow> bool" where
  "writer_route route \<longleftrightarrow> rt_method route \<in> {''PUT'', ''DELETE'', ''POST''} \<and> rt_requiredRoles route = [''write''] \<or>
     rt_method route = ''GET'' \<and> rt_pattern route = ''/v1/watch/{key}'' \<and> rt_requiredRoles route = [''read'']"

lemma route_of_simps [simp]:
  "rt_method (route_of m p h rs) = m" "rt_pattern (route_of m p h rs) = p" "rt_handler (route_of m p h rs) = h"
  "rt_requiredRoles (route_of m p h rs) = rs" "rt_regex (route_of m p h rs) = pattern_items p" "rt_paramNames (route_of m p h rs) = pattern_names p"
  by (simp_all add: route_of_def)

definition route_ok :: "app Route \<Rightarrow> bool" where
  "route_ok route \<longleftrightarrow> (reader (rt_handler route) \<or> writer_route route) \<and> rt_regex route = pattern_items (rt_pattern route) \<and> rt_method route \<noteq> ''*''"

lemma route_ok_reader: "reader h \<Longrightarrow> m \<noteq> ''*'' \<Longrightarrow> route_ok (route_of m p h rs)"
  by (simp add: route_ok_def)

lemma route_ok_writer: "m \<in> {''PUT'', ''DELETE'', ''POST''} \<Longrightarrow> route_ok (route_of m p h [''write''])"
  by (auto simp: route_ok_def writer_route_def)

lemma route_ok_watch: "route_ok (route_of ''GET'' ''/v1/watch/{key}'' h [''read''])"
  by (simp add: route_ok_def writer_route_def)

lemma app_routes:
  assumes "app_router X J E now cfg = Some r" "route \<in> set (routes r)"
  shows "route_ok route"
proof -
  have "list_all route_ok (routes r)"
    using assms(1) by (auto simp: app_router_eq route_ok_reader route_ok_writer route_ok_watch)
  then show ?thesis using assms(2) by (simp add: list_all_iff)
qed

lemma changing_route:
  assumes "app_router X J E now cfg = Some r" "route \<in> set (routes r)"
    "rt_handler route req auth a = Some (resp, a')" "a_raft a' \<noteq> a_raft a"
  shows "writer_route route \<and> rt_regex route = pattern_items (rt_pattern route) \<and> rt_method route \<noteq> ''*''"
  using app_routes [OF assms(1,2)] assms(3,4) unfolding reader_def route_ok_def by blast

lemma watch_items: "pattern_items ''/v1/watch/{key}'' = map RxChar ''/v1/watch/'' @ RxGroup # map RxChar []"
  by simp

lemma kv_items: "pattern_items ''/v1/kv/{key}'' = map RxChar ''/v1/kv/'' @ RxGroup # map RxChar []" "pattern_names ''/v1/kv/{key}'' = [''key'']"
  by simp_all

lemma serve_router:
  assumes "serve X J E now cfg req a = Some (resp, a')"
  obtains v r c where "app_validator X cfg = Some v" "app_router X J E now cfg = Some r"
    "authMiddleware r = Some (MakeMiddleware X J now (AuthMiddleware_new v TokenStore_new))"
    "Dispatch J r req AuthContext_default (a\<lparr>a_metrics := (a_metrics a)\<lparr>httpRequestsTotal := c\<rparr>\<rparr>) = Some (resp, a')"
  using assms by (auto simp: serve_def app_router_eq split: bind_splits)

lemma serve_change:
  assumes "serve X J E now cfg req a = Some (resp, a')" "a_raft a' \<noteq> a_raft a"
  shows "\<exists>v token c. app_validator X cfg = Some v \<and> GetHeader ''Authorization'' req = ''Bearer '' @ token \<and> accepts X J now v token c \<and>
    (rq_method req \<in> {''PUT'', ''DELETE'', ''POST''} \<and> (''write'' \<in> set (cl_roles c) \<or> ''admin'' \<in> set (cl_roles c)) \<or>
     rq_method req = ''GET'' \<and> has_prefix ''/v1/watch/'' (rq_path req) \<and> (''read'' \<in> set (cl_roles c) \<or> ''admin'' \<in> set (cl_roles c)))"
proof -
  obtain v r k where v: "app_validator X cfg = Some v" and r: "app_router X J E now cfg = Some r"
    and mw: "authMiddleware r = Some (MakeMiddleware X J now (AuthMiddleware_new v TokenStore_new))"
    and d: "Dispatch J r req AuthContext_default (a\<lparr>a_metrics := (a_metrics a)\<lparr>httpRequestsTotal := k\<rparr>\<rparr>) = Some (resp, a')"
    using serve_router [OF assms(1)] .
  let ?a = "a\<lparr>a_metrics := (a_metrics a)\<lparr>httpRequestsTotal := k\<rparr>\<rparr>"
  have "a' \<noteq> ?a" using assms(2) by auto
  from Dispatch_changed [OF d this] mw obtain auth' route where
    pass: "MakeMiddleware X J now (AuthMiddleware_new v TokenStore_new) req AuthContext_default = Some (auth', None)"
    and f: "find (\<lambda>route. selects route req) (routes r) = Some route" and au: "authorized route auth'"
    and h: "rt_handler route (req\<lparr>rq_pathParams := the (MatchRoute route (rq_path req))\<rparr>) auth' ?a = Some (resp, a')" by auto
  have sel: "route \<in> set (routes r)" "selects route req" using f by (auto simp: find_Some_iff)
  have w: "writer_route route" "rt_regex route = pattern_items (rt_pattern route)" "rt_method route = rq_method req"
    using changing_route [OF r sel(1) h] assms(2) sel(2) by (auto simp: selects_def)
  obtain rl where rl: "rt_requiredRoles route = [rl]" "HasRole rl auth'" using w(1) au by (auto simp: writer_route_def authorized_def)
  then have "ac_roles auth' \<noteq> []" by (auto simp: HasRole_def)
  then obtain token c where t: "GetHeader ''Authorization'' req = ''Bearer '' @ token" "accepts X J now v token c" "auth' = granted token c"
    using pass [unfolded MakeMiddleware_pass] by (auto simp: AuthMiddleware_new_def AuthContext_default_def split: if_splits)
  have "has_prefix ''/v1/watch/'' (rq_path req)" if "rt_pattern route = ''/v1/watch/{key}''"
  proof -
    from sel(2) that w(2) obtain cs where "regex_match (pattern_items ''/v1/watch/{key}'') (rq_path req) = Some cs"
      by (auto simp: selects_def MatchRoute_def split: option.splits)
    then show ?thesis unfolding watch_items regex_match_single by (auto simp: has_prefix_def substr_def)
  qed
  with w(1,3) rl t v show ?thesis by (auto simp: writer_route_def HasRole_def granted_def)
qed

text \<open>No client holds an accepted token with a role of the API, at any time.\<close>

definition no_token :: "'k crypto_ops \<Rightarrow> 'j json_ops \<Rightarrow> NodeConfig \<Rightarrow> bool" where
  "no_token X J cfg \<longleftrightarrow> (\<forall>v now token c. app_validator X cfg = Some v \<and> accepts X J now v token c \<longrightarrow>
     ''read'' \<notin> set (cl_roles c) \<and> ''write'' \<notin> set (cl_roles c) \<and> ''admin'' \<notin> set (cl_roles c))"

text \<open>The handler of a running server: at each call some time of day and some activity of the other threads.\<close>

definition serves :: "'k crypto_ops \<Rightarrow> 'j json_ops \<Rightarrow> NodeConfig \<Rightarrow> app RequestHandler \<Rightarrow> bool" where
  "serves X J cfg handler \<longleftrightarrow> (\<forall>req a. \<exists>E now. handler req a = serve X J E now cfg req a)"

lemma serves_keeps:
  assumes "serves X J cfg handler" "no_token X J cfg"
  shows "handler_keeps a_raft handler"
  unfolding handler_keeps_def
proof (intro allI impI, rule ccontr)
  fix req a resp a' assume h: "handler req a = Some (resp, a')" and ne: "a_raft a' \<noteq> a_raft a"
  obtain E now where "serve X J E now cfg req a = Some (resp, a')" using assms(1) h unfolding serves_def by metis
  from serve_change [OF this ne] show False using assms(2) unfolding no_token_def by blast
qed

text \<open>
  C11: only a request with an accepted token changes the node of a running server. Whatever
  bytes a client sends, if handling a request changed the node, the request carried a bearer
  token accepted under the configured key, and either it is a put, a delete or a
  compare-and-swap and the token lists \<open>write\<close> or \<open>admin\<close>, or it is a watch and the token lists
  \<open>read\<close> or \<open>admin\<close>.
\<close>

theorem change_needs_token:
  assumes "serve X J E now cfg req a = Some (resp, a')" "a_raft a' \<noteq> a_raft a"
  shows "\<exists>v token c. app_validator X cfg = Some v \<and> GetHeader ''Authorization'' req = ''Bearer '' @ token \<and> accepts X J now v token c \<and>
    (rq_method req \<in> {''PUT'', ''DELETE'', ''POST''} \<and> (''write'' \<in> set (cl_roles c) \<or> ''admin'' \<in> set (cl_roles c)) \<or>
     rq_method req = ''GET'' \<and> has_prefix ''/v1/watch/'' (rq_path req) \<and> (''read'' \<in> set (cl_roles c) \<or> ''admin'' \<in> set (cl_roles c)))"
  by (rule serve_change [OF assms])

section \<open>Public keys\<close>

lemma rs256_validator:
  assumes "au_jwtAlgorithm (nc_auth cfg) = ''RS256''"
  shows "\<exists>v. app_validator X cfg = Some v \<and> (\<forall>token c. \<not> accepts X J now v token c)"
  using assms by (auto simp: app_validator_def JwtValidator_new_def jwt_config_def JwtConfig_default_def accepts_def signed_by_def)

lemma rs256_no_token: "au_jwtAlgorithm (nc_auth cfg) = ''RS256'' \<Longrightarrow> no_token X J cfg"
  using rs256_validator [of cfg X J] unfolding no_token_def by (metis option.inject)

lemma Counter_Inc_one: "Counter_Inc 1 c = Some (c\<lparr>c_value := c_value c + 1\<rparr>)"
  by (simp add: Counter_Inc_def to_u64_def trunc_def)

lemma Dispatch_rejected:
  assumes "authMiddleware r = Some mw" "mw req auth = Some (auth', Some resp)"
  shows "Dispatch J r req auth s = Some (resp, s)"
  using assms by (simp add: Dispatch_def)

context json_lib
begin

lemma Unauthorized_some: "utf8_valid s \<Longrightarrow> \<exists>resp. HttpResponse_Unauthorized J s = Some resp \<and> rs_statusCode resp = 401"
proof -
  assume "utf8_valid s"
  then have "built J (j_obj J [(''error'', j_str J s)])" by (intro built_obj) (auto intro: built_intros)
  then obtain b where "j_dump J (j_obj J [(''error'', j_str J s)]) = Some b" by (rule dumpE)
  then show ?thesis by (simp add: HttpResponse_Unauthorized_def JsonErrorBody_def)
qed

lemma middleware_rejects:
  assumes "\<forall>token c. \<not> accepts X J now (am_validator m) token c" "\<not> is_public (am_publicPaths m) (rq_path req)"
  shows "\<exists>auth' resp. MakeMiddleware X J now m req auth = Some (auth', Some resp) \<and> rs_statusCode resp = 401"
proof -
  have "\<not> ac_authenticated (Validate X J now (am_validator m) token)" for token
    using Validate_accepts [of X J now "am_validator m" token] assms(1) by (auto simp: AuthContext_default_def)
  then show ?thesis
    using assms(2) Unauthorized_some [of "''missing Authorization header''"] Unauthorized_some [of "''invalid or expired token''"]
    by (auto simp: MakeMiddleware_def Let_def split: option.splits)
qed

end

text \<open>
  With \<open>RS256\<close> nobody gets in. The key file of the configuration is never read, so the
  validator has no key: every request outside the public paths is answered 401 and changes
  nothing but the request counter, however its token was signed.
\<close>

theorem rs256_locked_out:
  assumes "json_lib J" "au_jwtAlgorithm (nc_auth cfg) = ''RS256''" "\<not> is_public [''/healthz'', ''/readyz'', ''/metrics''] (rq_path req)"
  shows "\<exists>resp a'. serve X J E now cfg req a = Some (resp, a') \<and> rs_statusCode resp = 401 \<and> a_raft a' = a_raft a"
proof -
  obtain v where v: "app_validator X cfg = Some v" "\<forall>token c. \<not> accepts X J now v token c" using rs256_validator [OF assms(2)] by blast
  let ?m = "AuthMiddleware_new v TokenStore_new"
  have m: "am_validator ?m = v" "am_publicPaths ?m = [''/healthz'', ''/readyz'', ''/metrics'']" by (simp_all add: AuthMiddleware_new_def)
  obtain auth' resp where d: "MakeMiddleware X J now ?m req AuthContext_default = Some (auth', Some resp)" "rs_statusCode resp = 401"
    using json_lib.middleware_rejects [OF assms(1), of X now ?m req AuthContext_default] v(2) assms(3) unfolding m by blast
  obtain r where r: "app_router X J E now cfg = Some r" "authMiddleware r = Some (MakeMiddleware X J now ?m)"
    using v(1) by (simp add: app_router_eq)
  show ?thesis using Dispatch_rejected [where J = J, OF r(2) d(1)] r(1) d(2) by (simp add: serve_def Counter_Inc_one)
qed

section \<open>Bodies that are not what a handler expects\<close>

lemma kv_path_private: "\<not> is_public [''/healthz'', ''/readyz'', ''/metrics''] (''/v1/'' @ rest)"
  by (simp add: is_public_def has_prefix_def substr_def)

lemma kv_path_match:
  assumes "capture_ok key"
  shows "MatchRoute (route_of m ''/v1/kv/{key}'' h rs) (''/v1/kv/'' @ key) = Some [(''key'', key)]"
  using regex_match_single [of "''/v1/kv/''" "[]" "''/v1/kv/'' @ key" "[key]"] assms
  unfolding MatchRoute_def route_of_simps kv_items by simp

lemma Put_not_string:
  assumes "path_key req = Some key" "key \<noteq> []" "j_parse J (rq_body req) = Some body" "j_field J body ''value'' = Some j" "j_get_str J j = None"
  shows "KVHandler_Put J E req auth n = None"
  using assms by (simp add: KVHandler_Put_def)

lemma put_dispatched:
  assumes "app_validator X cfg = Some v" "GetHeader ''Authorization'' req = ''Bearer '' @ token" "accepts X J now v token c"
    "''write'' \<in> set (cl_roles c)" "rq_method req = ''PUT''" "rq_path req = ''/v1/kv/'' @ key" "capture_ok key"
  shows "\<exists>r. app_router X J E now cfg = Some r \<and>
    Dispatch J r req AuthContext_default s = on_raft (KVHandler_Put J E) (req\<lparr>rq_pathParams := [(''key'', key)]\<rparr>) (granted token c) s"
proof -
  have "\<not> is_public (am_publicPaths (AuthMiddleware_new v TokenStore_new)) (rq_path req)"
    using kv_path_private [of "''kv/'' @ key"] assms(6) by (simp add: AuthMiddleware_new_def)
  then have pass: "MakeMiddleware X J now (AuthMiddleware_new v TokenStore_new) req AuthContext_default = Some (granted token c, None)"
    unfolding MakeMiddleware_pass using assms(2,3) by (auto simp: AuthMiddleware_new_def)
  have au: "authorized (route_of m p h [''write'']) (granted token c)" for m p and h :: "app HandlerFn"
    using assms(4) by (simp add: authorized_def HasRole_def granted_def)
  have match: "MatchRoute (route_of m ''/v1/kv/{key}'' h rs) (rq_path req) = Some [(''key'', key)]" for m rs and h :: "app HandlerFn"
    unfolding assms(6) by (rule kv_path_match [OF assms(7)])
  show ?thesis
    using assms(1,5) pass match au by (simp add: app_router_eq Dispatch_def del: pattern_items.simps pattern_names.simps)
qed

lemma serve_put:
  assumes "app_validator X cfg = Some v" "GetHeader ''Authorization'' req = ''Bearer '' @ token" "accepts X J now v token c"
    "''write'' \<in> set (cl_roles c)" "rq_method req = ''PUT''" "rq_path req = ''/v1/kv/'' @ key" "capture_ok key"
  shows "\<exists>b. a_raft b = a_raft a \<and> serve X J E now cfg req a =
    on_raft (KVHandler_Put J E) (req\<lparr>rq_pathParams := [(''key'', key)]\<rparr>) (granted token c) b"
proof -
  let ?b = "a\<lparr>a_metrics := (a_metrics a)\<lparr>httpRequestsTotal := (httpRequestsTotal (a_metrics a))\<lparr>c_value := c_value (httpRequestsTotal (a_metrics a)) + 1\<rparr>\<rparr>\<rparr>"
  obtain r where "app_router X J E now cfg = Some r" "Dispatch J r req AuthContext_default ?b =
      on_raft (KVHandler_Put J E) (req\<lparr>rq_pathParams := [(''key'', key)]\<rparr>) (granted token c) ?b"
    using put_dispatched [OF assms] by blast
  then have "serve X J E now cfg req a = on_raft (KVHandler_Put J E) (req\<lparr>rq_pathParams := [(''key'', key)]\<rparr>) (granted token c) ?b"
    by (simp add: serve_def Counter_Inc_one)
  then show ?thesis by (intro exI [of _ ?b]) simp
qed

text \<open>
  C39: one request can end the process. A client that may write sends a put whose \<open>value\<close> is not
  a string: the conversion throws in the handler, and nothing between the handler and the
  event loop catches it.
\<close>

theorem bad_put_ends_process:
  assumes "map_of (sv_connections sv) fd = Some con" "idle con" "client_bytes input req"
    "app_validator X cfg = Some v" "GetHeader ''Authorization'' req = ''Bearer '' @ token" "accepts X J now v token c"
    "''write'' \<in> set (cl_roles c)" "rq_method req = ''PUT''" "rq_path req = ''/v1/kv/'' @ key" "capture_ok key"
    "j_parse J (rq_body req) = Some body" "j_field J body ''value'' = Some j" "j_get_str J j = None"
  shows "IoLoop_event (serve X J E now cfg) t (read_event fd input) sv a = None"
proof -
  have k: "key \<noteq> []" using assms(10) by (simp add: capture_ok_def)
  have "KVHandler_Put J E (req\<lparr>rq_pathParams := [(''key'', key)]\<rparr>) auth n = None" for auth n
    by (rule Put_not_string [OF _ k _ assms(12,13)]) (simp_all add: path_key_def assms(11))
  then have s: "serve X J E now cfg req a = None" using serve_put [OF assms(4-10), of a E] by (auto simp: on_raft_def)
  obtain p where "Feed input HttpParser_new = Inr (p, ParseComplete)" "TakeRequest p = (req, HttpParser_new)"
    using client_bytes_parsed [OF assms(3)] .
  then show ?thesis using assms(1,2) s by (simp add: IoLoop_event_def read_event_def idle_def answer_request_def)
qed

section \<open>The exposed metrics\<close>

lemma sublist_concat: "x \<in> set xs \<Longrightarrow> sublist x (concat xs)"
  by (auto dest!: split_list)

lemma Gauge_line: "sublist (sample_line (g_name g) (put_double (Gauge_Value g))) (Gauge_Emit g)"
proof -
  have "Gauge_Emit g = concat [help_line (g_name g) (g_help g), type_line (g_name g) ''gauge'', sample_line (g_name g) (put_double (Gauge_Value g))]"
    by (simp add: Gauge_Emit_def)
  then show ?thesis by (metis sublist_concat list.set_intros(1,2))
qed

lemma Collect_gauges:
  assumes "g \<in> {raftCurrentTerm m, raftIsLeader m, activeConnections m, kvStoreSize m}"
  shows "sublist (Gauge_Emit g) (Collect_metrics m)"
proof -
  have "Collect_metrics m = concat [Counter_Emit (raftElectionsTotal m), Gauge_Emit (raftCurrentTerm m), Gauge_Emit (raftIsLeader m),
      Counter_Emit (raftCommittedEntries m), Histogram_Emit (raftReplicationLatency m), Counter_Emit (httpRequestsTotal m),
      Histogram_Emit (httpRequestDuration m), Gauge_Emit (activeConnections m), Counter_Emit (kvPuts m), Counter_Emit (kvGets m),
      Counter_Emit (kvDeletes m), Gauge_Emit (kvStoreSize m), Counter_Emit (walBytesWritten m)]"
    by (simp add: Collect_metrics_def)
  moreover have "Gauge_Emit g \<in> set [Counter_Emit (raftElectionsTotal m), Gauge_Emit (raftCurrentTerm m), Gauge_Emit (raftIsLeader m),
      Counter_Emit (raftCommittedEntries m), Histogram_Emit (raftReplicationLatency m), Counter_Emit (httpRequestsTotal m),
      Histogram_Emit (httpRequestDuration m), Gauge_Emit (activeConnections m), Counter_Emit (kvPuts m), Counter_Emit (kvGets m),
      Counter_Emit (kvDeletes m), Gauge_Emit (kvStoreSize m), Counter_Emit (walBytesWritten m)]"
    using assms by auto
  ultimately show ?thesis using sublist_concat by metis
qed

lemma exposed_gauge:
  assumes "Gauge_Value g = of_nat k" "k < 1000000" "g \<in> {raftCurrentTerm m, raftIsLeader m, activeConnections m, kvStoreSize m}"
  shows "sublist (sample_line (g_name g) (to_string k)) (Collect_metrics m)"
  using Gauge_line [of g] Collect_gauges [OF assms(3)] assms(1) put_double_nat [OF assms(2)] sublist_order.order_trans by fastforce

lemma refresh_values:
  assumes "unat (GetCurrentTerm n) < 1000000" "KVStore_Size (store n) < 1000000" "ActiveConnections sv < 1000000"
  shows "\<exists>m'. refresh_metrics n sv m = Some m' \<and>
    Gauge_Value (raftCurrentTerm m') = of_nat (unat (GetCurrentTerm n)) \<and> g_name (raftCurrentTerm m') = g_name (raftCurrentTerm m) \<and>
    Gauge_Value (raftIsLeader m') = of_nat (if IsLeader n then 1 else 0) \<and> g_name (raftIsLeader m') = g_name (raftIsLeader m) \<and>
    Gauge_Value (kvStoreSize m') = of_nat (KVStore_Size (store n)) \<and> g_name (kvStoreSize m') = g_name (kvStoreSize m) \<and>
    Gauge_Value (activeConnections m') = of_nat (ActiveConnections sv) \<and> g_name (activeConnections m') = g_name (activeConnections m)"
proof -
  have b: "k < 1000000 \<Longrightarrow> k < 2 ^ 43" for k :: nat by simp
  have l: "(if IsLeader n then 1 else 0) = rnd53 (of_nat (if IsLeader n then 1 else 0))" "(if IsLeader n then 1 else 0) < (2 :: nat) ^ 43"
    by (simp_all add: rnd53_nat del: of_nat_1)
  obtain t where t: "Gauge_Set (rnd53 (of_nat (unat (GetCurrentTerm n)))) (raftCurrentTerm m) = Some t"
      "Gauge_Value t = of_nat (unat (GetCurrentTerm n))" "g_name t = g_name (raftCurrentTerm m)"
    using Gauge_Set_nat [OF b [OF assms(1)]] by blast
  obtain d where d: "Gauge_Set (rnd53 (of_nat (if IsLeader n then 1 else 0))) (raftIsLeader m) = Some d"
      "Gauge_Value d = of_nat (if IsLeader n then 1 else 0)" "g_name d = g_name (raftIsLeader m)"
    using Gauge_Set_nat [OF l(2)] by blast
  obtain s where s: "Gauge_Set (rnd53 (of_nat (KVStore_Size (store n)))) (kvStoreSize m) = Some s"
      "Gauge_Value s = of_nat (KVStore_Size (store n))" "g_name s = g_name (kvStoreSize m)"
    using Gauge_Set_nat [OF b [OF assms(2)]] by blast
  obtain c where c: "Gauge_Set (rnd53 (of_nat (ActiveConnections sv))) (activeConnections m) = Some c"
      "Gauge_Value c = of_nat (ActiveConnections sv)" "g_name c = g_name (activeConnections m)"
    using Gauge_Set_nat [OF b [OF assms(3)]] by blast
  have "refresh_metrics n sv m = Some (m\<lparr>raftCurrentTerm := t, raftIsLeader := d, kvStoreSize := s, activeConnections := c\<rparr>)"
    unfolding refresh_metrics_def double_of_u64_def l(1) t(1) d(1) s(1) c(1) by simp
  then show ?thesis using t(2,3) d(2,3) s(2,3) c(2,3) by simp
qed

lemma metrics_path:
  "MatchRoute (route_of m ''/healthz'' h rs) ''/metrics'' = None" "MatchRoute (route_of m ''/readyz'' h rs) ''/metrics'' = None"
  "MatchRoute (route_of m ''/v1/kv'' h rs) ''/metrics'' = None" "MatchRoute (route_of m ''/v1/kv/{key}'' h rs) ''/metrics'' = None"
  "MatchRoute (route_of m ''/v1/watch/{key}'' h rs) ''/metrics'' = None" "MatchRoute (route_of m ''/v1/cluster/status'' h rs) ''/metrics'' = None"
  "MatchRoute (route_of m ''/v1/cluster/leader'' h rs) ''/metrics'' = None" "MatchRoute (route_of m ''/metrics'' h rs) ''/metrics'' = Some []"
  by (simp_all add: MatchRoute_def)

lemma metrics_served:
  assumes "app_validator X cfg = Some v" "rq_method req = ''GET''" "rq_path req = ''/metrics''"
  shows "\<exists>a'. serve X J E now cfg req a = Some (HttpResponse_Ok (Collect_metrics (a_metrics a')) ''text/plain; version=0.0.4; charset=utf-8'', a') \<and>
    (\<exists>c. a' = a\<lparr>a_metrics := (a_metrics a)\<lparr>httpRequestsTotal := c\<rparr>\<rparr>)"
proof -
  have pass: "MakeMiddleware X J now (AuthMiddleware_new v TokenStore_new) req AuthContext_default =
      Some (AuthContext_default\<lparr>ac_authenticated := True\<rparr>, None)"
    using assms(3) unfolding MakeMiddleware_pass by (simp add: AuthMiddleware_new_def is_public_def)
  then have "Dispatch J r req AuthContext_default b = on_metrics MetricsHandler_Metrics (req\<lparr>rq_pathParams := []\<rparr>)
      (AuthContext_default\<lparr>ac_authenticated := True\<rparr>) b" if "app_router X J E now cfg = Some r" for r b
    using that assms
    by (auto simp: app_router_eq Dispatch_def authorized_def metrics_path simp del: pattern_items.simps pattern_names.simps)
  moreover obtain r where "app_router X J E now cfg = Some r" using assms(1) by (simp add: app_router_eq)
  ultimately show ?thesis by (auto simp: serve_def Counter_Inc_one on_metrics_def MetricsHandler_Metrics_def)
qed


section \<open>Witnesses\<close>

definition sample_cfg :: NodeConfig where
  "sample_cfg = NodeConfig_default\<lparr>nc_auth := AuthConfig_default\<lparr>au_jwtSecret := ''s''\<rparr>\<rparr>"

definition sample_app :: app where
  "sample_app = \<lparr>a_raft = sample_leader, a_metrics = OrcMetrics_new\<rparr>"

lemma sample_cfg_validator: "app_validator sample_crypto sample_cfg = Some sample_validator"
  by (simp add: app_validator_def sample_cfg_def NodeConfig_default_def AuthConfig_default_def jwt_config_def JwtValidator_new_def
    JwtConfig_default_def sample_validator_def)

definition put_request :: "string \<Rightarrow> string \<Rightarrow> HttpRequest" where
  "put_request token b = HttpRequest_default\<lparr>rq_method := ''PUT'', rq_path := ''/v1/kv/k'', rq_version := ''HTTP/1.1'',
     rq_headers := [(''Authorization'', ''Bearer '' @ token), (''content-length'', to_string (length b))], rq_body := b\<rparr>"

lemma put_request_fields:
  "GetHeader ''Authorization'' (put_request token b) = ''Bearer '' @ token" "rq_method (put_request token b) = ''PUT''"
  "rq_path (put_request token b) = ''/v1/kv/'' @ ''k''" "capture_ok ''k''" "rq_body (put_request token b) = b"
  by (simp_all add: put_request_def GetHeader_def capture_ok_def any_char_def CR_def LF_def)

lemma sample_put_served:
  "\<exists>b s n'. KVHandler_Put json_text sample_env ((put_request token b)\<lparr>rq_pathParams := [(''key'', ''k'')]\<rparr>) auth sample_leader =
     Some (HttpResponse_Created s, n') \<and> n' \<noteq> sample_leader"
proof -
  let ?J = json_text and ?n = sample_leader and ?body = "j_obj json_text [(''value'', j_str json_text ''v'')]"
  have "built ?J ?body" by (intro built_obj) (auto intro: built_intros)
  then obtain b where b: "j_parse ?J b = Some ?body" by (rule jt.dumpE)
  let ?req = "(put_request token b)\<lparr>rq_pathParams := [(''key'', ''k'')]\<rparr>"
  have u: "utf8_valid ''v''" "utf8_valid ''k''" by simp_all
  obtain n1 where n1: "Propose_begin ?J ''k'' ''v'' OpPut (- 1) ?n = Some (n1, Inr (LastIndex (rlog ?n) + 1))"
    using jt.Propose_begin_ok [OF sample_leader_fields(1,4) u(2,1)] by blast
  have "env_wait sample_env (LastIndex (rlog ?n) + 1) n1 = ApplyLoop_inner (\<lambda>_. 5) (n1\<lparr>commitIndex := LastIndex (rlog ?n) + 1\<rparr>)"
    by (simp add: sample_env_def)
  from Propose_applied [OF n1 sample_leader_fields(2,3,5-7) this] obtain n' old r where
    p: "Propose ?J sample_env ''k'' ''v'' OpPut (- 1) ?n = Some (r, n')" "pr_ok r"
    and f: "om_find (data (store n')) ''k'' = Some (put_entry 5 ''v'' (LastIndex (rlog ?n) + 1) None old)" by auto
  have r: "jget ?J (j_get_str ?J) ?body ''value'' = Some ''v''" "body_ttl ?J ?body = Some None"
    by (simp_all add: jt.jget_obj jt.get_str body_ttl_def jt.field_obj)
  have q: "path_key ?req = Some ''k''" "''k'' \<noteq> []" "j_parse ?J (rq_body ?req) = Some ?body"
    "Propose ?J sample_env ''k'' ''v'' OpPut (case None of None \<Rightarrow> - 1 | Some t \<Rightarrow> t) (env_step sample_env 0 ?n) = Some (r, n')"
    using p(1) b by (simp_all add: path_key_def put_request_def sample_env_def)
  obtain s where "KVHandler_Put ?J sample_env ?req auth ?n = Some (HttpResponse_Created s, n')"
    using jt.Put_proposed [OF q(1,2) u(2) q(3) r sample_leader_fields(1) q(4) p(2)] by metis
  moreover have "n' \<noteq> ?n" using f sample_leader_data(1) by (auto simp: put_entry_def)
  ultimately show ?thesis by blast
qed

theorem change_needs_token_witness:
  "\<exists>req resp a' token c. serve sample_crypto json_text sample_env 130 sample_cfg req sample_app = Some (resp, a') \<and>
     a_raft a' \<noteq> a_raft sample_app \<and> GetHeader ''Authorization'' req = ''Bearer '' @ token \<and>
     accepts sample_crypto json_text 130 sample_validator token c"
proof -
  obtain token where acc: "accepts sample_crypto json_text 130 sample_validator token sample_claims" using sample_token by blast
  have w: "''write'' \<in> set (cl_roles sample_claims)" by (simp add: sample_claims_def)
  obtain b s n' where p: "KVHandler_Put json_text sample_env ((put_request token b)\<lparr>rq_pathParams := [(''key'', ''k'')]\<rparr>)
      (granted token sample_claims) sample_leader = Some (HttpResponse_Created s, n')" "n' \<noteq> sample_leader" using sample_put_served by blast
  let ?req = "put_request token b"
  obtain a' where a: "serve sample_crypto json_text sample_env 130 sample_cfg ?req sample_app = Some (HttpResponse_Created s, a')" "a_raft a' = n'"
    using serve_put [OF sample_cfg_validator put_request_fields(1) acc w put_request_fields(2-4), of sample_app sample_env b] p(1)
    by (auto simp: on_raft_def sample_app_def)
  have ne: "a_raft a' \<noteq> a_raft sample_app" using a(2) p(2) by (simp add: sample_app_def)
  from change_needs_token [OF a(1) ne] obtain v t cl where "app_validator sample_crypto sample_cfg = Some v"
    "GetHeader ''Authorization'' ?req = ''Bearer '' @ t" "accepts sample_crypto json_text 130 v t cl" by blast
  moreover from this(1) have "v = sample_validator" by (simp add: sample_cfg_validator)
  ultimately show ?thesis using a(1) ne by blast
qed

theorem rs256_locked_out_witness:
  "\<exists>resp a'. serve sample_crypto json_text sample_env 130 (sample_cfg\<lparr>nc_auth := AuthConfig_default\<lparr>au_jwtAlgorithm := ''RS256''\<rparr>\<rparr>)
     (put_request ''t'' []) sample_app = Some (resp, a') \<and> rs_statusCode resp = 401"
proof -
  let ?cfg = "sample_cfg\<lparr>nc_auth := AuthConfig_default\<lparr>au_jwtAlgorithm := ''RS256''\<rparr>\<rparr>"
  have "au_jwtAlgorithm (nc_auth ?cfg) = ''RS256''" "\<not> is_public [''/healthz'', ''/readyz'', ''/metrics''] (rq_path (put_request ''t'' []))"
    using kv_path_private [of "''kv/k''"] by (simp_all add: put_request_def)
  from rs256_locked_out [OF jt.json_lib_axioms this] show ?thesis by blast
qed



text \<open>A token is a header value: no line break occurs in it.\<close>

lemma Base64_no_CR: "CR \<notin> set (Base64UrlEncode bs)"
proof
  assume "CR \<in> set (Base64UrlEncode bs)"
  then obtain v where "CR = to_url_char (b64_char v)" using Base64UrlEncode_shape [of bs] by auto
  then have v: "to_url_char (b64_char v) = CR" by simp
  have "of_url_char CR = CR" "decoding CR = - 1" by (simp_all add: of_url_char_def decoding_def CR_def)
  then have "v mod 64 = - 1" using B64_digit(1,3) [of v] v by simp
  then show False using pos_mod_sign [of 64 v] by simp
qed

lemma sample_token_header:
  "\<exists>token. accepts sample_crypto json_text 130 sample_validator token sample_claims \<and> CR \<notin> set token"
proof -
  obtain token where t: "GenerateHS256Token sample_crypto json_text sample_validator sample_claims = Some token"
    "accepts sample_crypto json_text 130 sample_validator token sample_claims" using sample_token by blast
  from t(1) have "CR \<notin> set token"
    using Base64_no_CR by (auto simp: GenerateHS256Token_def Let_def CR_def [symmetric] split: bind_splits) (simp add: CR_def)
  with t(2) show ?thesis by blast
qed

definition bool_body :: string where
  "bool_body = ''{'' @ [CHR 0x22] @ ''value'' @ [CHR 0x22] @ '':true}''"

lemma bool_body_parse: "j_parse json_text bool_body = Some (JObj [(''value'', JBool True)])"
  by code_simp

lemma put_request_bytes:
  assumes "CR \<notin> set token" "length b < 2 ^ 64"
  shows "client_bytes (render_request ''PUT'' ''/v1/kv/k'' ''HTTP/1.1''
    [(''Authorization'', ''Bearer '' @ token), (''content-length'', to_string (length b))] b) (put_request token b)"
proof -
  let ?hs = "[(''Authorization'', ''Bearer '' @ token), (''content-length'', to_string (length b))]"
  have d: "list_all is_digit (to_string (length b))" "to_string (length b) \<noteq> []" "digits_value (to_string (length b)) = length b"
    using to_string_digits by blast+
  have "header_length ?hs 0 = Inr (of_nat (length b))"
    using stoull_digits [OF d(1,2), of "[]"] d(3) assms(2) by (simp add: header_length_def)
  moreover have "CR \<notin> set (to_string (length b))" "trim_left (to_string (length b)) = to_string (length b)"
    using d(1,2) by (auto simp: list_all_iff is_digit_def CR_def trim_left_def neq_Nil_conv)
  moreover have "CR \<notin> set ''Bearer ''" "CR \<notin> set ''Authorization''" "CR \<notin> set ''content-length''" by (simp_all add: CR_def)
  ultimately have "list_all header_ok ?hs" "header_length ?hs 0 = Inr (of_nat (length b))"
    using assms(1) by (simp_all add: header_ok_def trim_left_def)
  moreover have "word_ok ''PUT''" "word_ok ''/v1/kv/k''" "word_ok ''HTTP/1.1''" by (simp_all add: word_ok_def is_space_def)
  ultimately show ?thesis unfolding client_bytes_def put_request_def using assms(2) by (intro exI conjI) simp_all
qed

theorem bad_put_ends_process_witness:
  "\<exists>sv input. IoLoop_event (serve sample_crypto json_text sample_env 130 sample_cfg) 0 (read_event 5 input) sv sample_app = None"
proof -
  obtain token where t: "accepts sample_crypto json_text 130 sample_validator token sample_claims" "CR \<notin> set token"
    using sample_token_header by blast
  let ?sv = "(TcpServer_new TcpServerConfig_default)\<lparr>sv_connections := [(5, TcpConnection_new 0 5)]\<rparr>"
  have c: "map_of (sv_connections ?sv) 5 = Some (TcpConnection_new 0 5)" "idle (TcpConnection_new 0 5)"
    by (simp_all add: idle_def TcpConnection_new_def)
  have w: "''write'' \<in> set (cl_roles sample_claims)" by (simp add: sample_claims_def)
  have "length bool_body < 2 ^ 64" by (simp add: bool_body_def)
  note b = put_request_bytes [OF t(2) this]
  have p: "j_parse json_text (rq_body (put_request token bool_body)) = Some (JObj [(''value'', JBool True)])"
    unfolding put_request_fields(5) by (rule bool_body_parse)
  have j: "j_field json_text (JObj [(''value'', JBool True)]) ''value'' = Some (JBool True)" "j_get_str json_text (JBool True) = None"
    by (simp_all add: json_text_def)
  show ?thesis
    using bad_put_ends_process [OF c b sample_cfg_validator put_request_fields(1) t(1) w put_request_fields(2-4) p j] by blast
qed

end
