(* ===== verification/Spec2Isabelle.thy ===== *)
theory Spec2Isabelle
  imports RaftSafety RaftLoops TcpServer Handlers ThreadPool Timer Server
begin

text \<open>
  A verification development of OrcDB, a key-value store replicated with Raft (C++ sources under
  \<open>src/src\<close>).

  \<^bold>\<open>The program.\<close> A process (\<open>main.cpp\<close>) loads its configuration, opens a write-ahead log,
  recovers a Raft node from it, and runs two servers. The HTTP server accepts clients, parses
  requests, and calls the router, whose middleware validates JSON web tokens and whose routes
  call the handlers. A handler reads the store, or proposes an entry to the node and waits until
  it is applied. The node replicates its log to its peers over a framed TCP protocol, commits an
  entry when a majority has it, and applies committed entries to the store, which notifies the
  watches of waiting clients. Votes, entries and snapshots are written to the write-ahead log.

  \<^bold>\<open>Conventions.\<close> An unsigned integer of \<open>N\<close> bits is an \<open>N word\<close>; \<open>int64_t\<close> is a \<open>64 word\<close> read
  with \<open>sint\<close>; clock readings are \<open>int\<close>s of nanoseconds and arguments of the operations that
  read the clock. A string is a list of characters. A record field carries a short prefix of its
  class. Exceptions the code catches or tests for are values of \<open>exn + 'a\<close>; an exception nobody
  catches, which ends the process, and undefined behaviour are \<open>None\<close>. A section of code that
  runs under a mutex is one function; code that releases the mutex in the middle is split there
  (\<open>StartElection_begin\<close>, \<open>StartElection_response\<close>, \<open>StartElection_end\<close>, \<open>ReplicateToPeer_request\<close>,
  \<open>ReplicateToPeer_response\<close>, \<open>Propose_begin\<close>, \<open>Propose_end\<close>). System calls are arguments that
  carry their results. Loops are recursive functions with termination proofs; none uses fuel.
  Three libraries outside the repository are parameters: \<open>J\<close> (\<open>nlohmann::json\<close>), \<open>X\<close> (the
  signatures of OpenSSL) and \<open>Y\<close> (\<open>yaml-cpp\<close>). The laws assumed of \<open>J\<close> are the locales \<open>json_lib\<close>
  and \<open>json_sized\<close>, interpreted on a full printer and parser in \<open>JsonText\<close>.

  \<^bold>\<open>Foundations.\<close>
  \<^item> \<open>Prelude\<close>, \<open>CxxStd\<close>, \<open>StdText\<close>: machine integers, little-endian bytes, and what the sources
    use of the standard library (searching and splitting strings, \<open>stoull\<close>, \<open>to_string\<close>,
    \<open>std::map\<close> as an ordered association list, locale \<open>ordered_map\<close>).
  \<^item> \<open>Json\<close>, \<open>JsonText\<close>: the interface of the JSON library and its instance.

  \<^bold>\<open>Storage.\<close>
  \<^item> \<open>WriteAheadLog\<close> (\<open>storage/WriteAheadLog.cpp\<close>): CRC, segment files, records, rotation and
    recovery. Lemmas: the table-driven CRC equals polynomial division and detects bursts; a
    reopened log replays exactly what was written (locale \<open>durable_log\<close>); a torn record loses
    nothing before it, but records appended behind it are lost.
  \<^item> \<open>KVStore\<close> (\<open>storage/KVStore.cpp\<close>, \<open>storage/Snapshot.cpp\<close>): every operation, time to live,
    watches, snapshots. Lemmas: the interface of a map (locale \<open>kv_interface\<close>), scans, snapshots
    that restore, the invariant of every run of operations.

  \<^bold>\<open>Raft.\<close>
  \<^item> \<open>RaftRPC\<close> (\<open>raft/RaftRPC.cpp\<close>): messages and frames, their round trips, and when a length
    wraps around.
  \<^item> \<open>RaftLog\<close> (\<open>raft/RaftLog.cpp\<close>): the log in memory and on disk (locale \<open>append_log\<close>).
  \<^item> \<open>RaftNode\<close> (\<open>raft/RaftNode.cpp\<close>): recovery, elections, replication, commitment, application,
    snapshots, handlers and proposals, with the invariant \<open>node_inv\<close> that each of them keeps.
  \<^item> \<open>Cluster\<close>: the nodes and the messages between them as a step relation. Messages may be lost,
    delayed, repeated and reordered, nodes restart from their files. A step is a \<open>live_step\<close>, the
    handling of an answer whose term is over (\<open>late_step\<close>) or a \<open>restart_step\<close>. Election safety over
    every run (locale \<open>quorums\<close>).
  \<^item> \<open>StateMachine\<close>: the abstract state machine that replicas implement (locale \<open>state_machine\<close>).
  \<^item> \<open>LogMatching\<close>, \<open>LeaderCompleteness\<close>, \<open>Commitment\<close>, \<open>Replication\<close>, \<open>StateMachineSafety\<close>,
    \<open>RaftSafety\<close>: the safety of Raft. The proofs keep a history, the log of the leader of each
    term, and an abstract \<open>protocol\<close> that every step of the cluster refines. Lemmas: every log is
    made of prefixes of the history; an entry that a majority has acknowledged is in the log of
    every later leader; the indices a leader keeps never let a request step over entries that a
    follower must drop, so that bounding the commit index by the last index of the follower is
    safe; nodes commit only such entries, and their stores are what the specification makes of
    them. \<open>RaftSafety\<close> has the properties and a run of two nodes that replicate a value.
  \<^item> \<open>RaftTransport\<close> (\<open>raft/RaftPeer.cpp\<close>, \<open>raft/RaftRpcServer.cpp\<close>): connections as byte streams cut
    into chunks (locale \<open>framed_stream\<close>), pending calls and their promises.
  \<^item> \<open>RaftLoops\<close>: the loops of the threads of a node and of its RPC server.

  \<^bold>\<open>Clients.\<close>
  \<^item> \<open>HttpParser\<close>, \<open>HttpResponse\<close>, \<open>TcpServer\<close> (\<open>network/\<close>): requests, responses, connections, the
    accept loop and the event loop.
  \<^item> \<open>Base64\<close>, \<open>JwtAuth\<close> (\<open>auth/\<close>): tokens, the revocation list, the middleware.
  \<^item> \<open>Router\<close>, \<open>Handlers\<close> (\<open>api/\<close>): patterns compiled to regular expressions, dispatch, and every
    handler. The record \<open>env\<close> says what the other threads do while a handler runs.

  \<^bold>\<open>Process.\<close>
  \<^item> \<open>Config\<close>, \<open>ThreadPool\<close>, \<open>Timer\<close> (\<open>util/\<close>) and \<open>Metrics\<close> (\<open>metrics/\<close>): the thread pool and the
    timer are step relations of their threads; a metric is printed from a rational rounded as a
    \<open>double\<close>.
  \<^item> \<open>Server\<close> (\<open>main.cpp\<close>): the configuration of the parts, the routes, a request through
    middleware and handler, the refresh of the metrics, the shutdown.
  \<^item> This theory: a property from the bytes on a socket to the node.

  \<^bold>\<open>Bounds.\<close> The steps of \<open>Cluster\<close> require that terms and segment numbers stay below \<open>2 ^ 64 - 1\<close>,
  that key and value together are shorter than four megabytes, and that a snapshot fits a record;
  a record has a 32-bit length, so what is larger is truncated by the code. Request bodies are
  shorter than \<open>2 ^ 64\<close> bytes. These hold of every run in practice; the wrap-around beyond them is
  part of the definitions.

  \<^bold>\<open>Runs.\<close> Election safety holds of every run of \<open>Cluster\<close>. The other safety properties of Raft
  are about the runs of \<open>LogMatching.run\<close>, which leave out what the code does not get right. No
  log outgrows the threshold for snapshots, since \<open>SetSnapshot\<close> shifts the entries behind it by
  one. A restarted node recovers its log, or for log matching a prefix of it, since a repeated
  batch leaves the log on disk shorter than that in memory. For commitment, answers are handled
  in the term of their request: the code takes a late rejection for one of the current term.
  For the stores, nothing but the apply loop writes to them, since a compare-and-swap does not
  go through the log.

  \<^bold>\<open>Not modelled.\<close>
  \<^item> \<open>util/Logger\<close> only prints through \<open>spdlog\<close>; no state depends on it.
  \<^item> The insides of the three libraries, of OpenSSL and of the kernel: sockets deliver chunks, a
    write to a file is in the file when it returns, and \<open>fdatasync\<close> has no effect of its own.
    A loss of power that keeps some writes and not others is modelled only as a torn last record.
  \<^item> Destructors, the system calls that set socket options, and the registration of descriptors
    with epoll.
  \<^item> Data races and memory order: where the code takes a lock the model has one step. The metrics
    are counted one call at a time.
  \<^item> Infinite and undefined doubles: a counter would have to exceed \<open>10 ^ 308\<close>.
  \<^item> The role names in \<open>auth/Permissions.hpp\<close>, which nothing uses.
\<close>

section \<open>From the socket to the node\<close>



end
